(* ===== verification/Prelude.thy ===== *)
theory Prelude
  imports Main "HOL-Library.Word"
begin

text \<open>
  What every component of the development shares: the machine types of \<^verbatim>\<open>types.h\<close>, the
  outcome type of kernel code (a value, a \<^verbatim>\<open>panic\<close>, a call that goes to sleep, or
  undefined behaviour of C), loops over ranges, byte strings and their little-endian integers,
  byte-addressed memory, and the two generic interfaces of the library: record codecs (used for the
  structures that live in disk blocks) and transition systems with an invariant.
\<close>

unbundle bit_operations_syntax

section \<open>Machine types\<close>

type_synonym u8 = "8 word"
type_synonym u16 = "16 word"
type_synonym u32 = "32 word"
type_synonym bytes = "u8 list"
type_synonym memory = "u32 \<Rightarrow> u8"

definition str :: "string \<Rightarrow> bytes" where
  "str cs = map (\<lambda>c. word_of_nat (of_char c)) cs"

named_theorems kernel_defs \<open>definitions of kernel operations, for unfolding one layer\<close>
named_theorems frame_simps \<open>what an operation leaves unchanged\<close>

section \<open>Outcomes of kernel code\<close>

text \<open>
  Channels a process can sleep on: \<^verbatim>\<open>sleep(chan, lk)\<close> takes the address of the object
  waited for, so a channel names that object; \<open>ChNull\<close> is the null pointer.
\<close>

datatype chan =
    ChNull
  | ChProc nat
  | ChTicks
  | ChLog
  | ChBuf nat
  | ChBufLock nat
  | ChInodeLock nat
  | ChPipeRead u32
  | ChPipeWrite u32
  | ChInput

text \<open>
  \<open>Ok\<close>: the code returned. \<open>Panic\<close>: it called \<^verbatim>\<open>panic\<close>, which never returns.
  \<open>Block\<close>: it cannot go on in this state and sleeps on the channel. \<open>Fault\<close>: the C program
  would do something the language leaves undefined (an access out of the bounds of an array, a null
  dereference, signed overflow).
\<close>

datatype 'a res = Ok 'a | Panic string | Block chan | Fault string

fun kbind :: "'a res \<Rightarrow> ('a \<Rightarrow> 'b res) \<Rightarrow> 'b res" where
  "kbind (Ok x) f = f x"
| "kbind (Panic m) f = Panic m"
| "kbind (Block c) f = Block c"
| "kbind (Fault m) f = Fault m"

lemma kbind_Ok_iff [simp]: "kbind m f = Ok y \<longleftrightarrow> (\<exists>x. m = Ok x \<and> f x = Ok y)"
  by (cases m) auto

lemma kbind_assoc: "kbind (kbind m f) g = kbind m (\<lambda>x. kbind (f x) g)"
  by (cases m) auto

lemma kbind_cong [fundef_cong]:
  "m = m' \<Longrightarrow> (\<And>x. m' = Ok x \<Longrightarrow> f x = f' x) \<Longrightarrow> kbind m f = kbind m' f'"
  by (cases m') auto

text \<open>A \<^verbatim>\<open>for\<close> loop over the indices of a list, threading a state.\<close>

fun for_each :: "('i \<Rightarrow> 's \<Rightarrow> 's res) \<Rightarrow> 'i list \<Rightarrow> 's \<Rightarrow> 's res" where
  "for_each f [] s = Ok s"
| "for_each f (i # is) s = kbind (f i s) (for_each f is)"

lemma for_each_append: "for_each f (xs @ ys) s = kbind (for_each f xs s) (for_each f ys)"
  by (induction xs arbitrary: s) (auto simp: kbind_assoc intro: kbind_cong)

lemma for_each_invariant:
  assumes "for_each f is s = Ok s'" and "P s"
    and "\<And>i s s'. i \<in> set is \<Longrightarrow> P s \<Longrightarrow> f i s = Ok s' \<Longrightarrow> P s'"
  shows "P s'"
  using assms
proof (induction "is" arbitrary: s)
  case Nil
  then show ?case by simp
next
  case (Cons i "is")
  then obtain t where t: "f i s = Ok t" and rest: "for_each f is t = Ok s'" by auto
  from Cons.prems(3) [of i s t] t Cons.prems(2) have "P t" by simp
  from rest this show ?case by (rule Cons.IH) (use Cons.prems(3) in auto)
qed

lemma for_each_total:
  assumes "\<And>i s. i \<in> set is \<Longrightarrow> P s \<Longrightarrow> \<exists>s'. f i s = Ok s' \<and> P s'" and "P s"
  shows "\<exists>s'. for_each f is s = Ok s' \<and> P s'"
  using assms
proof (induction "is" arbitrary: s)
  case (Cons i "is")
  then obtain t where "f i s = Ok t" "P t" by fastforce
  moreover from Cons this obtain u where "for_each f is t = Ok u" "P u" by fastforce
  ultimately show ?case by auto
qed simp

text \<open>
  The table scans of the kernel (\<^verbatim>\<open>for(p = tab; p < &tab[N]; p++) if(...) ...\<close>) stop at the
  first slot that satisfies a condition.
\<close>

definition first_slot :: "nat \<Rightarrow> (nat \<Rightarrow> bool) \<Rightarrow> nat option" where
  "first_slot n P = find P [0..<n]"

lemma first_slot_SomeD: "first_slot n P = Some i \<Longrightarrow> i < n \<and> P i \<and> (\<forall>j<i. \<not> P j)"
  unfolding first_slot_def by (subst (asm) find_Some_iff) auto

lemma first_slot_NoneD: "first_slot n P = None \<Longrightarrow> i < n \<Longrightarrow> \<not> P i"
  unfolding first_slot_def by (simp add: find_None_iff)

lemma first_slot_None_iff: "first_slot n P = None \<longleftrightarrow> (\<forall>i<n. \<not> P i)"
  unfolding first_slot_def by (auto simp: find_None_iff)

lemma first_slot_Some_iff:
  "first_slot n P = Some i \<longleftrightarrow> i < n \<and> P i \<and> (\<forall>j<i. \<not> P j)"
proof
  assume h: "i < n \<and> P i \<and> (\<forall>j<i. \<not> P j)"
  then have "first_slot n P \<noteq> None" by (auto simp: first_slot_None_iff)
  then obtain k where k: "first_slot n P = Some k" by auto
  with first_slot_SomeD [OF k] h have "k = i" by (metis linorder_neqE_nat)
  with k show "first_slot n P = Some i" by simp
qed (rule first_slot_SomeD)

lemma first_slot_cong:
  "(\<And>i. i < n \<Longrightarrow> P i = Q i) \<Longrightarrow> first_slot n P = first_slot n Q"
  unfolding first_slot_def by (rule find_cong) auto

section \<open>Byte strings and little-endian integers\<close>

text \<open>The bytes at \<open>off .. off + n\<close> of a buffer, and the buffer with bytes stored at \<open>off\<close>.\<close>

definition slice :: "nat \<Rightarrow> nat \<Rightarrow> 'a list \<Rightarrow> 'a list" where
  "slice off n xs = take n (drop off xs)"

definition patch :: "'a list \<Rightarrow> nat \<Rightarrow> 'a list \<Rightarrow> 'a list" where
  "patch xs off ys = take off xs @ ys @ drop (off + length ys) xs"

lemma length_slice [simp]: "off + n \<le> length xs \<Longrightarrow> length (slice off n xs) = n"
  by (simp add: slice_def)

lemma length_patch [simp]: "off + length ys \<le> length xs \<Longrightarrow> length (patch xs off ys) = length xs"
  by (simp add: patch_def)

lemma nth_patch:
  assumes "off + length ys \<le> length xs" and "i < length xs"
  shows "patch xs off ys ! i =
    (if off \<le> i \<and> i < off + length ys then ys ! (i - off) else xs ! i)"
  using assms by (auto simp: patch_def nth_append min_def)

lemma nth_slice: "off + n \<le> length xs \<Longrightarrow> i < n \<Longrightarrow> slice off n xs ! i = xs ! (off + i)"
  by (simp add: slice_def)

lemma slice_patch_same [simp]:
  "off + length ys \<le> length xs \<Longrightarrow> n = length ys \<Longrightarrow> slice off n (patch xs off ys) = ys"
  by (simp add: slice_def patch_def)

lemma slice_patch_other:
  assumes "off + length ys \<le> length xs" and "off' + n \<le> length xs"
    and "off' + n \<le> off \<or> off + length ys \<le> off'"
  shows "slice off' n (patch xs off ys) = slice off' n xs"
  using assms by (intro nth_equalityI) (auto simp: nth_slice nth_patch)

lemma patch_patch_same [simp]:
  "off + length ys \<le> length xs \<Longrightarrow> length zs = length ys \<Longrightarrow>
    patch (patch xs off ys) off zs = patch xs off zs"
  by (rule nth_equalityI) (auto simp: nth_patch)

definition le16 :: "u16 \<Rightarrow> bytes" where
  "le16 w = [ucast w, ucast (drop_bit 8 w)]"

definition le32 :: "u32 \<Rightarrow> bytes" where
  "le32 w = [ucast w, ucast (drop_bit 8 w), ucast (drop_bit 16 w), ucast (drop_bit 24 w)]"

definition of_le16 :: "bytes \<Rightarrow> u16" where
  "of_le16 bs = ucast (bs ! 0) OR push_bit 8 (ucast (bs ! 1))"

definition of_le32 :: "bytes \<Rightarrow> u32" where
  "of_le32 bs = ucast (bs ! 0) OR push_bit 8 (ucast (bs ! 1)) OR
     push_bit 16 (ucast (bs ! 2)) OR push_bit 24 (ucast (bs ! 3))"

lemma length_le16 [simp]: "length (le16 w) = 2"
  by (simp add: le16_def)

lemma length_le32 [simp]: "length (le32 w) = 4"
  by (simp add: le32_def)

lemma of_le16_le16 [simp]: "of_le16 (le16 w) = w"
  unfolding of_le16_def le16_def
  by (rule bit_word_eqI) (auto simp: bit_or_iff bit_push_bit_iff bit_ucast_iff bit_drop_bit_eq)

lemma of_le32_le32 [simp]: "of_le32 (le32 w) = w"
proof (rule bit_word_eqI)
  fix n :: nat
  assume "n < LENGTH(32)"
  then have "n < 8 \<or> 8 \<le> n \<and> n < 16 \<or> 16 \<le> n \<and> n < 24 \<or> 24 \<le> n \<and> n < 32" by auto
  then show "bit (of_le32 (le32 w)) n = bit w n"
    by (elim disjE)
      (auto simp: of_le32_def le32_def bit_or_iff bit_push_bit_iff bit_ucast_iff bit_drop_bit_eq)
qed

lemma of_le32_append [simp]: "of_le32 (le32 w @ bs) = w"
  using of_le32_le32 [of w] by (simp add: of_le32_def le32_def)

section \<open>Records inside a block\<close>

text \<open>
  \<^verbatim>\<open>(struct T*)data + i\<close>: the \<open>i\<close>-th record of \<open>sz\<close> bytes of a block, read and stored through
  an encoder and a decoder. The interface \<open>codec\<close> is what the file system relies on for the
  structures of \<^verbatim>\<open>fs.h\<close>.
\<close>

definition rec_get :: "(bytes \<Rightarrow> 'a) \<Rightarrow> nat \<Rightarrow> nat \<Rightarrow> bytes \<Rightarrow> 'a" where
  "rec_get dec sz i blk = dec (slice (i * sz) sz blk)"

definition rec_put :: "('a \<Rightarrow> bytes) \<Rightarrow> nat \<Rightarrow> nat \<Rightarrow> 'a \<Rightarrow> bytes \<Rightarrow> bytes" where
  "rec_put enc sz i x blk = patch blk (i * sz) (enc x)"

locale codec =
  fixes enc :: "'a \<Rightarrow> bytes" and dec :: "bytes \<Rightarrow> 'a" and sz :: nat and ok :: "'a \<Rightarrow> bool"
  assumes enc_length: "ok x \<Longrightarrow> length (enc x) = sz"
    and dec_enc: "ok x \<Longrightarrow> dec (enc x) = x"
begin

lemma slot_fits: "i < n \<Longrightarrow> n * sz \<le> length blk \<Longrightarrow> i * sz + sz \<le> length blk"
  by (metis Suc_leI add.commute le_trans mult_Suc mult_le_mono1)

lemma length_rec_put:
  "ok x \<Longrightarrow> i < n \<Longrightarrow> n * sz \<le> length blk \<Longrightarrow> length (rec_put enc sz i x blk) = length blk"
  using slot_fits [of i n blk] by (simp add: rec_put_def enc_length)

lemma rec_get_put_same:
  "ok x \<Longrightarrow> i < n \<Longrightarrow> n * sz \<le> length blk \<Longrightarrow> rec_get dec sz i (rec_put enc sz i x blk) = x"
  using slot_fits [of i n blk] by (simp add: rec_get_def rec_put_def enc_length dec_enc)

lemma rec_get_put_other:
  assumes "ok x" and "i < n" and "j < n" and "i \<noteq> j" and "n * sz \<le> length blk"
  shows "rec_get dec sz j (rec_put enc sz i x blk) = rec_get dec sz j blk"
proof -
  have "j * sz + sz \<le> i * sz \<or> i * sz + sz \<le> j * sz"
    using \<open>i \<noteq> j\<close> by (metis Suc_leI add.commute linorder_neqE_nat mult_Suc mult_le_mono1)
  with assms show ?thesis
    using slot_fits [of i n blk] slot_fits [of j n blk]
    by (simp add: rec_get_def rec_put_def enc_length slice_patch_other)
qed

end

section \<open>Byte-addressed memory\<close>

text \<open>
  Kernel memory is addressed by 32-bit kernel addresses; an access that runs past the top of the
  address space wraps around, as the processor's address arithmetic does.
\<close>

definition store_bytes :: "memory \<Rightarrow> u32 \<Rightarrow> bytes \<Rightarrow> memory" where
  "store_bytes m a bs = (\<lambda>x. if unat (x - a) < length bs then bs ! unat (x - a) else m x)"

definition load_bytes :: "memory \<Rightarrow> u32 \<Rightarrow> nat \<Rightarrow> bytes" where
  "load_bytes m a n = map (\<lambda>i. m (a + word_of_nat i)) [0..<n]"

definition read32 :: "memory \<Rightarrow> u32 \<Rightarrow> u32" where
  "read32 m a = of_le32 (load_bytes m a 4)"

definition write32 :: "memory \<Rightarrow> u32 \<Rightarrow> u32 \<Rightarrow> memory" where
  "write32 m a v = store_bytes m a (le32 v)"

text \<open>Two regions of \<open>n\<close> and \<open>k\<close> bytes that share no address.\<close>

definition apart :: "u32 \<Rightarrow> nat \<Rightarrow> u32 \<Rightarrow> nat \<Rightarrow> bool" where
  "apart a n b k \<longleftrightarrow> n \<le> unat (b - a) \<and> k \<le> unat (a - b)"

lemma length_load_bytes [simp]: "length (load_bytes m a n) = n"
  by (simp add: load_bytes_def)

lemma unat32_less: "unat (x :: u32) < 4294967296"
  using unsigned_less [of x] by simp

lemma unat_word_of_nat_less: "i < 2 ^ 32 \<Longrightarrow> unat (word_of_nat i :: u32) = i"
  by (simp add: unat_of_nat take_bit_nat_eq_self)

lemma unat_add_nat:
  assumes "unat (x :: u32) + i < 2 ^ 32"
  shows "unat (x + word_of_nat i) = unat x + i"
proof -
  have "unat (word_of_nat i :: u32) = i" using assms by (intro unat_word_of_nat_less) simp
  with assms show ?thesis by (subst unat_add_lem [THEN iffD1]) simp_all
qed

lemma load_store_same:
  "length bs \<le> 2 ^ 32 \<Longrightarrow> load_bytes (store_bytes m a bs) a (length bs) = bs"
  by (rule nth_equalityI)
    (auto simp: load_bytes_def store_bytes_def unat_word_of_nat_less)

lemma apart_offset:
  assumes "apart a n b k" and "i < k"
  shows "n \<le> unat (b + word_of_nat i - a)"
proof -
  have ab: "unat (a - b) = (if a = b then 0 else 4294967296 - unat (b - a))"
    using unat32_less [of a] unat32_less [of b] by (auto simp: unat_sub_if' word_unat_eq_iff)
  have lt: "unat (b - a) + i < 2 ^ 32"
    using assms ab unat32_less [of "b - a"] by (auto simp: apart_def split: if_splits)
  have "b + word_of_nat i - a = (b - a) + word_of_nat i" by simp
  with unat_add_nat [OF lt] have "unat (b + word_of_nat i - a) = unat (b - a) + i" by metis
  with assms(1) show ?thesis by (simp add: apart_def)
qed

lemma load_store_apart:
  "apart a (length bs) b k \<Longrightarrow> load_bytes (store_bytes m a bs) b k = load_bytes m b k"
  using apart_offset [of a "length bs" b k]
  by (auto simp: load_bytes_def store_bytes_def not_less [symmetric])

lemma read32_write32_same [simp]: "read32 (write32 m a v) a = v"
  using load_store_same [of "le32 v" m a] by (simp add: read32_def write32_def)

lemma read32_write32_apart: "apart a 4 b 4 \<Longrightarrow> read32 (write32 m a v) b = read32 m b"
  by (simp add: read32_def write32_def load_store_apart)

lemma write32_apart: "4 \<le> unat (x - a) \<Longrightarrow> write32 m a v x = m x"
  by (simp add: write32_def store_bytes_def)

lemma aligned_apart_dvd:
  fixes a b :: u32
  assumes "d dvd 4294967296" and "d dvd unat a" and "d dvd unat b" and "a \<noteq> b"
  shows "apart a d b d"
proof -
  have ge: "d \<le> unat (y - x)" if "d dvd unat x" "d dvd unat y" "x \<noteq> y" for x y :: u32
  proof -
    have "unat (y - x) = (if unat x \<le> unat y then unat y - unat x else unat y + 4294967296 - unat x)"
      by (simp add: unat_sub_if')
    then have "d dvd unat (y - x)" using that assms(1) by (auto intro: dvd_diff_nat)
    moreover have "unat (y - x) \<noteq> 0" using that by (simp add: unat_eq_0)
    ultimately show ?thesis by (auto dest: dvd_imp_le)
  qed
  from ge [of a b] ge [of b a] assms show ?thesis by (simp add: apart_def)
qed

lemma aligned_apart:
  "unat a mod 4 = 0 \<Longrightarrow> unat b mod 4 = 0 \<Longrightarrow> a \<noteq> b \<Longrightarrow> apart a 4 b 4"
  by (rule aligned_apart_dvd) auto

lemma apart_sub:
  "apart a n b k \<Longrightarrow> n' \<le> n \<Longrightarrow> k' \<le> k \<Longrightarrow> apart a n' b k'"
  by (simp add: apart_def)

section \<open>Transition systems\<close>

text \<open>
  A component with several agents is a step relation. What every reachable state satisfies follows
  from an invariant that the initial states satisfy and every step keeps.
\<close>

locale transition_system =
  fixes init :: "'s \<Rightarrow> bool" and step :: "'s \<Rightarrow> 's \<Rightarrow> bool" and inv :: "'s \<Rightarrow> bool"
  assumes init_inv: "init s \<Longrightarrow> inv s"
    and step_inv: "inv s \<Longrightarrow> step s t \<Longrightarrow> inv t"
begin

lemma steps_inv: "step\<^sup>*\<^sup>* s t \<Longrightarrow> inv s \<Longrightarrow> inv t"
  by (induction rule: rtranclp_induct) (auto intro: step_inv)

lemma reachable_inv: "init s \<Longrightarrow> step\<^sup>*\<^sup>* s t \<Longrightarrow> inv t"
  using init_inv steps_inv by blast

end

end
