(* ===== verification/CString.thy ===== *)
theory CString
  imports Prelude
begin

text \<open>
  \<^verbatim>\<open>string.c\<close>: the memory routines over byte-addressed memory and the string routines over character
  sequences. A \<^verbatim>\<open>const char*\<close> that is only read is the sequence of characters that starts at
  it (\<open>cstr\<close>); an array that is written is the list of its bytes. The lemmas give each routine its
  closed form: \<open>memset\<close> fills (the word-wise path and the byte-wise path agree), \<open>memmove\<close> copies
  also when the regions overlap, the bounded string routines compare and copy names.
\<close>

type_synonym cstr = "nat \<Rightarrow> u8"

definition cstr_of :: "bytes \<Rightarrow> cstr" where
  "cstr_of bs = (\<lambda>i. if i < length bs then bs ! i else 0)"

section \<open>Memory routines\<close>

primrec stosb :: "nat \<Rightarrow> u32 \<Rightarrow> u8 \<Rightarrow> memory \<Rightarrow> memory" where
  "stosb 0 addr data m = m"
| "stosb (Suc cnt) addr data m = stosb cnt (addr + 1) data (m(addr := data))"

primrec stosl :: "nat \<Rightarrow> u32 \<Rightarrow> u32 \<Rightarrow> memory \<Rightarrow> memory" where
  "stosl 0 addr data m = m"
| "stosl (Suc cnt) addr data m = stosl cnt (addr + 4) data (write32 m addr data)"

definition memset :: "u32 \<Rightarrow> u32 \<Rightarrow> u32 \<Rightarrow> memory \<Rightarrow> memory" where
  "memset dst c n m =
     (if dst mod 4 = 0 \<and> n mod 4 = 0
      then let c = c AND 0xFF in
        stosl (unat (n div 4)) dst
          (push_bit 24 c OR push_bit 16 c OR push_bit 8 c OR c) m
      else stosb (unat n) dst (ucast c) m)"

primrec memcmp :: "nat \<Rightarrow> u32 \<Rightarrow> u32 \<Rightarrow> memory \<Rightarrow> int" where
  "memcmp 0 s1 s2 m = 0"
| "memcmp (Suc n) s1 s2 m =
     (if m s1 \<noteq> m s2 then uint (m s1) - uint (m s2) else memcmp n (s1 + 1) (s2 + 1) m)"

primrec copy_up :: "nat \<Rightarrow> u32 \<Rightarrow> u32 \<Rightarrow> memory \<Rightarrow> memory" where
  "copy_up 0 d s m = m"
| "copy_up (Suc n) d s m = copy_up n (d + 1) (s + 1) (m(d := m s))"

primrec copy_down :: "nat \<Rightarrow> u32 \<Rightarrow> u32 \<Rightarrow> memory \<Rightarrow> memory" where
  "copy_down 0 d s m = m"
| "copy_down (Suc n) d s m = copy_down n (d - 1) (s - 1) (m(d - 1 := m (s - 1)))"

definition memmove :: "u32 \<Rightarrow> u32 \<Rightarrow> u32 \<Rightarrow> memory \<Rightarrow> memory" where
  "memmove dst src n m =
     (if src < dst \<and> src + n > dst
      then copy_down (unat n) (dst + n) (src + n) m
      else copy_up (unat n) dst src m)"

section \<open>String routines\<close>

primrec strncmp :: "nat \<Rightarrow> cstr \<Rightarrow> cstr \<Rightarrow> int" where
  "strncmp 0 p q = 0"
| "strncmp (Suc n) p q =
     (if p 0 \<noteq> 0 \<and> p 0 = q 0 then strncmp n (\<lambda>i. p (Suc i)) (\<lambda>i. q (Suc i))
      else uint (p 0) - uint (q 0))"

primrec strncpy_pad :: "nat \<Rightarrow> nat \<Rightarrow> bytes \<Rightarrow> bytes" where
  "strncpy_pad 0 i s = s"
| "strncpy_pad (Suc n) i s = strncpy_pad n (Suc i) (s[i := 0])"

primrec strncpy_loop :: "nat \<Rightarrow> nat \<Rightarrow> bytes \<Rightarrow> cstr \<Rightarrow> bytes" where
  "strncpy_loop 0 i s t = s"
| "strncpy_loop (Suc n) i s t =
     (let s' = s[i := t i] in
      if t i \<noteq> 0 then strncpy_loop n (Suc i) s' t else strncpy_pad n (Suc i) s')"

definition strncpy :: "bytes \<Rightarrow> cstr \<Rightarrow> int \<Rightarrow> bytes" where
  "strncpy s t n = strncpy_loop (nat n) 0 s t"

primrec safestrcpy_loop :: "nat \<Rightarrow> nat \<Rightarrow> bytes \<Rightarrow> cstr \<Rightarrow> bytes" where
  "safestrcpy_loop 0 i s t = s[i := 0]"
| "safestrcpy_loop (Suc n) i s t =
     (let s' = s[i := t i] in
      if t i \<noteq> 0 then safestrcpy_loop n (Suc i) s' t else s'[Suc i := 0])"

definition safestrcpy :: "bytes \<Rightarrow> cstr \<Rightarrow> int \<Rightarrow> bytes" where
  "safestrcpy s t n = (if n \<le> 0 then s else safestrcpy_loop (nat (n - 1)) 0 s t)"

partial_function (option) strlen_from :: "cstr \<Rightarrow> nat \<Rightarrow> nat option" where
  "strlen_from s n = (if s n = 0 then Some n else strlen_from s (Suc n))"

definition strlen :: "cstr \<Rightarrow> nat option" where
  "strlen s = strlen_from s 0"

section \<open>The memory routines in closed form\<close>

lemma stosb_eq: "cnt < 2 ^ 32 \<Longrightarrow>
  stosb cnt a c m = (\<lambda>x. if unat (x - a) < cnt then c else m x)"
proof (induction cnt arbitrary: a m)
  case (Suc cnt)
  have step: "unat (x - (a + 1)) < cnt \<or> x = a \<longleftrightarrow> unat (x - a) < Suc cnt" for x
  proof (cases "x = a")
    case False
    then have "x - a \<noteq> 0" by simp
    then have "unat (x - a - 1) = unat (x - a) - 1" by (simp add: unat_minus_one)
    moreover have "unat (x - a) \<noteq> 0" using False by (simp add: unat_eq_0)
    moreover have "x - (a + 1) = x - a - 1" by simp
    ultimately show ?thesis using False by (metis Suc_less_eq Suc_pred' gr0I)
  qed simp
  show ?case
  proof
    fix x
    have "stosb (Suc cnt) a c m x = (if unat (x - (a + 1)) < cnt then c else (m(a := c)) x)"
      using Suc.prems by (simp only: stosb.simps Suc.IH Suc_lessD)
    then show "stosb (Suc cnt) a c m x = (if unat (x - a) < Suc cnt then c else m x)"
      using step [of x] by auto
  qed
qed simp

lemma stosl_eq: "4 * cnt < 2 ^ 32 \<Longrightarrow>
  stosl cnt a v m = (\<lambda>x. if unat (x - a) < 4 * cnt then le32 v ! (unat (x - a) mod 4) else m x)"
proof (induction cnt arbitrary: a m)
  case (Suc cnt)
  show ?case
  proof
    fix x
    have lt: "unat (x - (a + 4)) = (if 4 \<le> unat (x - a) then unat (x - a) - 4
        else 2 ^ 32 + unat (x - a) - 4)"
      using unat_sub_if' [of "x - a" 4] by (simp add: diff_diff_eq)
    have unfold: "stosl (Suc cnt) a v m x = (if unat (x - (a + 4)) < 4 * cnt
        then le32 v ! (unat (x - (a + 4)) mod 4) else write32 m a v x)"
    proof -
      have "4 * cnt < 2 ^ 32" using Suc.prems by simp
      then show ?thesis by (simp only: stosl.simps Suc.IH)
    qed
    show "stosl (Suc cnt) a v m x =
      (if unat (x - a) < 4 * Suc cnt then le32 v ! (unat (x - a) mod 4) else m x)"
    proof (cases "4 \<le> unat (x - a)")
      case True
      then have "(unat (x - a) - 4) mod 4 = unat (x - a) mod 4"
        by (simp add: le_mod_geq)
      with True show ?thesis using unfold lt
        by (auto simp: write32_apart)
    next
      case False
      then have "\<not> unat (x - (a + 4)) < 4 * cnt" using lt Suc.prems by simp
      with False show ?thesis
        using unfold by (simp add: write32_def store_bytes_def)
    qed
  qed
qed simp

lemma le32_replicated:
  fixes c :: u32
  defines "w \<equiv> c AND 0xFF"
  assumes "i < 4"
  shows "le32 (push_bit 24 w OR push_bit 16 w OR push_bit 8 w OR w) ! i = ucast c"
proof -
  have bits: "bit w n \<longleftrightarrow> n < 8 \<and> bit c n" for n
  proof -
    have "(0xFF :: u32) = mask 8" by (simp add: mask_eq_exp_minus_1)
    then have "w = c AND mask 8" by (simp only: w_def)
    then show ?thesis by (auto simp: bit_and_iff bit_mask_iff)
  qed
  have "i = 0 \<or> i = 1 \<or> i = 2 \<or> i = 3" using assms(2) by auto
  then show ?thesis
    by (elim disjE; intro bit_word_eqI)
      (auto simp: le32_def bit_ucast_iff bit_or_iff bit_push_bit_iff bit_drop_bit_eq bits)
qed

lemma memset_eq: "memset dst c n m = (\<lambda>x. if unat (x - dst) < unat n then ucast c else m x)"
proof (cases "dst mod 4 = 0 \<and> n mod 4 = 0")
  case True
  then have "unat (n mod 4) = 0" by (simp only: unat_0)
  then have "unat n mod 4 = 0" by (simp add: unat_mod_distrib)
  moreover have "unat (n div 4) = unat n div 4" by (simp add: unat_div_distrib)
  ultimately have n: "4 * unat (n div 4) = unat n" by presburger
  then have "4 * unat (n div 4) < 2 ^ 32" using unat32_less [of n] by simp
  with True have "memset dst c n m x = (if unat (x - dst) < unat n then ucast c else m x)" for x
    by (simp only: memset_def Let_def stosl_eq n le32_replicated mod_less_divisor) simp
  then show ?thesis by (rule ext)
next
  case False
  with stosb_eq [of "unat n" dst "ucast c" m] unat32_less [of n] show ?thesis
    by (auto simp: memset_def)
qed

lemma unat_diff_Suc:
  fixes x d :: u32
  shows "unat (x - d) < Suc n \<longleftrightarrow> x = d \<or> unat (x - (d + 1)) < n"
proof (cases "x = d")
  case False
  then have "unat (x - d - 1) = unat (x - d) - 1" by (simp add: unat_minus_one)
  moreover have "unat (x - d) \<noteq> 0" using False by (simp add: unat_eq_0)
  ultimately show ?thesis using False by (auto simp: diff_diff_eq)
qed simp

text \<open>
  Copying upwards is right unless the destination starts strictly inside the source; copying
  downwards is right unless it ends strictly inside it.
\<close>

lemma copy_up_eq:
  assumes "d = s \<or> n \<le> unat (d - s)"
  shows "copy_up n d s m x = (if unat (x - d) < n then m (s + (x - d)) else m x)"
  using assms
proof (induction n arbitrary: d s m)
  case (Suc n)
  let ?m = "m(d := m s)"
  from Suc.prems have "d + 1 = s + 1 \<or> n \<le> unat (d + 1 - (s + 1))" by auto
  from Suc.IH [OF this, of ?m] have IH: "copy_up (Suc n) d s m x =
      (if unat (x - (d + 1)) < n then ?m (s + 1 + (x - (d + 1))) else ?m x)"
    by (simp only: copy_up.simps)
  have src: "?m (s + (x - d)) = m (s + (x - d))" if "unat (x - d) < Suc n"
  proof (cases "s + (x - d) = d")
    case True
    then have "x - d = d - s" by (metis add_diff_cancel_left')
    with that Suc.prems have "d = s" by auto
    then show ?thesis using True by simp
  qed simp
  have "s + 1 + (x - (d + 1)) = s + (x - d)" by simp
  with IH src show ?case using unat_diff_Suc [of x d n] by auto
qed simp

lemma copy_down_eq:
  assumes "d = s \<or> n \<le> unat (s - d)"
  shows "copy_down n d s m x = (if unat (d - 1 - x) < n then m (s - (d - x)) else m x)"
  using assms
proof (induction n arbitrary: d s m)
  case (Suc n)
  let ?m = "m(d - 1 := m (s - 1))"
  from Suc.prems have "d - 1 = s - 1 \<or> n \<le> unat (s - 1 - (d - 1))" by auto
  from Suc.IH [OF this, of ?m] have IH: "copy_down (Suc n) d s m x =
      (if unat (d - 1 - 1 - x) < n then ?m (s - 1 - (d - 1 - x)) else ?m x)"
    by (simp only: copy_down.simps)
  have rng: "unat (d - 1 - x) < Suc n \<longleftrightarrow> d - 1 = x \<or> unat (d - 1 - 1 - x) < n"
    using unat_diff_Suc [of "d - 1" x n] by (simp add: diff_diff_eq add.commute)
  have src: "?m (s - (d - x)) = m (s - (d - x))" if "unat (d - 1 - x) < Suc n"
  proof (cases "s - (d - x) = d - 1")
    case True
    then have "d - 1 - x = s - d" by (simp add: algebra_simps)
    with that Suc.prems have "d = s" by auto
    then show ?thesis using True by simp
  qed simp
  define y where "y = s - (d - x)"
  have "s - 1 - (d - 1 - x) = y" by (simp add: y_def)
  with IH src rng show ?case unfolding y_def [symmetric] by auto
qed simp

lemma unat_mirror:
  fixes k n :: u32
  shows "unat (n - 1 - k) < unat n \<longleftrightarrow> unat k < unat n"
proof (cases "n = 0")
  case False
  then have n: "unat n \<noteq> 0" and n1: "unat (n - 1) = unat n - 1"
    by (simp_all add: unat_eq_0 unat_minus_one)
  from unat_sub_if' [of "n - 1" k] have "unat (n - 1 - k) =
      (if unat k \<le> unat n - 1 then unat n - 1 - unat k else unat n - 1 + 2 ^ 32 - unat k)"
    by (simp add: n1)
  with n unat32_less [of k] unat32_less [of n] show ?thesis by auto
qed simp

lemma memmove_eq:
  assumes "unat src + unat n < 2 ^ 32" and "unat dst + unat n \<le> 2 ^ 32"
  shows "memmove dst src n m = store_bytes m dst (load_bytes m src (unat n))"
proof
  fix x
  have st: "store_bytes m dst (load_bytes m src (unat n)) x =
      (if unat (x - dst) < unat n then m (src + (x - dst)) else m x)"
    by (simp add: store_bytes_def load_bytes_def)
  have sn: "unat (src + n) = unat src + unat n"
    using assms(1) by (simp add: unat_add_lem [THEN iffD1])
  show "memmove dst src n m x = store_bytes m dst (load_bytes m src (unat n)) x"
  proof (cases "src < dst \<and> src + n > dst")
    case True
    have "unat n \<le> unat (src - dst)"
      using True assms unat32_less [of dst] unat_sub_if' [of src dst]
      by (simp add: word_less_nat_alt)
    then have c: "dst + n = src + n \<or> unat n \<le> unat (src + n - (dst + n))" by simp
    have e1: "dst + n - 1 - x = n - 1 - (x - dst)" by simp
    have e2: "src + n - (dst + n - x) = src + (x - dst)" by simp
    have "memmove dst src n m x = copy_down (unat n) (dst + n) (src + n) m x"
      using True by (simp add: memmove_def)
    then show ?thesis by (simp only: copy_down_eq [OF c] e1 e2 unat_mirror st)
  next
    case False
    then have c: "dst = src \<or> unat n \<le> unat (dst - src)"
      using assms sn unat32_less [of src] unat_sub_if' [of dst src]
      by (auto simp: word_less_nat_alt word_unat_eq_iff [of dst src])
    have "memmove dst src n m x = copy_up (unat n) dst src m x"
      using False by (auto simp: memmove_def)
    then show ?thesis by (simp only: copy_up_eq [OF c] st)
  qed
qed

lemma uint8_eq [simp]: "uint (a :: u8) = uint b \<longleftrightarrow> a = b"
  by (simp add: word_uint_eq_iff)

lemma memcmp_0_iff: "memcmp n s1 s2 m = 0 \<longleftrightarrow> load_bytes m s1 n = load_bytes m s2 n"
proof (induction n arbitrary: s1 s2)
  case (Suc n)
  have ld: "load_bytes m a (Suc n) = m a # load_bytes m (a + 1) n" for a
    by (simp add: load_bytes_def map_upt_Suc add.assoc del: upt_Suc)
  show ?case by (auto simp: ld Suc.IH)
qed (simp add: load_bytes_def)

section \<open>Names: the bounded string routines\<close>

text \<open>The name held in an array of \<open>n\<close> characters: up to the first NUL, or all of it.\<close>

definition cname :: "nat \<Rightarrow> cstr \<Rightarrow> bytes" where
  "cname n s = takeWhile (\<lambda>c. c \<noteq> 0) (map s [0..<n])"

lemma cname_cong: "(\<And>i. i < n \<Longrightarrow> f i = g i) \<Longrightarrow> cname n f = cname n g"
  unfolding cname_def by (rule arg_cong [where f = "takeWhile _"]) simp

lemma cname_Suc:
  "cname (Suc n) s = (if s 0 = 0 then [] else s 0 # cname n (\<lambda>i. s (Suc i)))"
  by (simp add: cname_def map_upt_Suc del: upt_Suc)

lemma strncmp_0_iff: "strncmp n p q = 0 \<longleftrightarrow> cname n p = cname n q"
proof (induction n arbitrary: p q)
  case (Suc n)
  then show ?case by (auto simp: cname_Suc uint_0_iff)
qed (simp add: cname_def)

lemma length_strncpy_pad [simp]: "length (strncpy_pad n i s) = length s"
  by (induction n arbitrary: i s) auto

lemma length_strncpy_loop [simp]: "length (strncpy_loop n i s t) = length s"
  by (induction n arbitrary: i s) (auto simp: Let_def)

lemma nth_strncpy_pad:
  "i + n \<le> length s \<Longrightarrow> k < length s \<Longrightarrow>
    strncpy_pad n i s ! k = (if i \<le> k \<and> k < i + n then 0 else s ! k)"
  by (induction n arbitrary: i s) (auto simp: nth_list_update)

lemma nth_strncpy_loop:
  "i + n \<le> length s \<Longrightarrow> k < length s \<Longrightarrow>
    strncpy_loop n i s t ! k =
      (if i \<le> k \<and> k < i + n then (if 0 \<in> t ` {i..<k} then 0 else t k) else s ! k)"
proof (induction n arbitrary: i s)
  case (Suc n)
  show ?case
  proof (cases "t i = 0")
    case True
    then have "0 \<in> t ` {i..<k}" if "i < k" using that by force
    with True Suc.prems show ?thesis
      by (auto simp: Let_def nth_strncpy_pad nth_list_update)
  next
    case False
    have "0 \<in> t ` {i..<k} \<longleftrightarrow> 0 \<in> t ` {Suc i..<k}" if "i \<le> k"
    proof (cases "i = k")
      case False
      with that have "{i..<k} = insert i {Suc i..<k}" by auto
      with \<open>t i \<noteq> 0\<close> show ?thesis by (metis image_insert insert_iff)
    qed simp
    with False Suc.IH [of "Suc i" "s[i := t i]"] Suc.prems show ?thesis
      by (cases "k = i") (simp_all add: Let_def nth_list_update)
  qed
qed auto

lemma cname_upto_NUL:
  "(\<And>k. k < n \<Longrightarrow> f k = (if 0 \<in> t ` {0..<k} then 0 else t k)) \<Longrightarrow> cname n f = cname n t"
proof (induction n arbitrary: f t)
  case (Suc n)
  have f0: "f 0 = t 0" using Suc.prems [of 0] by simp
  show ?case
  proof (cases "t 0 = 0")
    case False
    have "f (Suc k) = (if 0 \<in> (\<lambda>i. t (Suc i)) ` {0..<k} then 0 else t (Suc k))" if "k < n" for k
    proof -
      have "{0..<Suc k} = insert 0 (Suc ` {0..<k})" by auto
      then have "t ` {0..<Suc k} = insert (t 0) ((\<lambda>i. t (Suc i)) ` {0..<k})"
        by (simp only: image_insert image_image)
      then have "0 \<in> t ` {0..<Suc k} \<longleftrightarrow> 0 \<in> (\<lambda>i. t (Suc i)) ` {0..<k}"
        using False by (metis insert_iff)
      with Suc.prems [of "Suc k"] that show ?thesis by simp
    qed
    then have "cname n (\<lambda>i. f (Suc i)) = cname n (\<lambda>i. t (Suc i))" by (rule Suc.IH)
    with f0 show ?thesis by (simp add: cname_Suc)
  qed (simp add: cname_Suc f0)
qed (simp add: cname_def)

lemma length_strncpy [simp]: "length (strncpy s t n) = length s"
  by (simp add: strncpy_def)

lemma cname_strncpy:
  "nat n \<le> length s \<Longrightarrow> cname (nat n) (cstr_of (strncpy s t n)) = cname (nat n) t"
  by (rule cname_upto_NUL) (simp add: cstr_of_def strncpy_def nth_strncpy_loop)

lemma safestrcpy_loop_prefix: "k < i \<Longrightarrow> safestrcpy_loop n i s t ! k = s ! k"
  by (induction n arbitrary: i s) (auto simp: Let_def)

lemma length_safestrcpy_loop [simp]: "length (safestrcpy_loop n i s t) = length s"
  by (induction n arbitrary: i s) (auto simp: Let_def)

lemma safestrcpy_loop_cname:
  "i + Suc n \<le> length s \<Longrightarrow>
    cname (Suc n) (\<lambda>k. safestrcpy_loop n i s t ! (i + k)) = cname n (\<lambda>k. t (i + k))"
proof (induction n arbitrary: i s)
  case (Suc n)
  show ?case
  proof (cases "t i = 0")
    case False
    have hd: "safestrcpy_loop (Suc n) i s t ! i = t i"
      using False Suc.prems safestrcpy_loop_prefix [of i "Suc i" n "s[i := t i]" t]
      by (simp add: Let_def)
    have "cname (Suc n) (\<lambda>k. safestrcpy_loop n (Suc i) (s[i := t i]) t ! (Suc i + k)) =
        cname n (\<lambda>k. t (Suc i + k))"
      using Suc.prems by (intro Suc.IH) simp
    with False hd show ?thesis
      by (subst cname_Suc, subst (2) cname_Suc) (simp add: Let_def)
  qed (use Suc.prems in \<open>simp add: cname_Suc Let_def\<close>)
qed (simp add: cname_def)

lemma length_safestrcpy [simp]: "length (safestrcpy s t n) = length s"
  by (simp add: safestrcpy_def)

text \<open>The copy is always NUL-terminated: it holds at most \<open>n - 1\<close> characters of the source.\<close>

lemma cname_safestrcpy:
  assumes "0 < n" and "nat n \<le> length s"
  shows "cname (nat n) (cstr_of (safestrcpy s t n)) = cname (nat (n - 1)) t"
proof -
  have n: "nat n = Suc (nat (n - 1))" using assms(1) by simp
  have "cname (nat n) (cstr_of (safestrcpy s t n)) =
      cname (Suc (nat (n - 1))) (\<lambda>k. safestrcpy_loop (nat (n - 1)) 0 s t ! (0 + k))"
    unfolding n by (rule cname_cong) (use assms n in \<open>simp add: cstr_of_def safestrcpy_def\<close>)
  also have "\<dots> = cname (nat (n - 1)) (\<lambda>k. t (0 + k))"
    by (rule safestrcpy_loop_cname) (use assms n in simp)
  finally show ?thesis by simp
qed

lemma strlen_from_Some:
  "k \<le> n \<Longrightarrow> s n = 0 \<Longrightarrow> (\<And>i. k \<le> i \<Longrightarrow> i < n \<Longrightarrow> s i \<noteq> 0) \<Longrightarrow> strlen_from s k = Some n"
proof (induction "n - k" arbitrary: k)
  case 0
  then show ?case by (subst strlen_from.simps) simp
next
  case (Suc d)
  then show ?case by (subst strlen_from.simps) simp
qed

lemma strlen_eq: "s n = 0 \<Longrightarrow> (\<And>i. i < n \<Longrightarrow> s i \<noteq> 0) \<Longrightarrow> strlen s = Some n"
  unfolding strlen_def by (rule strlen_from_Some) auto

end
