(* ===== verification/Spinlock.thy ===== *)
theory Spinlock
  imports Prelude
begin

text \<open>
  \<^verbatim>\<open>spinlock.c\<close>: nested disabling of interrupts (\<open>pushcli\<close>, \<open>popcli\<close>) and spin locks on a
  machine with several processors. \<open>acquire\<close> and \<open>release\<close> are not atomic: the step relation
  \<open>spin_step\<close> interleaves their instructions (the \<^verbatim>\<open>xchg\<close>, the store of \<^verbatim>\<open>lk->cpu\<close>, the store
  that frees the lock, \<open>popcli\<close>) between processors. The lock's name and the recorded call stack
  are debugging aids and are left out. The invariant \<open>spin_inv\<close> gives mutual exclusion, that
  interrupts stay off while a lock is held, and that \<open>popcli\<close> never panics.
\<close>

section \<open>Interrupt nesting\<close>

text \<open>The per-processor state the locks use: \<open>ifl\<close> is the flag \<^verbatim>\<open>FL_IF\<close> of the processor's eflags.\<close>

record cpu =
  ncli :: int
  intena :: bool
  ifl :: bool

definition pushcli :: "cpu \<Rightarrow> cpu" where
  "pushcli c =
     (let eflags = ifl c;
          c = c\<lparr>ifl := False\<rparr>;
          c = (if ncli c = 0 then c\<lparr>intena := eflags\<rparr> else c)
      in c\<lparr>ncli := ncli c + 1\<rparr>)"

definition popcli :: "cpu \<Rightarrow> cpu res" where
  "popcli c =
     (if ifl c then Panic ''popcli - interruptible''
      else let c = c\<lparr>ncli := ncli c - 1\<rparr> in
        if ncli c < 0 then Panic ''popcli''
        else if ncli c = 0 \<and> intena c then Ok (c\<lparr>ifl := True\<rparr>) else Ok c)"

section \<open>Locks and the processors that run them\<close>

record spinlock =
  locked :: bool
  lcpu :: "nat option"

definition initlock :: "spinlock \<Rightarrow> spinlock" where
  "initlock lk = lk\<lparr>locked := False, lcpu := None\<rparr>"

definition holding :: "nat \<Rightarrow> spinlock \<Rightarrow> bool" where
  "holding c lk \<longleftrightarrow> locked lk \<and> lcpu lk = Some c"

text \<open>
  Where a processor stands: in ordinary code; in the \<^verbatim>\<open>while(xchg(...))\<close> loop of \<open>acquire\<close>; past
  it but before \<^verbatim>\<open>lk->cpu = cpu\<close>; in \<open>release\<close> after \<^verbatim>\<open>lk->cpu = 0\<close> but before the lock is freed;
  before the final \<open>popcli\<close>; stopped by a panic.
\<close>

datatype spin_pc = Free | Spin nat | Won nat | Rel nat | RelPop | Panicked string

record spin_sys =
  cpus :: "nat \<Rightarrow> cpu"
  locks :: "nat \<Rightarrow> spinlock"
  pcs :: "nat \<Rightarrow> spin_pc"

definition set_pc :: "nat \<Rightarrow> spin_pc \<Rightarrow> spin_sys \<Rightarrow> spin_sys" where
  "set_pc c p s = s\<lparr>pcs := (pcs s)(c := p)\<rparr>"

definition set_lock :: "nat \<Rightarrow> spinlock \<Rightarrow> spin_sys \<Rightarrow> spin_sys" where
  "set_lock l lk s = s\<lparr>locks := (locks s)(l := lk)\<rparr>"

definition set_cpu :: "nat \<Rightarrow> cpu \<Rightarrow> spin_sys \<Rightarrow> spin_sys" where
  "set_cpu c k s = s\<lparr>cpus := (cpus s)(c := k)\<rparr>"

definition acquire_enter :: "nat \<Rightarrow> nat \<Rightarrow> spin_sys \<Rightarrow> spin_sys" where
  "acquire_enter c l s =
     (let s = set_cpu c (pushcli (cpus s c)) s in
      if holding c (locks s l) then set_pc c (Panicked ''acquire'') s else set_pc c (Spin l) s)"

text \<open>One \<^verbatim>\<open>xchg(&lk->locked, 1)\<close>: the loop ends when the old value was 0.\<close>

definition acquire_xchg :: "nat \<Rightarrow> nat \<Rightarrow> spin_sys \<Rightarrow> spin_sys" where
  "acquire_xchg c l s =
     (let old = locked (locks s l);
          s = set_lock l ((locks s l)\<lparr>locked := True\<rparr>) s
      in if old then s else set_pc c (Won l) s)"

definition acquire_record :: "nat \<Rightarrow> nat \<Rightarrow> spin_sys \<Rightarrow> spin_sys" where
  "acquire_record c l s = set_pc c Free (set_lock l ((locks s l)\<lparr>lcpu := Some c\<rparr>) s)"

definition release_enter :: "nat \<Rightarrow> nat \<Rightarrow> spin_sys \<Rightarrow> spin_sys" where
  "release_enter c l s =
     (if \<not> holding c (locks s l) then set_pc c (Panicked ''release'') s
      else set_pc c (Rel l) (set_lock l ((locks s l)\<lparr>lcpu := None\<rparr>) s))"

definition release_store :: "nat \<Rightarrow> nat \<Rightarrow> spin_sys \<Rightarrow> spin_sys" where
  "release_store c l s = set_pc c RelPop (set_lock l ((locks s l)\<lparr>locked := False\<rparr>) s)"

definition release_pop :: "nat \<Rightarrow> spin_sys \<Rightarrow> spin_sys" where
  "release_pop c s =
     (case popcli (cpus s c) of
        Ok k \<Rightarrow> set_pc c Free (set_cpu c k s)
      | Panic m \<Rightarrow> set_pc c (Panicked m) s
      | _ \<Rightarrow> s)"

text \<open>
  A processor outside every lock may switch its own interrupts on or off (\<open>flag\<close>): the scheduler's
  \<^verbatim>\<open>sti()\<close>, trap entry and return.
\<close>

inductive spin_step :: "spin_sys \<Rightarrow> spin_sys \<Rightarrow> bool" where
  acquire: "pcs s c = Free \<Longrightarrow> spin_step s (acquire_enter c l s)"
| xchg: "pcs s c = Spin l \<Longrightarrow> spin_step s (acquire_xchg c l s)"
| recorded: "pcs s c = Won l \<Longrightarrow> spin_step s (acquire_record c l s)"
| release: "pcs s c = Free \<Longrightarrow> spin_step s (release_enter c l s)"
| store: "pcs s c = Rel l \<Longrightarrow> spin_step s (release_store c l s)"
| pop: "pcs s c = RelPop \<Longrightarrow> spin_step s (release_pop c s)"
| flag: "pcs s c = Free \<Longrightarrow> ncli (cpus s c) = 0 \<Longrightarrow>
    spin_step s (set_cpu c ((cpus s c)\<lparr>ifl := b\<rparr>) s)"

definition spin_init :: "spin_sys \<Rightarrow> bool" where
  "spin_init s \<longleftrightarrow> (\<forall>c. pcs s c = Free \<and> ncli (cpus s c) = 0) \<and>
     (\<forall>l. locks s l = initlock (locks s l))"

section \<open>Nesting restores the interrupt flag\<close>

primrec push_n :: "nat \<Rightarrow> cpu \<Rightarrow> cpu" where
  "push_n 0 c = c"
| "push_n (Suc n) c = pushcli (push_n n c)"

primrec pop_n :: "nat \<Rightarrow> cpu \<Rightarrow> cpu res" where
  "pop_n 0 c = Ok c"
| "pop_n (Suc n) c = kbind (popcli c) (pop_n n)"

lemma push_n_state:
  "ncli c = 0 \<Longrightarrow> push_n n c =
    (if n = 0 then c else c\<lparr>ncli := int n, intena := ifl c, ifl := False\<rparr>)"
  by (induction n) (auto simp: pushcli_def Let_def)

lemma pop_n_state:
  "\<not> ifl c \<Longrightarrow> ncli c = int n \<Longrightarrow> n \<noteq> 0 \<Longrightarrow>
    pop_n n c = Ok (c\<lparr>ncli := 0, ifl := intena c\<rparr>)"
proof (induction n arbitrary: c)
  case (Suc n)
  then show ?case
    by (cases "n = 0") (auto simp: popcli_def Let_def)
qed simp

section \<open>The lock invariant\<close>

definition claims :: "spin_sys \<Rightarrow> nat \<Rightarrow> nat \<Rightarrow> bool" where
  "claims s c l \<longleftrightarrow> lcpu (locks s l) = Some c \<or> pcs s c = Won l \<or> pcs s c = Rel l"

definition held :: "spin_sys \<Rightarrow> nat \<Rightarrow> nat set" where
  "held s c = {l. lcpu (locks s l) = Some c}"

definition mutex_inv :: "spin_sys \<Rightarrow> bool" where
  "mutex_inv s \<longleftrightarrow>
     (\<forall>c l. claims s c l \<longrightarrow> locked (locks s l)) \<and>
     (\<forall>c c' l. claims s c l \<longrightarrow> claims s c' l \<longrightarrow> c = c') \<and>
     (\<forall>c c' l. pcs s c = Won l \<or> pcs s c = Rel l \<longrightarrow> lcpu (locks s l) \<noteq> Some c')"

definition nest_inv :: "spin_sys \<Rightarrow> bool" where
  "nest_inv s \<longleftrightarrow>
     (\<forall>c. finite (held s c)) \<and>
     (\<forall>c. 0 < ncli (cpus s c) \<longrightarrow> \<not> ifl (cpus s c)) \<and>
     (\<forall>c. (\<forall>m. pcs s c \<noteq> Panicked m) \<longrightarrow>
        ncli (cpus s c) = int (card (held s c)) + (if pcs s c = Free then 0 else 1)) \<and>
     (\<forall>c. 0 \<le> ncli (cpus s c)) \<and>
     (\<forall>c m. pcs s c = Panicked m \<longrightarrow> m = ''acquire'' \<or> m = ''release'')"

definition spin_inv :: "spin_sys \<Rightarrow> bool" where
  "spin_inv s \<longleftrightarrow> mutex_inv s \<and> nest_inv s"

lemmas spin_op_defs = acquire_enter_def acquire_xchg_def acquire_record_def release_enter_def
  release_store_def release_pop_def set_pc_def set_lock_def set_cpu_def Let_def

lemma popcli_cases:
  "0 < ncli k \<Longrightarrow> \<not> ifl k \<Longrightarrow> \<exists>k'. popcli k = Ok k' \<and> ncli k' = ncli k - 1 \<and> (0 < ncli k' \<longrightarrow> \<not> ifl k')"
  by (auto simp: popcli_def Let_def)

lemma pushcli_state: "ncli (pushcli k) = ncli k + 1" "\<not> ifl (pushcli k)"
  by (auto simp: pushcli_def Let_def)

lemma initlock_fix: "lk = initlock lk \<longleftrightarrow> \<not> locked lk \<and> lcpu lk = None"
  by (cases lk) (auto simp: initlock_def)

lemma spin_init_inv: "spin_init s \<Longrightarrow> spin_inv s"
  by (simp add: spin_init_def spin_inv_def mutex_inv_def nest_inv_def claims_def held_def initlock_fix)

lemma spin_step_mutex: "spin_step s t \<Longrightarrow> spin_inv s \<Longrightarrow> mutex_inv t"
  by (induction rule: spin_step.induct)
    (auto simp: spin_inv_def mutex_inv_def claims_def holding_def spin_op_defs
      split: res.splits if_splits, metis not_None_eq)

lemma held_set_pc [simp]: "held (set_pc c p s) = held s"
  by (simp add: held_def set_pc_def fun_eq_iff)

lemma held_set_cpu [simp]: "held (set_cpu c k s) = held s"
  by (simp add: held_def set_cpu_def fun_eq_iff)

lemma held_set_lock:
  "held (set_lock l lk s) c = (if lcpu lk = Some c then insert l (held s c) else held s c - {l})"
  by (auto simp: held_def set_lock_def)

lemma held_set_lock_same: "lcpu lk = lcpu (locks s l) \<Longrightarrow> held (set_lock l lk s) = held s"
  by (auto simp: held_def set_lock_def fun_eq_iff)

lemma spin_step_nest: "spin_step s t \<Longrightarrow> spin_inv s \<Longrightarrow> nest_inv t"
proof (induction rule: spin_step.induct)
  case (recorded s c l)
  then have n: "lcpu (locks s l) \<noteq> Some c'" for c'
    by (auto simp: spin_inv_def mutex_inv_def)
  then have "l \<notin> held s c'" for c' by (simp add: held_def)
  with recorded show ?case
    by (auto simp: spin_inv_def nest_inv_def acquire_record_def held_set_lock)
      (auto simp: set_pc_def set_lock_def split: if_splits)
next
  case (release s c l)
  show ?case
  proof (cases "holding c (locks s l)")
    case True
    then have l: "l \<in> held s c" and "\<And>c'. c' \<noteq> c \<Longrightarrow> l \<notin> held s c'"
      by (auto simp: held_def holding_def)
    moreover from l release have "0 < card (held s c)"
      by (auto simp: spin_inv_def nest_inv_def card_gt_0_iff)
    ultimately show ?thesis using True release
      by (auto simp: spin_inv_def nest_inv_def release_enter_def held_set_lock)
        (auto simp: set_pc_def set_lock_def split: if_splits)
  next
    case False
    with release show ?thesis
      by (auto simp: spin_inv_def nest_inv_def release_enter_def)
        (auto simp: set_pc_def split: if_splits)
  qed
next
  case (pop s c)
  then have "0 < ncli (cpus s c)" "\<not> ifl (cpus s c)"
    by (auto simp: spin_inv_def nest_inv_def)
  from popcli_cases [OF this] pop show ?case
    by (auto simp: spin_inv_def nest_inv_def release_pop_def)
      (auto simp: set_pc_def set_cpu_def split: if_splits)
qed (auto simp: spin_inv_def nest_inv_def acquire_enter_def acquire_xchg_def release_store_def
  Let_def held_set_lock_same pushcli_state, auto simp: set_pc_def set_cpu_def set_lock_def pushcli_state split: if_splits,
  (metis spin_pc.distinct)+)

interpretation spin: transition_system spin_init spin_step spin_inv
  by unfold_locales (rule spin_init_inv, simp, simp add: spin_step_mutex spin_step_nest spin_inv_def)

section \<open>Properties\<close>

text \<open>C15: In every reachable state of the processors, a lock that one processor has won (from the
  successful \<^verbatim>\<open>xchg\<close> of \<open>acquire\<close> to the store that frees it in \<open>release\<close>) is marked locked, no
  other processor has it too, and interrupts are off on that processor as long as it runs.\<close>

theorem spinlock_mutual_exclusion:
  assumes "spin_init s0" and "spin_step\<^sup>*\<^sup>* s0 s" and "claims s c l"
  shows "locked (locks s l) \<and> (\<forall>c'. claims s c' l \<longrightarrow> c' = c) \<and>
    ((\<forall>m. pcs s c \<noteq> Panicked m) \<longrightarrow> 0 < ncli (cpus s c) \<and> \<not> ifl (cpus s c))"
proof -
  have inv: "mutex_inv s" "nest_inv s"
    using spin.reachable_inv [OF assms(1,2)] by (simp_all add: spin_inv_def)
  have "0 < ncli (cpus s c)" if "\<forall>m. pcs s c \<noteq> Panicked m"
  proof (cases "l \<in> held s c")
    case True
    with inv(2) have "0 < card (held s c)" by (auto simp: nest_inv_def card_gt_0_iff)
    with that inv(2) show ?thesis by (auto simp: nest_inv_def)
  next
    case False
    with assms(3) have "pcs s c \<noteq> Free" by (auto simp: claims_def held_def)
    with that inv(2) show ?thesis by (auto simp: nest_inv_def)
  qed
  with inv assms(3) show ?thesis by (auto simp: mutex_inv_def nest_inv_def)
qed

definition spin_demo :: spin_sys where
  "spin_demo = \<lparr>cpus = (\<lambda>_. \<lparr>ncli = 0, intena = False, ifl = True\<rparr>),
     locks = (\<lambda>_. \<lparr>locked = False, lcpu = None\<rparr>), pcs = (\<lambda>_. Free)\<rparr>"

theorem spinlock_mutual_exclusion_witness:
  "let s = acquire_record 0 7 (acquire_xchg 0 7 (acquire_enter 0 7 spin_demo)) in
     spin_init spin_demo \<and> spin_step\<^sup>*\<^sup>* spin_demo s \<and> claims s 0 7 \<and>
     (\<forall>c'. claims s c' 7 \<longrightarrow> c' = 0) \<and> \<not> ifl (cpus s 0)"
proof -
  let ?a = "acquire_enter 0 7 spin_demo"
  let ?b = "acquire_xchg 0 7 ?a"
  let ?s = "acquire_record 0 7 ?b"
  have init: "spin_init spin_demo" by (simp add: spin_init_def spin_demo_def initlock_def)
  have "spin_step spin_demo ?a" by (rule spin_step.acquire) (simp add: spin_demo_def)
  moreover have "spin_step ?a ?b"
    by (rule spin_step.xchg) (simp add: spin_op_defs holding_def spin_demo_def)
  moreover have "spin_step ?b ?s"
    by (rule spin_step.recorded) (simp add: spin_op_defs holding_def spin_demo_def)
  ultimately have run: "spin_step\<^sup>*\<^sup>* spin_demo ?s" by auto
  have cl: "claims ?s 0 7" by (simp add: claims_def spin_op_defs)
  have "\<forall>m. pcs ?s 0 \<noteq> Panicked m" by (simp add: spin_op_defs)
  with spinlock_mutual_exclusion [OF init run cl] init run cl show ?thesis by (simp add: Let_def)
qed



end
