(* ===== verification/Kernel_State.thy ===== *)
theory Kernel_State
  imports CString Spinlock
begin

text \<open>
  The data of the kernel: the constants of \<^verbatim>\<open>param.h\<close>, \<^verbatim>\<open>mmu.h\<close> and \<^verbatim>\<open>memlayout.h\<close>, the structures of
  \<^verbatim>\<open>proc.h\<close>, \<^verbatim>\<open>x86.h\<close>, \<^verbatim>\<open>fs.h\<close>, \<^verbatim>\<open>buf.h\<close>, \<^verbatim>\<open>file.h\<close>, \<^verbatim>\<open>pipe.c\<close>, \<^verbatim>\<open>log.c\<close> and \<^verbatim>\<open>console.c\<close>, and one record,
  \<open>kernel\<close>, with every global variable that the modelled code reads or writes, as seen from one
  processor. A table of the source is a function from slot numbers, a pointer into a table is the
  slot number, and a null pointer is \<open>None\<close>. A flag word is one boolean per flag.
\<close>

section \<open>Constants\<close>

abbreviation (input) "NPROC \<equiv> (64 :: nat)"
abbreviation (input) "KSTACKSIZE \<equiv> (4096 :: u32)"
abbreviation (input) "NCPU \<equiv> (8 :: nat)"
abbreviation (input) "NOFILE \<equiv> (16 :: nat)"
abbreviation (input) "NFILE \<equiv> (100 :: nat)"
abbreviation (input) "NINODE \<equiv> (50 :: nat)"
abbreviation (input) "NDEV \<equiv> (10 :: nat)"
abbreviation (input) "ROOTDEV \<equiv> (1 :: u32)"
abbreviation (input) "MAXARG \<equiv> (32 :: nat)"
abbreviation (input) "MAXOPBLOCKS \<equiv> (10 :: nat)"
abbreviation (input) "LOGSIZE \<equiv> (30 :: nat)"
abbreviation (input) "NBUF \<equiv> (30 :: nat)"
abbreviation (input) "FSSIZE \<equiv> (1000 :: nat)"
abbreviation (input) "NUMSIG \<equiv> (32 :: nat)"
abbreviation (input) "SIGALRM \<equiv> (14 :: nat)"
abbreviation (input) "defualtHandlerAdd \<equiv> (0xFFFF :: u32)"

abbreviation (input) "PGSIZE \<equiv> (4096 :: u32)"
abbreviation (input) "KERNBASE \<equiv> (0x80000000 :: u32)"
abbreviation (input) "EXTMEM \<equiv> (0x100000 :: u32)"
abbreviation (input) "PHYSTOP \<equiv> (0xE000000 :: u32)"
abbreviation (input) "DEVSPACE \<equiv> (0xFE000000 :: u32)"
abbreviation (input) "PTE_P \<equiv> (1 :: u32)"
abbreviation (input) "PTE_W \<equiv> (2 :: u32)"
abbreviation (input) "PTE_U \<equiv> (4 :: u32)"

abbreviation (input) "BSIZE \<equiv> (512 :: nat)"
abbreviation (input) "ROOTINO \<equiv> (1 :: u32)"
abbreviation (input) "NDIRECT \<equiv> (12 :: nat)"
abbreviation (input) "NINDIRECT \<equiv> (128 :: nat)"
abbreviation (input) "MAXFILE \<equiv> (140 :: nat)"
abbreviation (input) "IPB \<equiv> (8 :: nat)"
abbreviation (input) "BPB \<equiv> (4096 :: nat)"
abbreviation (input) "DIRSIZ \<equiv> (14 :: nat)"
abbreviation (input) "T_DIR \<equiv> (1 :: u16)"
abbreviation (input) "T_FILE \<equiv> (2 :: u16)"
abbreviation (input) "T_DEV \<equiv> (3 :: u16)"
abbreviation (input) "PIPESIZE \<equiv> (512 :: nat)"
abbreviation (input) "INPUT_BUF \<equiv> (128 :: nat)"

section \<open>Processes\<close>

record trapframe =
  tf_edi :: u32
  tf_esi :: u32
  tf_ebp :: u32
  tf_oesp :: u32
  tf_ebx :: u32
  tf_edx :: u32
  tf_ecx :: u32
  tf_eax :: u32
  tf_gs :: u16
  tf_fs :: u16
  tf_es :: u16
  tf_ds :: u16
  tf_trapno :: u32
  tf_err :: u32
  tf_eip :: u32
  tf_cs :: u16
  tf_eflags :: u32
  tf_esp :: u32
  tf_ss :: u16

datatype procstate = UNUSED | EMBRYO | SLEEPING | RUNNABLE | RUNNING | ZOMBIE

text \<open>
  The spin locks that a process can hold across a call of \<^verbatim>\<open>sleep\<close>, by name.
\<close>

datatype lockname = LPtable | LTicks | LLog | LPipe u32 | LCons | LIde | LSleep chan

text \<open>
  Where a process that is not running will continue in the kernel, which the source keeps on its
  kernel stack: at the start of \<open>forkret\<close>, or after the \<^verbatim>\<open>swtch\<close> of \<open>sched\<close> (with the saved
  \<^verbatim>\<open>intena\<close>) called from \<open>yield\<close>, from \<open>sleep\<close> with a lock, or from \<open>exit\<close>.
\<close>

datatype kcont = AtForkret | InYield bool | InSleep bool lockname | InExit bool

record proc =
  sz :: u32
  pgdir :: u32
  kstack :: u32
  state :: procstate
  pid :: int
  parent :: "nat option"
  tfp :: u32
  tf :: trapframe
  ctxp :: u32
  kont :: kcont
  chan :: chan
  killed :: bool
  ofile :: "nat \<Rightarrow> nat option"
  cwd :: "nat option"
  pname :: bytes
  pending :: "nat \<Rightarrow> int"
  sighandlers :: "nat \<Rightarrow> u32"
  procHandlingSigNow :: u32
  tfToRestore :: u32
  sigretAdd :: u32
  alarm_ticks_num :: int

section \<open>File system structures\<close>

record sleeplock =
  sl_locked :: bool
  sl_pid :: int

record buf =
  b_valid :: bool
  b_dirty :: bool
  b_dev :: u32
  b_blockno :: u32
  b_lock :: sleeplock
  b_refcnt :: u32
  b_prev :: nat
  b_next :: nat
  b_data :: bytes

record superblock =
  sb_size :: u32
  sb_nblocks :: u32
  sb_ninodes :: u32
  sb_nlog :: u32
  sb_logstart :: u32
  sb_inodestart :: u32
  sb_bmapstart :: u32

record dinode =
  di_type :: u16
  di_major :: u16
  di_minor :: u16
  di_nlink :: u16
  di_size :: u32
  di_addrs :: "u32 list"

record dirent =
  de_inum :: u16
  de_name :: bytes

record inode =
  i_dev :: u32
  i_inum :: u32
  i_ref :: int
  i_lock :: sleeplock
  i_valid :: bool
  i_type :: u16
  i_major :: u16
  i_minor :: u16
  i_nlink :: u16
  i_size :: u32
  i_addrs :: "u32 list"

record logst =
  l_start :: int
  l_size :: int
  l_outstanding :: int
  l_committing :: bool
  l_dev :: u32
  l_n :: int
  l_block :: "u32 list"

datatype ftype = FD_NONE | FD_PIPE | FD_INODE

record filest =
  f_type :: ftype
  f_ref :: int
  f_readable :: bool
  f_writable :: bool
  f_pipe :: u32
  f_ip :: nat
  f_off :: u32

record pipest =
  p_data :: bytes
  nread :: u32
  nwrite :: u32
  readopen :: bool
  writeopen :: bool

record inputst =
  in_buf :: bytes
  in_r :: u32
  in_w :: u32
  in_e :: u32

text \<open>The only device with entries in \<^verbatim>\<open>devsw\<close> is the console.\<close>

datatype devfn = DevConsole

text \<open>Addresses that the linker chooses.\<close>

record linkinfo =
  lk_end :: u32
  lk_data :: u32
  lk_trapret :: u32
  lk_forkret :: u32
  lk_proc :: u32
  lk_file :: u32
  lk_chan :: "chan \<Rightarrow> u32"

text \<open>
  Pointers into the tables as the words they are in memory: \<^verbatim>\<open>struct proc\<close> has 396 bytes and
  \<^verbatim>\<open>struct file\<close> has 24 (the layout of the 32-bit x86 ABI).
\<close>

definition proc_addr :: "linkinfo \<Rightarrow> nat option \<Rightarrow> u32" where
  "proc_addr l p = (case p of None \<Rightarrow> 0 | Some i \<Rightarrow> lk_proc l + 396 * word_of_nat i)"

definition file_addr :: "linkinfo \<Rightarrow> nat option \<Rightarrow> u32" where
  "file_addr l f = (case f of None \<Rightarrow> 0 | Some i \<Rightarrow> lk_file l + 24 * word_of_nat i)"

section \<open>The kernel's global state\<close>

record kernel =
  procs :: "nat \<Rightarrow> proc"
  initproc :: "nat option"
  nextpid :: int
  cur :: "nat option"
  mycpu :: cpu
  heldlk :: "lockname list"
  forkret_first :: bool
  ticks :: u32
  lnk :: linkinfo
  mem :: memory
  freelist :: u32
  kpgdir :: u32
  cr3 :: u32
  disk :: "u32 \<Rightarrow> bytes"
  disksize :: nat
  dwrites :: "(u32 \<times> bytes) list"
  bufs :: "nat \<Rightarrow> buf"
  sb :: superblock
  log :: logst
  inodes :: "nat \<Rightarrow> inode"
  devsw :: "nat \<Rightarrow> devfn option"
  files :: "nat \<Rightarrow> filest"
  pipes :: "u32 \<Rightarrow> pipest"
  input :: inputst
  cons_out :: "u32 list"

type_synonym 'a kop = "kernel \<Rightarrow> ('a \<times> kernel) res"

text \<open>The enumerators of \<^verbatim>\<open>enum procstate\<close> are ordered as in C.\<close>

fun procstate_num :: "procstate \<Rightarrow> nat" where
  "procstate_num UNUSED = 0"
| "procstate_num EMBRYO = 1"
| "procstate_num SLEEPING = 2"
| "procstate_num RUNNABLE = 3"
| "procstate_num RUNNING = 4"
| "procstate_num ZOMBIE = 5"

lemma procstate_num_inject: "procstate_num x = procstate_num y \<longleftrightarrow> x = y"
  by (cases x; cases y) auto

instantiation procstate :: linorder
begin

definition less_eq_procstate :: "procstate \<Rightarrow> procstate \<Rightarrow> bool" where
  "less_eq_procstate x y \<longleftrightarrow> procstate_num x \<le> procstate_num y"

definition less_procstate :: "procstate \<Rightarrow> procstate \<Rightarrow> bool" where
  "less_procstate x y \<longleftrightarrow> procstate_num x < procstate_num y"

instance
  by standard
    (auto simp: less_eq_procstate_def less_procstate_def procstate_num_inject [symmetric])

end

definition upd_proc :: "nat \<Rightarrow> (proc \<Rightarrow> proc) \<Rightarrow> kernel \<Rightarrow> kernel" where
  "upd_proc i f s = s\<lparr>procs := (procs s)(i := f (procs s i))\<rparr>"

text \<open>The current process; a dereference of the null pointer \<^verbatim>\<open>proc\<close> is a fault.\<close>

definition with_proc :: "kernel \<Rightarrow> (nat \<Rightarrow> 'a res) \<Rightarrow> 'a res" where
  "with_proc s f = (case cur s of None \<Rightarrow> Fault ''null proc'' | Some p \<Rightarrow> f p)"

lemma with_proc_Ok_iff [simp]:
  "with_proc s f = Ok y \<longleftrightarrow> (\<exists>p. cur s = Some p \<and> f p = Ok y)"
  by (simp add: with_proc_def split: option.splits)

lemma procs_upd_proc [simp]: "procs (upd_proc i f s) = (procs s)(i := f (procs s i))"
  by (simp add: upd_proc_def)

text \<open>Wake up: \<open>wakeup1\<close> over the process table, and \<open>wakeup\<close>, the same under \<^verbatim>\<open>ptable.lock\<close>.\<close>

definition wakeup1 :: "chan \<Rightarrow> (nat \<Rightarrow> proc) \<Rightarrow> nat \<Rightarrow> proc" where
  "wakeup1 c ps = (\<lambda>i. if i < NPROC \<and> state (ps i) = SLEEPING \<and> chan (ps i) = c
     then (ps i)\<lparr>state := RUNNABLE\<rparr> else ps i)"

definition wakeup :: "chan \<Rightarrow> kernel \<Rightarrow> kernel" where
  "wakeup c s = s\<lparr>procs := wakeup1 c (procs s)\<rparr>"

section \<open>The state at boot\<close>

text \<open>
  The kernel's variables start at zero, except \<^verbatim>\<open>nextpid\<close> and \<^verbatim>\<open>first\<close> of \<open>forkret\<close>. What the
  linker and the disk hold are arguments.
\<close>

definition zero_tf :: trapframe where
  "zero_tf = \<lparr>tf_edi = 0, tf_esi = 0, tf_ebp = 0, tf_oesp = 0, tf_ebx = 0, tf_edx = 0, tf_ecx = 0,
     tf_eax = 0, tf_gs = 0, tf_fs = 0, tf_es = 0, tf_ds = 0, tf_trapno = 0, tf_err = 0, tf_eip = 0,
     tf_cs = 0, tf_eflags = 0, tf_esp = 0, tf_ss = 0\<rparr>"

definition zero_proc :: proc where
  "zero_proc = \<lparr>sz = 0, pgdir = 0, kstack = 0, state = UNUSED, pid = 0, parent = None, tfp = 0,
     tf = zero_tf, ctxp = 0, kont = AtForkret, chan = ChNull, killed = False,
     ofile = (\<lambda>_. None), cwd = None, pname = replicate 16 0, pending = (\<lambda>_. 0),
     sighandlers = (\<lambda>_. 0), procHandlingSigNow = 0, tfToRestore = 0, sigretAdd = 0,
     alarm_ticks_num = 0\<rparr>"

definition zero_sleeplock :: sleeplock where
  "zero_sleeplock = \<lparr>sl_locked = False, sl_pid = 0\<rparr>"

definition zero_buf :: buf where
  "zero_buf = \<lparr>b_valid = False, b_dirty = False, b_dev = 0, b_blockno = 0, b_lock = zero_sleeplock,
     b_refcnt = 0, b_prev = 0, b_next = 0, b_data = replicate BSIZE 0\<rparr>"

definition zero_inode :: inode where
  "zero_inode = \<lparr>i_dev = 0, i_inum = 0, i_ref = 0, i_lock = zero_sleeplock, i_valid = False,
     i_type = 0, i_major = 0, i_minor = 0, i_nlink = 0, i_size = 0, i_addrs = replicate 13 0\<rparr>"

definition zero_file :: filest where
  "zero_file = \<lparr>f_type = FD_NONE, f_ref = 0, f_readable = False, f_writable = False, f_pipe = 0,
     f_ip = 0, f_off = 0\<rparr>"

definition zero_pipe :: pipest where
  "zero_pipe = \<lparr>p_data = replicate PIPESIZE 0, nread = 0, nwrite = 0, readopen = False,
     writeopen = False\<rparr>"

definition boot_kernel :: "linkinfo \<Rightarrow> (u32 \<Rightarrow> bytes) \<Rightarrow> nat \<Rightarrow> kernel" where
  "boot_kernel l d n = \<lparr>procs = (\<lambda>_. zero_proc), initproc = None, nextpid = 1, cur = None,
     mycpu = \<lparr>ncli = 0, intena = False, ifl = False\<rparr>, heldlk = [], forkret_first = True,
     ticks = 0, lnk = l, mem = (\<lambda>_. 0), freelist = 0, kpgdir = 0, cr3 = 0,
     disk = d, disksize = n, dwrites = [], bufs = (\<lambda>_. zero_buf),
     sb = \<lparr>sb_size = 0, sb_nblocks = 0, sb_ninodes = 0, sb_nlog = 0, sb_logstart = 0,
       sb_inodestart = 0, sb_bmapstart = 0\<rparr>,
     log = \<lparr>l_start = 0, l_size = 0, l_outstanding = 0, l_committing = False, l_dev = 0, l_n = 0,
       l_block = replicate LOGSIZE 0\<rparr>,
     inodes = (\<lambda>_. zero_inode), devsw = (\<lambda>_. None), files = (\<lambda>_. zero_file),
     pipes = (\<lambda>_. zero_pipe),
     input = \<lparr>in_buf = replicate INPUT_BUF 0, in_r = 0, in_w = 0, in_e = 0\<rparr>, cons_out = []\<rparr>"

text \<open>A concrete machine for the examples.\<close>

definition demo_link :: linkinfo where
  "demo_link = \<lparr>lk_end = 0x80115000, lk_data = 0x8010A000, lk_trapret = 0x80105EFB,
     lk_forkret = 0x801046E0, lk_proc = 0x8010D054, lk_file = 0x80110BF4, lk_chan = (\<lambda>_. 0)\<rparr>"

definition demo_kernel :: kernel where
  "demo_kernel = boot_kernel demo_link (\<lambda>_. replicate BSIZE 0) FSSIZE"

lemma demo_kernel_simps [simp]:
  "procs demo_kernel = (\<lambda>_. zero_proc)"
  "initproc demo_kernel = None"
  "nextpid demo_kernel = 1"
  "cur demo_kernel = None"
  "mycpu demo_kernel = \<lparr>ncli = 0, intena = False, ifl = False\<rparr>"
  "heldlk demo_kernel = []"
  "forkret_first demo_kernel = True"
  "ticks demo_kernel = 0"
  "lnk demo_kernel = demo_link"
  "mem demo_kernel = (\<lambda>_. 0)"
  "freelist demo_kernel = 0"
  "kpgdir demo_kernel = 0"
  "cr3 demo_kernel = 0"
  "disk demo_kernel = (\<lambda>_. replicate 512 0)"
  "disksize demo_kernel = 1000"
  "dwrites demo_kernel = []"
  "bufs demo_kernel = (\<lambda>_. zero_buf)"
  "inodes demo_kernel = (\<lambda>_. zero_inode)"
  "devsw demo_kernel = (\<lambda>_. None)"
  "files demo_kernel = (\<lambda>_. zero_file)"
  "pipes demo_kernel = (\<lambda>_. zero_pipe)"
  "cons_out demo_kernel = []"
  by (simp_all add: demo_kernel_def boot_kernel_def)

end
