(* ===== verification/Kalloc.thy ===== *)
theory Kalloc
  imports Kernel_State
begin

text \<open>
  The physical page allocator of \<^verbatim>\<open>kalloc.c\<close>: a stack of free pages whose links are stored in
  the pages themselves. The interface \<open>page_allocator\<close> is what the virtual memory code relies on;
  \<open>kalloc\<close> and \<open>kfree\<close> are shown to provide it. \<^verbatim>\<open>kmem.use_lock\<close> only decides whether the
  critical sections take \<^verbatim>\<open>kmem.lock\<close>, so it is not part of the state.
\<close>

section \<open>Operations\<close>

definition V2P :: "u32 \<Rightarrow> u32" where
  "V2P a = a - KERNBASE"

definition P2V :: "u32 \<Rightarrow> u32" where
  "P2V a = a + KERNBASE"

definition PGROUNDUP :: "u32 \<Rightarrow> u32" where
  "PGROUNDUP n = (n + PGSIZE - 1) AND NOT (PGSIZE - 1)"

definition PGROUNDDOWN :: "u32 \<Rightarrow> u32" where
  "PGROUNDDOWN a = a AND NOT (PGSIZE - 1)"

definition kfree :: "u32 \<Rightarrow> kernel \<Rightarrow> kernel res" where
  "kfree v s =
     (if v mod PGSIZE \<noteq> 0 \<or> v < lk_end (lnk s) \<or> V2P v \<ge> PHYSTOP then Panic ''kfree''
      else let m = memset v 1 PGSIZE (mem s)
           in Ok (s\<lparr>mem := write32 m v (freelist s), freelist := v\<rparr>))"

definition kalloc :: "kernel \<Rightarrow> u32 \<times> kernel" where
  "kalloc s =
     (let r = freelist s in
      if r \<noteq> 0 then (r, s\<lparr>freelist := read32 (mem s) r\<rparr>) else (r, s))"

text \<open>
  A pointer increment past the top of the address space is undefined in C.
\<close>

function freerange_loop :: "u32 \<Rightarrow> u32 \<Rightarrow> kernel \<Rightarrow> kernel res" where
  "freerange_loop p vend s =
     (if p + PGSIZE < p then Fault ''freerange: pointer overflow''
      else if p + PGSIZE \<le> vend then kbind (kfree p s) (freerange_loop (p + PGSIZE) vend)
      else Ok s)"
  by pat_completeness auto
termination
proof (relation "measure (\<lambda>(p, _, _). 4294967296 - unat p)")
  fix p vend :: u32 and s s' :: kernel
  assume "\<not> p + PGSIZE < p"
  then have "unat p < unat (p + PGSIZE)"
    using unat32_less [of p] by (auto simp: word_less_nat_alt unat_word_ariths mod_if split: if_splits)
  with unat32_less [of p]
  show "((p + PGSIZE, vend, s'), (p, vend, s)) \<in> measure (\<lambda>(p, _, _). 4294967296 - unat p)"
    by simp
qed simp

definition freerange :: "u32 \<Rightarrow> u32 \<Rightarrow> kernel \<Rightarrow> kernel res" where
  "freerange vstart vend s = freerange_loop (PGROUNDUP vstart) vend s"

definition kinit1 :: "u32 \<Rightarrow> u32 \<Rightarrow> kernel \<Rightarrow> kernel res" where
  "kinit1 vstart vend s = freerange vstart vend s"

definition kinit2 :: "u32 \<Rightarrow> u32 \<Rightarrow> kernel \<Rightarrow> kernel res" where
  "kinit2 vstart vend s = freerange vstart vend s"

declare freerange_loop.simps [simp del]

section \<open>The free list\<close>

fun run_list :: "memory \<Rightarrow> u32 \<Rightarrow> u32 list \<Rightarrow> bool" where
  "run_list m r [] \<longleftrightarrow> r = 0"
| "run_list m r (p # ps) \<longleftrightarrow> r = p \<and> r \<noteq> 0 \<and> run_list m (read32 m p) ps"

text \<open>The pages that \<open>kfree\<close> accepts.\<close>

definition kpage :: "kernel \<Rightarrow> u32 \<Rightarrow> bool" where
  "kpage s v \<longleftrightarrow> v mod PGSIZE = 0 \<and> lk_end (lnk s) \<le> v \<and> V2P v < PHYSTOP"

definition free_pages :: "kernel \<Rightarrow> u32 list \<Rightarrow> bool" where
  "free_pages s ps \<longleftrightarrow>
     run_list (mem s) (freelist s) ps \<and> distinct ps \<and> (\<forall>p\<in>set ps. kpage s p)"

definition on_page :: "u32 \<Rightarrow> u32 \<Rightarrow> bool" where
  "on_page p x \<longleftrightarrow> unat (x - p) < 4096"

lemma page_aligned_dvd: "(v :: u32) mod 4096 = 0 \<longleftrightarrow> 4096 dvd unat v"
proof -
  have "v mod 4096 = 0 \<longleftrightarrow> unat (v mod 4096) = 0" by (simp add: unat_eq_0)
  also have "\<dots> \<longleftrightarrow> unat v mod 4096 = 0" by (simp add: unat_mod_distrib)
  finally show ?thesis by (simp add: dvd_eq_mod_eq_0)
qed

lemma page_apart:
  "(a :: u32) mod 4096 = 0 \<Longrightarrow> b mod 4096 = 0 \<Longrightarrow> a \<noteq> b \<Longrightarrow> apart a 4096 b 4096"
  by (rule aligned_apart_dvd) (auto simp: page_aligned_dvd)

lemma kpage_nonzero: "kpage s v \<Longrightarrow> v \<noteq> 0"
  by (auto simp: kpage_def V2P_def)

lemma kpage_apart: "kpage s a \<Longrightarrow> kpage s b \<Longrightarrow> a \<noteq> b \<Longrightarrow> apart a 4096 b 4096"
  by (simp add: kpage_def page_apart)

text \<open>A word is read the same when its four bytes are unchanged.\<close>

lemma read32_cong: "(\<And>i. i < 4 \<Longrightarrow> m (a + word_of_nat i) = m' (a + word_of_nat i)) \<Longrightarrow>
    read32 m a = read32 m' a"
  unfolding read32_def load_bytes_def by (intro arg_cong [of _ _ of_le32] map_cong) auto

lemma run_list_cong:
  "\<forall>p\<in>set ps. read32 m p = read32 m' p \<Longrightarrow> run_list m r ps = run_list m' r ps"
  by (induction ps arbitrary: r) auto

lemma on_page_mem:
  assumes "kpage s v" and "kpage s p" and "p \<noteq> v" and "i < 4096"
  shows "\<not> on_page v (p + word_of_nat i)"
  using apart_offset [OF kpage_apart [OF assms(1,2) assms(3) [symmetric]] assms(4)]
  by (simp add: on_page_def)

text \<open>What \<open>kfree\<close> does when it does not panic.\<close>

lemma kfree_ok:
  assumes "kpage s v"
  obtains m where "kfree v s = Ok (s\<lparr>mem := m, freelist := v\<rparr>)"
    and "read32 m v = freelist s" and "\<forall>x. \<not> on_page v x \<longrightarrow> m x = mem s x"
proof
  let ?m = "write32 (memset v 1 PGSIZE (mem s)) v (freelist s)"
  show "kfree v s = Ok (s\<lparr>mem := ?m, freelist := v\<rparr>)"
    using assms by (auto simp: kfree_def kpage_def Let_def)
  show "read32 ?m v = freelist s" by simp
  show "\<forall>x. \<not> on_page v x \<longrightarrow> ?m x = mem s x"
    by (simp add: on_page_def write32_apart memset_eq)
qed

lemma kfree_panic: "\<not> kpage s v \<Longrightarrow> kfree v s = Panic ''kfree''"
  by (auto simp: kfree_def kpage_def not_le not_less)

lemma kfree_OkD: "kfree v s = Ok s' \<Longrightarrow> kpage s v"
  using kfree_panic by fastforce

lemma kfree_free_pages:
  assumes "free_pages s ps" and "kpage s v" and "v \<notin> set ps" and "kfree v s = Ok s'"
  shows "free_pages s' (v # ps)"
proof -
  from assms(2) obtain m where s': "kfree v s = Ok (s\<lparr>mem := m, freelist := v\<rparr>)"
    and v: "read32 m v = freelist s" and frame: "\<forall>x. \<not> on_page v x \<longrightarrow> m x = mem s x"
    by (rule kfree_ok)
  have same: "read32 m p = read32 (mem s) p" if "p \<in> set ps" for p
  proof (rule read32_cong)
    fix i :: nat
    assume "i < 4"
    moreover have "kpage s p" "p \<noteq> v" using that assms by (auto simp: free_pages_def)
    ultimately have "\<not> on_page v (p + word_of_nat i)" using assms(2) by (intro on_page_mem) auto
    then show "m (p + word_of_nat i) = mem s (p + word_of_nat i)" using frame by blast
  qed
  have "run_list m (freelist s) ps = run_list (mem s) (freelist s) ps"
    by (rule run_list_cong) (simp add: same)
  with assms s' v show ?thesis
    using kpage_nonzero [OF assms(2)] by (auto simp: free_pages_def kpage_def)
qed

lemma kalloc_free_pages:
  assumes "free_pages s (p # ps)"
  shows "kalloc s = (p, s\<lparr>freelist := read32 (mem s) p\<rparr>)"
    and "free_pages (s\<lparr>freelist := read32 (mem s) p\<rparr>) ps"
  using assms by (auto simp: free_pages_def kalloc_def kpage_def)

lemma kalloc_empty: "free_pages s [] \<Longrightarrow> kalloc s = (0, s)"
  by (simp add: free_pages_def kalloc_def)

lemma PGROUNDUP_aligned: "PGROUNDUP n mod PGSIZE = 0"
proof -
  have "PGROUNDUP n mod 2 ^ 12 = take_bit 12 (PGROUNDUP n)" by (rule take_bit_eq_mod [symmetric])
  also have "\<dots> = 0"
    by (rule bit_word_eqI) (auto simp: PGROUNDUP_def bit_simps)
  finally show ?thesis by simp
qed

section \<open>The interface of a page allocator\<close>

locale page_allocator =
  fixes alloc :: "'s \<Rightarrow> u32 \<times> 's" and free :: "u32 \<Rightarrow> 's \<Rightarrow> 's res"
    and avail :: "'s \<Rightarrow> u32 list \<Rightarrow> bool" and good :: "'s \<Rightarrow> u32 \<Rightarrow> bool"
  assumes avail_distinct: "avail s ps \<Longrightarrow> distinct ps \<and> 0 \<notin> set ps"
    and avail_good: "avail s ps \<Longrightarrow> p \<in> set ps \<Longrightarrow> good s p"
    and alloc_empty: "avail s [] \<Longrightarrow> alloc s = (0, s)"
    and alloc_cons: "avail s (p # ps) \<Longrightarrow>
      \<exists>s'. alloc s = (p, s') \<and> avail s' ps \<and> good s' = good s"
    and free_good: "avail s ps \<Longrightarrow> good s v \<Longrightarrow> v \<notin> set ps \<Longrightarrow>
      \<exists>s'. free v s = Ok s' \<and> avail s' (v # ps) \<and> good s' = good s"
begin

text \<open>Allocating fails exactly when no page is free.\<close>

lemma alloc_fails_iff: "avail s ps \<Longrightarrow> fst (alloc s) = 0 \<longleftrightarrow> ps = []"
  by (cases ps) (use alloc_empty alloc_cons avail_distinct in fastforce)+

text \<open>A page that is allocated is no longer available, and the others still are.\<close>

lemma alloc_takes:
  assumes "avail s ps" and "alloc s = (p, s')" and "p \<noteq> 0"
  shows "p \<in> set ps \<and> good s p \<and> avail s' (remove1 p ps) \<and> p \<notin> set (remove1 p ps)"
proof (cases ps)
  case Nil
  with assms alloc_empty show ?thesis by fastforce
next
  case (Cons q qs)
  with assms(1) alloc_cons [of s q qs] assms(2) have "q = p" "avail s' qs" by auto
  with Cons avail_distinct [OF assms(1)] avail_good [OF assms(1), of p] show ?thesis by auto
qed

text \<open>A page that was freed is the next one allocated.\<close>

lemma alloc_after_free:
  assumes "avail s ps" and "good s v" and "v \<notin> set ps"
  shows "\<exists>s1 s2. free v s = Ok s1 \<and> alloc s1 = (v, s2) \<and> avail s2 ps"
  using free_good [OF assms] alloc_cons by blast

end

interpretation kmem: page_allocator kalloc kfree free_pages kpage
proof
  fix s ps p v
  show "distinct ps \<and> 0 \<notin> set ps" if "free_pages s ps"
    using that kpage_nonzero by (auto simp: free_pages_def)
  show "kpage s p" if "free_pages s ps" "p \<in> set ps"
    using that by (simp add: free_pages_def)
  show "kalloc s = (0, s)" if "free_pages s []"
    using that by (rule kalloc_empty)
  show "\<exists>s'. kalloc s = (p, s') \<and> free_pages s' ps \<and> kpage s' = kpage s" if "free_pages s (p # ps)"
    using kalloc_free_pages [OF that] by (auto simp: kpage_def fun_eq_iff)
  show "\<exists>s'. kfree v s = Ok s' \<and> free_pages s' (v # ps) \<and> kpage s' = kpage s"
    if "free_pages s ps" "kpage s v" "v \<notin> set ps"
  proof -
    from that(2) obtain m where "kfree v s = Ok (s\<lparr>mem := m, freelist := v\<rparr>)" by (rule kfree_ok)
    with kfree_free_pages [OF that this] show ?thesis by (auto simp: kpage_def fun_eq_iff)
  qed
qed

section \<open>Initialisation\<close>

definition page_run :: "u32 \<Rightarrow> nat \<Rightarrow> u32 list" where
  "page_run p n = map (\<lambda>i. p + word_of_nat (4096 * i)) [0..<n]"

lemma page_run_Suc: "page_run p (Suc n) = p # page_run (p + PGSIZE) n"
  by (simp add: page_run_def upt_conv_Cons map_Suc_upt [symmetric] algebra_simps del: upt_Suc)

lemma freerange_loop_ok:
  assumes "free_pages s ps" and "p mod PGSIZE = 0" and "KERNBASE \<le> p" and "lk_end (lnk s) \<le> p"
    and "unat vend \<le> 0x8E000000" and "unat p + 4096 * n \<le> unat vend"
    and "unat vend < unat p + 4096 * Suc n" and "set ps \<inter> set (page_run p n) = {}"
  shows "\<exists>s'. freerange_loop p vend s = Ok s' \<and> free_pages s' (rev (page_run p n) @ ps)"
  using assms
proof (induction n arbitrary: p s ps)
  case 0
  then have "unat (p + 4096) = unat p + 4096" by (simp add: unat_word_ariths)
  with 0 show ?case
    by (subst freerange_loop.simps) (auto simp: word_less_nat_alt word_le_nat_alt page_run_def)
next
  case (Suc n)
  have up: "unat (p + 4096) = unat p + 4096" using Suc.prems by (simp add: unat_word_ariths)
  have al: "(p + 4096) mod 4096 = 0" using Suc.prems(2) up by (simp add: page_aligned_dvd)
  have "unat (V2P p) = unat p - 0x80000000"
    using Suc.prems(3) by (simp add: V2P_def unat_sub word_le_nat_alt)
  then have kp: "kpage s p"
    using Suc.prems up by (auto simp: kpage_def word_less_nat_alt word_le_nat_alt)
  with Suc.prems kmem.free_good [of s ps p] obtain s' where s': "kfree p s = Ok s'"
    "free_pages s' (p # ps)" by (auto simp: page_run_Suc)
  have l: "lnk s' = lnk s" using s'(1) by (auto simp: kfree_def Let_def split: if_splits)
  have notin: "p \<notin> set (page_run (p + 4096) n)"
  proof
    assume "p \<in> set (page_run (p + 4096) n)"
    then obtain i where i: "i < n" "p = p + 4096 + word_of_nat (4096 * i)" by (auto simp: page_run_def)
    then have "unat (p + 4096 + word_of_nat (4096 * i)) = unat (p + 4096) + 4096 * i"
      using Suc.prems(5,6) up by (intro unat_add_nat) simp
    moreover have "unat p = unat (p + 4096 + word_of_nat (4096 * i))" using i(2) by (rule arg_cong)
    ultimately show False using up by linarith
  qed
  have "\<exists>s''. freerange_loop (p + 4096) vend s' = Ok s'' \<and>
      free_pages s'' (rev (page_run (p + 4096) n) @ p # ps)"
    by (rule Suc.IH [OF s'(2) al])
      (use Suc.prems up l notin in \<open>auto simp: word_le_nat_alt page_run_Suc\<close>)
  with s'(1) up Suc.prems(5,6) show ?case
    by (subst freerange_loop.simps) (auto simp: word_less_nat_alt word_le_nat_alt page_run_Suc)
qed

section \<open>Properties\<close>

text \<open>C20: The page allocator is a stack of distinct pages: freeing a page that is not free succeeds, changes no byte outside that page, and the next allocation returns that very page and leaves the free pages as they were.\<close>

theorem kfree_then_kalloc:
  assumes "free_pages s ps" and "kpage s v" and "v \<notin> set ps"
  shows "\<exists>s1 s2. kfree v s = Ok s1 \<and> kalloc s1 = (v, s2) \<and> free_pages s2 ps \<and>
    (\<forall>x. \<not> on_page v x \<longrightarrow> mem s2 x = mem s x)"
proof -
  from assms(2) obtain m where m: "kfree v s = Ok (s\<lparr>mem := m, freelist := v\<rparr>)"
    and frame: "\<forall>x. \<not> on_page v x \<longrightarrow> m x = mem s x" by (rule kfree_ok)
  from kmem.alloc_after_free [OF assms] obtain s1 s2
    where s: "kfree v s = Ok s1" "kalloc s1 = (v, s2)" "free_pages s2 ps" by blast
  then have "mem s2 = m" using m by (auto simp: kalloc_def Let_def split: if_splits)
  with s frame show ?thesis by auto
qed

theorem kfree_then_kalloc_witness:
  "\<exists>s1 s2. kfree 0x80200000 demo_kernel = Ok s1 \<and> kalloc s1 = (0x80200000, s2) \<and>
    free_pages s2 [] \<and> (\<forall>x. \<not> on_page 0x80200000 x \<longrightarrow> mem s2 x = mem demo_kernel x)"
  by (rule kfree_then_kalloc)
    (simp_all add: free_pages_def kpage_def V2P_def demo_link_def)

text \<open>C21: \<open>freerange\<close> puts exactly the whole pages between its rounded-up start and its end on the free list, in front of the pages already there, without a panic.\<close>

theorem freerange_frees:
  assumes "free_pages s ps" and "KERNBASE \<le> lk_end (lnk s)"
    and "lk_end (lnk s) \<le> PGROUNDUP vstart" and "unat vend \<le> 0x8E000000"
    and "unat (PGROUNDUP vstart) \<le> unat vend"
    and "n = (unat vend - unat (PGROUNDUP vstart)) div 4096"
    and "set ps \<inter> set (page_run (PGROUNDUP vstart) n) = {}"
  shows "\<exists>s'. freerange vstart vend s = Ok s' \<and>
    free_pages s' (rev (page_run (PGROUNDUP vstart) n) @ ps)"
proof -
  let ?p = "PGROUNDUP vstart"
  have al: "?p mod PGSIZE = 0" by (rule PGROUNDUP_aligned)
  have "unat ?p + 4096 * n \<le> unat vend" "unat vend < unat ?p + 4096 * Suc n"
    using assms(5,6) by auto
  with assms al show ?thesis unfolding freerange_def
    by (intro freerange_loop_ok) auto
qed

theorem freerange_frees_witness:
  "\<exists>s'. freerange 0x80115001 0x80118400 demo_kernel = Ok s' \<and>
    free_pages s' (rev (page_run (PGROUNDUP 0x80115001) 2) @ [])"
  by (rule freerange_frees)
    (simp_all add: free_pages_def PGROUNDUP_def demo_link_def)

end
