(* ===== verification/Cprintf.thy ===== *)
theory Cprintf
  imports Kernel_State
begin

text \<open>
  Formatted output: \<open>printint\<close> and \<open>cprintf\<close> of \<^verbatim>\<open>console.c\<close>, and \<open>printint\<close> and \<open>printf\<close> of the
  user library (\<^verbatim>\<open>printf.c\<close>). The characters given to \<open>consputc\<close> are collected in \<open>cons_out\<close>. The
  arguments that C reads through a pointer to the stack are a list; reading past its end, or a
  number where a string is expected, is a fault.
\<close>

section \<open>Integers\<close>

datatype radix = Dec | Hex

fun radix_val :: "radix \<Rightarrow> u32" where
  "radix_val Dec = 10"
| "radix_val Hex = 16"

definition chr8 :: "char \<Rightarrow> u8" where
  "chr8 c = word_of_nat (of_char c)"

definition digits_lower :: bytes where
  "digits_lower = map chr8 ''0123456789abcdef''"

definition digits_upper :: bytes where
  "digits_upper = map chr8 ''0123456789ABCDEF''"

lemma radix_div_less:
  assumes "x div radix_val r \<noteq> 0"
  shows "unat (x div radix_val r) < unat x"
proof -
  have "unat (radix_val r) \<ge> 10" by (cases r) auto
  moreover have "unat x \<noteq> 0" using assms by (auto simp: unat_eq_0)
  ultimately show ?thesis by (simp add: unat_div_distrib)
qed

text \<open>The \<^verbatim>\<open>do ... while\<close> loop: the digits, least significant first.\<close>

function digit_loop :: "bytes \<Rightarrow> radix \<Rightarrow> u32 \<Rightarrow> bytes" where
  "digit_loop ds r x =
     ds ! unat (x mod radix_val r) #
     (if x div radix_val r \<noteq> 0 then digit_loop ds r (x div radix_val r) else [])"
  by pat_completeness auto
termination
  by (relation "measure (\<lambda>(_, _, x). unat x)") (auto simp: radix_div_less)

declare digit_loop.simps [simp del]

text \<open>The buffer \<^verbatim>\<open>buf\<close> when the output loop starts, which prints it from its end.\<close>

definition printint_buf :: "bytes \<Rightarrow> u32 \<Rightarrow> radix \<Rightarrow> bool \<Rightarrow> bytes" where
  "printint_buf ds xx base sign =
     (let neg = (sign \<and> sint xx < 0); x = (if neg then - xx else xx)
      in digit_loop ds base x @ (if neg then [chr8 (CHR ''-'')] else []))"

definition printint :: "bytes \<Rightarrow> u32 \<Rightarrow> radix \<Rightarrow> bool \<Rightarrow> bytes" where
  "printint ds xx base sign = rev (printint_buf ds xx base sign)"

section \<open>Formats\<close>

datatype parg = PInt u32 | PStr "bytes option"

fun arg_str :: "bytes option \<Rightarrow> bytes" where
  "arg_str None = map chr8 ''(null)''"
| "arg_str (Some b) = b"

definition emit :: "bytes \<Rightarrow> bytes res \<Rightarrow> bytes res" where
  "emit b k = kbind k (\<lambda>bs. Ok (b @ bs))"

definition with_int :: "parg list \<Rightarrow> (u32 \<Rightarrow> parg list \<Rightarrow> 'a res) \<Rightarrow> 'a res" where
  "with_int args k = (case args of PInt x # rest \<Rightarrow> k x rest | _ \<Rightarrow> Fault ''format argument'')"

definition with_str :: "parg list \<Rightarrow> (bytes \<Rightarrow> parg list \<Rightarrow> 'a res) \<Rightarrow> 'a res" where
  "with_str args k =
     (case args of PStr b # rest \<Rightarrow> k (arg_str b) rest | _ \<Rightarrow> Fault ''format argument'')"

lemma with_int_cong [fundef_cong]:
  "args = args' \<Longrightarrow> (\<And>x rest. args' = PInt x # rest \<Longrightarrow> k x rest = k' x rest) \<Longrightarrow>
    with_int args k = with_int args' k'"
  by (auto simp: with_int_def split: list.splits parg.splits)

lemma with_str_cong [fundef_cong]:
  "args = args' \<Longrightarrow> (\<And>b rest. args' = PStr b # rest \<Longrightarrow> k (arg_str b) rest = k' (arg_str b) rest) \<Longrightarrow>
    with_str args k = with_str args' k'"
  by (auto simp: with_str_def split: list.splits parg.splits)

fun cprintf_out :: "string \<Rightarrow> parg list \<Rightarrow> bytes res" where
  "cprintf_out [] args = Ok []"
| "cprintf_out [c] args = (if c \<noteq> CHR ''%'' then Ok [chr8 c] else Ok [])"
| "cprintf_out (c # d # cs) args =
     (if c \<noteq> CHR ''%'' then emit [chr8 c] (cprintf_out (d # cs) args)
      else if d = CHR ''d'' then
        with_int args (\<lambda>x rest. emit (printint digits_lower x Dec True) (cprintf_out cs rest))
      else if d = CHR ''x'' \<or> d = CHR ''p'' then
        with_int args (\<lambda>x rest. emit (printint digits_lower x Hex False) (cprintf_out cs rest))
      else if d = CHR ''s'' then
        with_str args (\<lambda>b rest. emit b (cprintf_out cs rest))
      else if d = CHR ''%'' then emit [chr8 (CHR ''%'')] (cprintf_out cs args)
      else emit [chr8 (CHR ''%''), chr8 d] (cprintf_out cs args))"

definition consputc :: "u32 \<Rightarrow> kernel \<Rightarrow> kernel" where
  "consputc c s = s\<lparr>cons_out := cons_out s @ [c]\<rparr>"

fun consputs :: "bytes \<Rightarrow> kernel \<Rightarrow> kernel" where
  "consputs [] s = s"
| "consputs (b # bs) s = consputs bs (consputc (ucast b) s)"

definition cprintf :: "string \<Rightarrow> parg list \<Rightarrow> kernel \<Rightarrow> kernel res" where
  "cprintf fmt args s = kbind (cprintf_out fmt args) (\<lambda>bs. Ok (consputs bs s))"

text \<open>\<open>printf\<close> of the user library as the state machine it is: the characters written to \<^verbatim>\<open>fd\<close>.\<close>

fun printf_loop :: "bool \<Rightarrow> string \<Rightarrow> parg list \<Rightarrow> bytes res" where
  "printf_loop st [] ap = Ok []"
| "printf_loop False (c # cs) ap =
     (if c = CHR ''%'' then printf_loop True cs ap else emit [chr8 c] (printf_loop False cs ap))"
| "printf_loop True (c # cs) ap =
     (if c = CHR ''d'' then
        with_int ap (\<lambda>x rest. emit (printint digits_upper x Dec True) (printf_loop False cs rest))
      else if c = CHR ''x'' \<or> c = CHR ''p'' then
        with_int ap (\<lambda>x rest. emit (printint digits_upper x Hex False) (printf_loop False cs rest))
      else if c = CHR ''s'' then
        with_str ap (\<lambda>b rest. emit b (printf_loop False cs rest))
      else if c = CHR ''c'' then
        with_int ap (\<lambda>x rest. emit [ucast x] (printf_loop False cs rest))
      else if c = CHR ''%'' then emit [chr8 c] (printf_loop False cs ap)
      else emit [chr8 (CHR ''%''), chr8 c] (printf_loop False cs ap))"

definition printf :: "string \<Rightarrow> parg list \<Rightarrow> bytes res" where
  "printf fmt ap = printf_loop False fmt ap"

section \<open>Digits\<close>

lemma cons_out_consputs: "consputs bs s = s\<lparr>cons_out := cons_out s @ map ucast bs\<rparr>"
  by (induction bs arbitrary: s) (auto simp: consputc_def)

lemma consputs_frame [frame_simps, simp]:
  "procs (consputs bs s) = procs s" "cur (consputs bs s) = cur s" "mem (consputs bs s) = mem s"
  "cr3 (consputs bs s) = cr3 s" "freelist (consputs bs s) = freelist s"
  "lnk (consputs bs s) = lnk s" "nextpid (consputs bs s) = nextpid s"
  by (simp_all add: cons_out_consputs)

lemma cprintf_OkD: "cprintf fmt args s = Ok s' \<Longrightarrow> \<exists>bs. s' = consputs bs s"
  by (auto simp: cprintf_def)

text \<open>The value of a list of digits, least significant first.\<close>

fun digit_value :: "(u8 \<Rightarrow> nat) \<Rightarrow> nat \<Rightarrow> bytes \<Rightarrow> nat" where
  "digit_value v b [] = 0"
| "digit_value v b (d # ds) = v d + b * digit_value v b ds"

lemma digit_loop_value:
  assumes "\<And>i. i < unat (radix_val r) \<Longrightarrow> v (ds ! i) = i"
  shows "digit_value v (unat (radix_val r)) (digit_loop ds r x) = unat x"
  using assms
proof (induction ds r x rule: digit_loop.induct)
  case (1 ds r x)
  let ?b = "unat (radix_val r)"
  have "unat (x mod radix_val r) < ?b"
    by (cases r) (simp_all add: unat_mod_distrib)
  with 1 have d: "v (ds ! unat (x mod radix_val r)) = unat x mod ?b"
    by (simp add: unat_mod_distrib)
  have "digit_value v ?b (if x div radix_val r \<noteq> 0 then digit_loop ds r (x div radix_val r) else []) =
      unat x div ?b"
    using 1 by (cases "x div radix_val r = 0") (simp_all add: unat_div_distrib [symmetric])
  with d show ?case by (subst digit_loop.simps) simp
qed

lemma digit_loop_length:
  "unat x < unat (radix_val r) ^ Suc k \<Longrightarrow> length (digit_loop ds r x) \<le> Suc k"
proof (induction k arbitrary: x)
  case 0
  then have "unat (x div radix_val r) = 0" by (simp add: unat_div_distrib)
  then show ?case by (subst digit_loop.simps) (simp add: unat_eq_0)
next
  case (Suc k)
  have "0 < unat (radix_val r)" by (cases r) auto
  with Suc.prems have "unat (x div radix_val r) < unat (radix_val r) ^ Suc k"
    by (simp add: unat_div_distrib div_less_iff_less_mult mult.commute)
  from Suc.IH [OF this] show ?case by (subst digit_loop.simps) simp
qed

text \<open>C25: \<open>printint\<close> never overruns its 16-byte buffer: for every number, radix and sign it stores at most 11 characters (10 digits and a minus sign).\<close>

theorem printint_buf_bound: "length (printint_buf ds xx base sign) \<le> 11"
proof -
  have "length (digit_loop ds base x) \<le> 10" for x
  proof (cases base)
    case Dec
    with digit_loop_length [of x Dec 9 ds] unat32_less [of x] show ?thesis by simp
  next
    case Hex
    with digit_loop_length [of x Hex 7 ds] unat32_less [of x] show ?thesis by simp
  qed
  from this [of "- xx"] this [of xx] show ?thesis by (simp add: printint_buf_def Let_def)
qed

end
