(* ===== verification/Vm.thy ===== *)
theory Vm
  imports Kalloc Cprintf
begin

text \<open>
  The two-level page tables of \<^verbatim>\<open>vm.c\<close>, stored in kernel memory, and the accesses that the
  kernel makes through the page table that the processor uses. The well-formed page tables refine a
  function from pages to page table entries: \<open>pte_of\<close> is that function, \<open>pt_wf\<close> says which pages
  of memory represent it, and the properties say what each operation does to it. The segment
  descriptors and the task state segment, which only the processor reads, are left out.
\<close>

section \<open>Page table entries\<close>

definition PDX :: "u32 \<Rightarrow> u32" where
  "PDX va = drop_bit 22 va AND 0x3FF"

definition PTX :: "u32 \<Rightarrow> u32" where
  "PTX va = drop_bit 12 va AND 0x3FF"

definition PTE_ADDR :: "u32 \<Rightarrow> u32" where
  "PTE_ADDR pte = pte AND NOT 0xFFF"

definition PTE_FLAGS :: "u32 \<Rightarrow> u32" where
  "PTE_FLAGS pte = pte AND 0xFFF"

definition present :: "u32 \<Rightarrow> bool" where
  "present pte \<longleftrightarrow> pte AND PTE_P \<noteq> 0"

section \<open>Operations\<close>

definition walkpgdir :: "u32 \<Rightarrow> u32 \<Rightarrow> bool \<Rightarrow> kernel \<Rightarrow> u32 \<times> kernel" where
  "walkpgdir pgd va alloc s =
     (let pde = pgd + 4 * PDX va in
      if present (read32 (mem s) pde)
      then (P2V (PTE_ADDR (read32 (mem s) pde)) + 4 * PTX va, s)
      else if \<not> alloc then (0, s)
      else let (pgtab, s) = kalloc s in
        if pgtab = 0 then (0, s)
        else let m = memset pgtab 0 PGSIZE (mem s);
                 m = write32 m pde (V2P pgtab OR PTE_P OR PTE_W OR PTE_U)
             in (pgtab + 4 * PTX va, s\<lparr>mem := m\<rparr>))"

text \<open>
  The loop runs from page \<open>a\<close> to page \<open>lst\<close>; both are page aligned, so as many rounds as there
  are pages from \<open>a\<close> to \<open>lst\<close> are enough.
\<close>

fun mappages_loop ::
  "nat \<Rightarrow> u32 \<Rightarrow> u32 \<Rightarrow> u32 \<Rightarrow> u32 \<Rightarrow> u32 \<Rightarrow> kernel \<Rightarrow> (int \<times> kernel) res" where
  "mappages_loop 0 pgd a lst pa perm s = Fault ''mappages: no fuel''"
| "mappages_loop (Suc k) pgd a lst pa perm s =
     (let (pte, s) = walkpgdir pgd a True s in
      if pte = 0 then Ok (-1, s)
      else if present (read32 (mem s) pte) then Panic ''remap''
      else let s = s\<lparr>mem := write32 (mem s) pte (pa OR perm OR PTE_P)\<rparr> in
        if a = lst then Ok (0, s)
        else mappages_loop k pgd (a + PGSIZE) lst (pa + PGSIZE) perm s)"

definition mappages ::
  "u32 \<Rightarrow> u32 \<Rightarrow> u32 \<Rightarrow> u32 \<Rightarrow> u32 \<Rightarrow> kernel \<Rightarrow> (int \<times> kernel) res" where
  "mappages pgd va sze pa perm s =
     (let a = PGROUNDDOWN va; lst = PGROUNDDOWN (va + sze - 1)
      in mappages_loop (Suc (unat ((lst - a) div PGSIZE))) pgd a lst pa perm s)"

text \<open>The table \<^verbatim>\<open>kmap\<close>: virtual address, physical start and end, permission.\<close>

definition kmap :: "linkinfo \<Rightarrow> (u32 \<times> u32 \<times> u32 \<times> u32) list" where
  "kmap l =
     [(KERNBASE, 0, EXTMEM, PTE_W),
      (KERNBASE + EXTMEM, EXTMEM, V2P (lk_data l), 0),
      (lk_data l, V2P (lk_data l), PHYSTOP, PTE_W),
      (DEVSPACE, DEVSPACE, 0, PTE_W)]"

fun setupkvm_loop ::
  "u32 \<Rightarrow> (u32 \<times> u32 \<times> u32 \<times> u32) list \<Rightarrow> kernel \<Rightarrow> (u32 \<times> kernel) res" where
  "setupkvm_loop pgd [] s = Ok (pgd, s)"
| "setupkvm_loop pgd ((virt, pstart, pend, perm) # ks) s =
     kbind (mappages pgd virt (pend - pstart) pstart perm s)
       (\<lambda>(r, s). if r < 0 then Ok (0, s) else setupkvm_loop pgd ks s)"

definition setupkvm :: "kernel \<Rightarrow> (u32 \<times> kernel) res" where
  "setupkvm s =
     (let (pgd, s) = kalloc s in
      if pgd = 0 then Ok (0, s)
      else let s = s\<lparr>mem := memset pgd 0 PGSIZE (mem s)\<rparr> in
        if P2V PHYSTOP > DEVSPACE then Panic ''PHYSTOP too high''
        else setupkvm_loop pgd (kmap (lnk s)) s)"

definition switchkvm :: "kernel \<Rightarrow> kernel" where
  "switchkvm s = s\<lparr>cr3 := V2P (kpgdir s)\<rparr>"

definition kvmalloc :: "kernel \<Rightarrow> kernel res" where
  "kvmalloc s = kbind (setupkvm s) (\<lambda>(p, s). Ok (switchkvm (s\<lparr>kpgdir := p\<rparr>)))"

definition switchuvm :: "nat \<Rightarrow> kernel \<Rightarrow> kernel res" where
  "switchuvm p s =
     (let s = s\<lparr>mycpu := pushcli (mycpu s)\<rparr> in
      with_proc s (\<lambda>_.
        if pgdir (procs s p) = 0 then Panic ''switchuvm: no pgd''
        else let s = s\<lparr>cr3 := V2P (pgdir (procs s p))\<rparr> in
          kbind (popcli (mycpu s)) (\<lambda>c. Ok (s\<lparr>mycpu := c\<rparr>))))"

definition inituvm :: "u32 \<Rightarrow> bytes \<Rightarrow> kernel \<Rightarrow> kernel res" where
  "inituvm pgd init s =
     (if 4096 \<le> length init then Panic ''inituvm: more than a page''
      else let (pg, s) = kalloc s in
        if pg = 0 then Fault ''inituvm: null page''
        else let s = s\<lparr>mem := memset pg 0 PGSIZE (mem s)\<rparr> in
          kbind (mappages pgd 0 PGSIZE (V2P pg) (PTE_W OR PTE_U) s)
            (\<lambda>(_, s). Ok (s\<lparr>mem := store_bytes (mem s) pg init\<rparr>)))"

text \<open>
  \<open>deallocuvm\<close> skips 4 MB when a page table is missing. Every round moves up by at least a page, so
  \<open>oldsz / PGSIZE + 2\<close> rounds are enough as long as the address does not wrap around, which holds
  for all sizes up to \<^verbatim>\<open>KERNBASE\<close>.
\<close>

fun deallocuvm_loop :: "nat \<Rightarrow> u32 \<Rightarrow> u32 \<Rightarrow> u32 \<Rightarrow> kernel \<Rightarrow> kernel res" where
  "deallocuvm_loop 0 pgd a oldsz s = Fault ''deallocuvm: no fuel''"
| "deallocuvm_loop (Suc k) pgd a oldsz s =
     (if a < oldsz then
        let (pte, s) = walkpgdir pgd a False s in
        if pte = 0 then deallocuvm_loop k pgd (a + 1023 * PGSIZE + PGSIZE) oldsz s
        else if present (read32 (mem s) pte) then
          let pa = PTE_ADDR (read32 (mem s) pte) in
          if pa = 0 then Panic ''kfree''
          else kbind (kfree (P2V pa) s)
            (\<lambda>s. deallocuvm_loop k pgd (a + PGSIZE) oldsz (s\<lparr>mem := write32 (mem s) pte 0\<rparr>))
        else deallocuvm_loop k pgd (a + PGSIZE) oldsz s
      else Ok s)"

definition deallocuvm :: "u32 \<Rightarrow> u32 \<Rightarrow> u32 \<Rightarrow> kernel \<Rightarrow> (u32 \<times> kernel) res" where
  "deallocuvm pgd oldsz newsz s =
     (if newsz \<ge> oldsz then Ok (oldsz, s)
      else kbind (deallocuvm_loop (unat oldsz div 4096 + 2) pgd (PGROUNDUP newsz) oldsz s)
        (\<lambda>s. Ok (newsz, s)))"

text \<open>\<^verbatim>\<open>cprintf\<close> of a text without conversions.\<close>

definition cprint :: "string \<Rightarrow> kernel \<Rightarrow> kernel" where
  "cprint msg s = consputs (map chr8 msg) s"

text \<open>\<open>newsz < KERNBASE\<close>, so \<open>a\<close> does not wrap around and one round per page is enough.\<close>

fun allocuvm_loop ::
  "nat \<Rightarrow> u32 \<Rightarrow> u32 \<Rightarrow> u32 \<Rightarrow> u32 \<Rightarrow> kernel \<Rightarrow> (u32 \<times> kernel) res" where
  "allocuvm_loop 0 pgd oldsz newsz a s = Fault ''allocuvm: no fuel''"
| "allocuvm_loop (Suc k) pgd oldsz newsz a s =
     (if a < newsz then
        let (pg, s) = kalloc s in
        if pg = 0 then
          kbind (deallocuvm pgd newsz oldsz (cprint ''allocuvm out of memory\<newline>'' s))
            (\<lambda>(_, s). Ok (0, s))
        else let s = s\<lparr>mem := memset pg 0 PGSIZE (mem s)\<rparr> in
          kbind (mappages pgd a PGSIZE (V2P pg) (PTE_W OR PTE_U) s)
            (\<lambda>(r, s). if r < 0 then
               kbind (deallocuvm pgd newsz oldsz (cprint ''allocuvm out of memory (2)\<newline>'' s))
                 (\<lambda>(_, s). kbind (kfree pg s) (\<lambda>s. Ok (0, s)))
             else allocuvm_loop k pgd oldsz newsz (a + PGSIZE) s)
      else Ok (newsz, s))"

definition allocuvm :: "u32 \<Rightarrow> u32 \<Rightarrow> u32 \<Rightarrow> kernel \<Rightarrow> (u32 \<times> kernel) res" where
  "allocuvm pgd oldsz newsz s =
     (if newsz \<ge> KERNBASE then Ok (0, s)
      else if newsz < oldsz then Ok (oldsz, s)
      else allocuvm_loop (unat newsz div 4096 + 2) pgd oldsz newsz (PGROUNDUP oldsz) s)"

definition freevm :: "u32 \<Rightarrow> kernel \<Rightarrow> kernel res" where
  "freevm pgd s =
     (if pgd = 0 then Panic ''freevm: no pgd''
      else kbind (deallocuvm pgd KERNBASE 0 s) (\<lambda>(_, s).
        kbind (for_each (\<lambda>i s.
            let pde = read32 (mem s) (pgd + 4 * word_of_nat i) in
            if present pde then kfree (P2V (PTE_ADDR pde)) s else Ok s) [0..<1024] s)
          (kfree pgd)))"

definition clearpteu :: "u32 \<Rightarrow> u32 \<Rightarrow> kernel \<Rightarrow> kernel res" where
  "clearpteu pgd uva s =
     (let (pte, s) = walkpgdir pgd uva False s in
      if pte = 0 then Panic ''clearpteu''
      else Ok (s\<lparr>mem := write32 (mem s) pte (read32 (mem s) pte AND NOT PTE_U)\<rparr>))"

text \<open>
  \<open>Some\<close> when the loop of \<open>copyuvm\<close> ends, \<open>None\<close> when it jumps to \<^verbatim>\<open>bad\<close>. The page that was
  allocated before a failing \<open>mappages\<close> is not freed by the source.
\<close>

fun copyuvm_loop ::
  "nat \<Rightarrow> u32 \<Rightarrow> u32 \<Rightarrow> u32 \<Rightarrow> u32 \<Rightarrow> kernel \<Rightarrow> (bool \<times> kernel) res" where
  "copyuvm_loop 0 pgd d i sze s = Fault ''copyuvm: no fuel''"
| "copyuvm_loop (Suc k) pgd d i sze s =
     (if i < sze then
        let (pte, s) = walkpgdir pgd i False s in
        if pte = 0 then Panic ''copyuvm: pte should exist''
        else let e = read32 (mem s) pte in
          if \<not> present e then Panic ''copyuvm: page not present''
          else let (pg, s) = kalloc s in
            if pg = 0 then Ok (False, s)
            else let s = s\<lparr>mem := memmove pg (P2V (PTE_ADDR e)) PGSIZE (mem s)\<rparr> in
              kbind (mappages d i PGSIZE (V2P pg) (PTE_FLAGS e) s)
                (\<lambda>(r, s). if r < 0 then Ok (False, s)
                  else copyuvm_loop k pgd d (i + PGSIZE) sze s)
      else Ok (True, s))"

definition copyuvm :: "u32 \<Rightarrow> u32 \<Rightarrow> kernel \<Rightarrow> (u32 \<times> kernel) res" where
  "copyuvm pgd sze s =
     kbind (setupkvm s) (\<lambda>(d, s).
       if d = 0 then Ok (0, s)
       else kbind (copyuvm_loop (unat sze div 4096 + 2) pgd d 0 sze s) (\<lambda>(ok, s).
         if ok then Ok (d, s) else kbind (freevm d s) (\<lambda>s. Ok (0, s))))"

text \<open>\<open>uva2ka\<close> does not check the result of \<open>walkpgdir\<close>.\<close>

definition uva2ka :: "u32 \<Rightarrow> u32 \<Rightarrow> kernel \<Rightarrow> u32 res" where
  "uva2ka pgd uva s =
     (let (pte, s) = walkpgdir pgd uva False s in
      if pte = 0 then Fault ''uva2ka: null pte''
      else let e = read32 (mem s) pte in
        if \<not> present e then Ok 0
        else if e AND PTE_U = 0 then Ok 0
        else Ok (P2V (PTE_ADDR e)))"

lemma low12: "(4095 :: u32) = mask 12"
  by (simp add: mask_eq_exp_minus_1)

lemma PGROUNDDOWN_push: "PGROUNDDOWN va = push_bit 12 (drop_bit 12 va)"
  by (rule bit_word_eqI) (auto simp: PGROUNDDOWN_def low12 bit_simps)

lemma PGROUNDDOWN_diff: "va - PGROUNDDOWN va = take_bit 12 va"
proof -
  have "push_bit 12 (drop_bit 12 va) + take_bit 12 va = va" by (rule bits_ident)
  then show ?thesis unfolding PGROUNDDOWN_push by (metis add_diff_cancel_left')
qed

lemma PGROUNDDOWN_offset: "unat (va - PGROUNDDOWN va) < 4096"
  by (simp add: PGROUNDDOWN_diff take_bit_eq_mod unat_mod_distrib)

function copyout :: "u32 \<Rightarrow> u32 \<Rightarrow> bytes \<Rightarrow> kernel \<Rightarrow> (int \<times> kernel) res" where
  "copyout pgd va p s =
     (if p = [] then Ok (0, s)
      else let va0 = PGROUNDDOWN va in
        kbind (uva2ka pgd va0 s) (\<lambda>pa0.
          if pa0 = 0 then Ok (-1, s)
          else let n = min (4096 - unat (va - va0)) (length p) in
            copyout pgd (va0 + PGSIZE) (drop n p)
              (s\<lparr>mem := store_bytes (mem s) (pa0 + (va - va0)) (take n p)\<rparr>)))"
  by pat_completeness auto
termination
  by (relation "measure (\<lambda>(_, _, p, _). length p)") (auto simp: PGROUNDDOWN_offset)

declare copyout.simps [simp del]

section \<open>Page tables as functions\<close>

definition pde_of :: "kernel \<Rightarrow> u32 \<Rightarrow> u32 \<Rightarrow> u32" where
  "pde_of s pgd va = read32 (mem s) (pgd + 4 * PDX va)"

definition pgtab_of :: "kernel \<Rightarrow> u32 \<Rightarrow> u32 \<Rightarrow> u32" where
  "pgtab_of s pgd va = P2V (PTE_ADDR (pde_of s pgd va))"

text \<open>The entry for the page of \<open>va\<close>; 0 when there is no page table for it.\<close>

definition pte_of :: "kernel \<Rightarrow> u32 \<Rightarrow> u32 \<Rightarrow> u32" where
  "pte_of s pgd va =
     (if present (pde_of s pgd va) then read32 (mem s) (pgtab_of s pgd va + 4 * PTX va) else 0)"

text \<open>
  The page directory and its page tables are different pages, none of them free.
\<close>

definition pt_wf :: "kernel \<Rightarrow> u32 \<Rightarrow> u32 list \<Rightarrow> bool" where
  "pt_wf s pgd fs \<longleftrightarrow> free_pages s fs \<and> kpage s pgd \<and> pgd \<notin> set fs \<and>
     (\<forall>va. present (pde_of s pgd va) \<longrightarrow> kpage s (pgtab_of s pgd va) \<and>
        pgtab_of s pgd va \<noteq> pgd \<and> pgtab_of s pgd va \<notin> set fs) \<and>
     (\<forall>va va'. present (pde_of s pgd va) \<longrightarrow> present (pde_of s pgd va') \<longrightarrow>
        pgtab_of s pgd va = pgtab_of s pgd va' \<longrightarrow> PDX va = PDX va')"

lemma unat_and_low10: "unat ((x :: u32) AND 0x3FF) < 1024"
proof -
  have "(x AND 0x3FF) = take_bit 10 x"
    by (simp add: take_bit_eq_mask mask_eq_exp_minus_1)
  then show ?thesis by (simp add: take_bit_eq_mod unat_mod_distrib)
qed

lemma unat_PDX [simp]: "unat (PDX va) < 1024"
  by (simp add: PDX_def unat_and_low10)

lemma unat_PTX [simp]: "unat (PTX va) < 1024"
  by (simp add: PTX_def unat_and_low10)

lemma same_page_iff: "PDX va = PDX va' \<and> PTX va = PTX va' \<longleftrightarrow> PGROUNDDOWN va = PGROUNDDOWN va'"
proof -
  have low10: "(0x3FF :: u32) = mask 10" by (simp add: mask_eq_exp_minus_1)
  have "bit va n = bit va' n"
    if "n < 32" "12 \<le> n" "PDX va = PDX va'" "PTX va = PTX va'" for n
  proof (cases "n < 22")
    case True
    have "bit (PTX va) (n - 12) = bit (PTX va') (n - 12)" using that by simp
    with that(1,2) True show ?thesis by (simp add: PTX_def low10 bit_simps less_diff_conv2)
  next
    case False
    have "bit (PDX va) (n - 22) = bit (PDX va') (n - 22)" using that by simp
    with that(1,2) False show ?thesis by (simp add: PDX_def low10 bit_simps less_diff_conv2)
  qed
  moreover have "bit va n = bit va' n"
    if "n < 32" "12 \<le> n" "PGROUNDDOWN va = PGROUNDDOWN va'" for n
  proof -
    have "bit (PGROUNDDOWN va) n = bit (PGROUNDDOWN va') n" using that by simp
    with that(1,2) show ?thesis by (simp add: PGROUNDDOWN_def low12 bit_simps)
  qed
  ultimately have "PDX va = PDX va' \<and> PTX va = PTX va' \<longleftrightarrow> (\<forall>n<32. 12 \<le> n \<longrightarrow> bit va n = bit va' n)"
    "PGROUNDDOWN va = PGROUNDDOWN va' \<longleftrightarrow> (\<forall>n<32. 12 \<le> n \<longrightarrow> bit va n = bit va' n)"
    by (auto intro!: bit_word_eqI simp: PDX_def PTX_def PGROUNDDOWN_def low10 low12 bit_simps)
  then show ?thesis by simp
qed

text \<open>Page alignment.\<close>

definition pga :: "u32 \<Rightarrow> bool" where
  "pga p \<longleftrightarrow> p mod 4096 = 0"

lemma pga_dvd: "pga p \<longleftrightarrow> 4096 dvd unat p"
  unfolding pga_def by (rule page_aligned_dvd)

lemma kpage_pga: "kpage s p \<Longrightarrow> pga p"
  by (simp add: kpage_def pga_def)

lemma aligned_bit: "pga x \<Longrightarrow> n < 12 \<Longrightarrow> \<not> bit x n"
proof -
  assume "pga x" and n: "n < 12"
  then have "take_bit 12 x = 0" by (simp add: pga_def take_bit_eq_mod)
  then have "\<not> bit (take_bit 12 x) n" by simp
  with n show ?thesis by (simp add: bit_simps)
qed

lemma V2P_aligned: "pga p \<Longrightarrow> pga (V2P p)"
  unfolding V2P_def pga_dvd by (auto simp: unat_sub_if' intro: dvd_diff_nat)

lemma PTE_ADDR_or:
  assumes "pga x" and "f AND NOT 0xFFF = 0"
  shows "PTE_ADDR (x OR f) = x"
proof -
  have "PTE_ADDR x = x" using aligned_bit [OF assms(1)]
    by (intro bit_word_eqI) (auto simp: PTE_ADDR_def low12 bit_simps)
  moreover have "PTE_ADDR (x OR f) = PTE_ADDR x OR (f AND NOT 0xFFF)"
    by (simp add: PTE_ADDR_def bit.conj_disj_distrib2)
  ultimately show ?thesis using assms(2) by simp
qed

lemma P2V_V2P [simp]: "P2V (V2P p) = p"
  by (simp add: P2V_def V2P_def)

lemma present_bit: "present x \<longleftrightarrow> bit x 0"
  by (simp add: present_def and_one_eq odd_iff_mod_2_eq_one bit_0)

lemma present_or [simp]: "present (x OR 1)" "present (x OR 7)"
  by (simp_all add: present_bit bit_or_iff)

lemma not_present_0 [simp]: "\<not> present 0"
  by (simp add: present_def)

text \<open>The words of a page.\<close>

lemma unat_slot:
  assumes "pga p" and "unat (i :: u32) < 1024"
  shows "unat (p + 4 * i) = unat p + 4 * unat i"
proof -
  from assms(1) have "4096 dvd unat p" by (simp add: pga_dvd)
  then obtain q where "unat p = 4096 * q" by blast
  with unat32_less [of p] have "unat p + 4096 \<le> 4294967296" by simp
  with assms(2) have "unat p + 4 * unat i < 4294967296" by simp
  then show ?thesis by (simp add: unat_word_ariths)
qed

lemma slot_apart:
  assumes "pga p" and "pga q" and "unat (i :: u32) < 1024" and "unat (j :: u32) < 1024"
    and "p \<noteq> q \<or> i \<noteq> j"
  shows "apart (p + 4 * i) 4 (q + 4 * j) 4"
proof -
  obtain a b where ab: "unat p = 4096 * a" "unat q = 4096 * b"
    using assms(1,2) by (auto simp: pga_dvd dvd_def)
  have "p + 4 * i \<noteq> q + 4 * j"
  proof
    assume "p + 4 * i = q + 4 * j"
    then have "unat p + 4 * unat i = unat q + 4 * unat j"
      using unat_slot [OF assms(1,3)] unat_slot [OF assms(2,4)] by simp
    then have "1024 * a + unat i = 1024 * b + unat j" using ab by simp
    then have "a = b \<and> unat i = unat j" using assms(3,4)
      by (metis div_mult_self4 mod_mult_self4 div_less mod_less add.right_neutral zero_neq_numeral)
    with ab assms(5) show False by (auto simp: word_unat_eq_iff)
  qed
  moreover have "unat (p + 4 * i) mod 4 = 0" "unat (q + 4 * j) mod 4 = 0"
    using assms(1-4) by (simp_all add: unat_slot ab mod_add_eq)
  ultimately show ?thesis by (intro aligned_apart)
qed

lemma slot_on_page:
  assumes "pga p" and "unat (i :: u32) < 1024" and "k < 4"
  shows "on_page p (p + 4 * i + word_of_nat k)"
proof -
  have "unat (4 * i) = 4 * unat i" using assms(2) by (simp add: unat_word_ariths)
  then have "unat (4 * i + word_of_nat k) = 4 * unat i + k" using assms(2,3)
    by (subst unat_add_nat) simp_all
  then show ?thesis using assms(2,3) by (simp add: on_page_def add.assoc)
qed

text \<open>Changes outside the words of the page directory and its page tables do not change the table.\<close>

lemma read_slot_frame:
  assumes "\<forall>x. on_page p x \<longrightarrow> m' x = m x" and "pga p" and "unat (i :: u32) < 1024"
  shows "read32 m' (p + 4 * i) = read32 m (p + 4 * i)"
  using assms slot_on_page [OF assms(2,3)] by (intro read32_cong) blast

lemma on_page_disjoint:
  assumes "pga p" and "pga q" and "p \<noteq> q" and "on_page p x"
  shows "\<not> on_page q x"
proof -
  have "apart q 4096 p 4096" using assms unfolding pga_def by (intro page_apart) auto
  moreover have "x = p + word_of_nat (unat (x - p))" by simp
  ultimately show ?thesis using apart_offset [of q 4096 p 4096 "unat (x - p)"] assms(4)
    by (auto simp: on_page_def)
qed

lemma pt_wfD:
  assumes "pt_wf s pgd fs"
  shows "free_pages s fs" and "pga pgd" and "pgd \<notin> set fs" and "kpage s pgd"
    and "\<And>p. p \<in> set fs \<Longrightarrow> pga p"
    and "\<And>va. present (pde_of s pgd va) \<Longrightarrow> pga (pgtab_of s pgd va)"
    and "\<And>va. present (pde_of s pgd va) \<Longrightarrow> kpage s (pgtab_of s pgd va)"
    and "\<And>va. present (pde_of s pgd va) \<Longrightarrow> pgtab_of s pgd va \<noteq> pgd"
    and "\<And>va. present (pde_of s pgd va) \<Longrightarrow> pgtab_of s pgd va \<notin> set fs"
    and "\<And>va va'. present (pde_of s pgd va) \<Longrightarrow> present (pde_of s pgd va') \<Longrightarrow>
      pgtab_of s pgd va = pgtab_of s pgd va' \<Longrightarrow> PDX va = PDX va'"
  using assms unfolding pt_wf_def free_pages_def by (blast intro: kpage_pga)+

lemma pt_frame:
  assumes "pt_wf s pgd fs" and "\<forall>x. on_page pgd x \<longrightarrow> mem s' x = mem s x"
    and "\<forall>va. present (pde_of s pgd va) \<longrightarrow>
      (\<forall>x. on_page (pgtab_of s pgd va) x \<longrightarrow> mem s' x = mem s x)"
  shows "pde_of s' pgd va = pde_of s pgd va" and "pgtab_of s' pgd va = pgtab_of s pgd va"
    and "pte_of s' pgd va = pte_of s pgd va"
proof -
  show pde: "pde_of s' pgd va = pde_of s pgd va"
    unfolding pde_of_def by (rule read_slot_frame [OF assms(2) pt_wfD(2) [OF assms(1)]]) simp
  then show tab: "pgtab_of s' pgd va = pgtab_of s pgd va" by (simp add: pgtab_of_def)
  have "read32 (mem s') (pgtab_of s pgd va + 4 * PTX va) =
      read32 (mem s) (pgtab_of s pgd va + 4 * PTX va)" if "present (pde_of s pgd va)"
    using assms(3) that by (intro read_slot_frame pt_wfD(6) [OF assms(1)]) auto
  with pde tab show "pte_of s' pgd va = pte_of s pgd va" by (simp add: pte_of_def)
qed

lemma free_pages_frame:
  assumes "free_pages s fs" and "freelist s' = freelist s" and "lnk s' = lnk s"
    and "\<forall>p\<in>set fs. read32 (mem s') p = read32 (mem s) p"
  shows "free_pages s' fs"
  using assms run_list_cong [of fs "mem s'" "mem s" "freelist s"]
  by (auto simp: free_pages_def kpage_def)

lemma write_pte:
  assumes wf: "pt_wf s pgd fs" and pr: "present (pde_of s pgd va)"
    and s': "s' = s\<lparr>mem := write32 (mem s) (pgtab_of s pgd va + 4 * PTX va) v\<rparr>"
  shows "pt_wf s' pgd fs"
    and "pte_of s' pgd va' =
      (if PGROUNDDOWN va' = PGROUNDDOWN va then v else pte_of s pgd va')"
    and "pde_of s' pgd va' = pde_of s pgd va'"
proof -
  note D = pt_wfD [OF wf]
  let ?tab = "pgtab_of s pgd va"
  have pde: "pde_of s' pgd w = pde_of s pgd w" for w
    unfolding pde_of_def s'
    using D(8) [OF pr] D(2) D(6) [OF pr] by (auto intro!: read32_write32_apart slot_apart)
  then have tab: "pgtab_of s' pgd w = pgtab_of s pgd w" for w by (simp add: pgtab_of_def)
  have free: "free_pages s' fs"
  proof (rule free_pages_frame [OF D(1)])
    show "\<forall>p\<in>set fs. read32 (mem s') p = read32 (mem s) p"
    proof
      fix p
      assume p: "p \<in> set fs"
      then have "apart (?tab + 4 * PTX va) 4 (p + 4 * 0) 4"
        using D(5) [OF p] D(6) [OF pr] D(9) [OF pr] by (intro slot_apart) auto
      then show "read32 (mem s') p = read32 (mem s) p" by (simp add: s' read32_write32_apart)
    qed
  qed (simp_all add: s')
  moreover have "kpage s' q = kpage s q" for q by (simp add: kpage_def s')
  ultimately show "pt_wf s' pgd fs" using wf unfolding pt_wf_def pde tab by blast
  show "pte_of s' pgd va' = (if PGROUNDDOWN va' = PGROUNDDOWN va then v else pte_of s pgd va')"
  proof (cases "PGROUNDDOWN va' = PGROUNDDOWN va")
    case True
    then have e: "PDX va' = PDX va" "PTX va' = PTX va" using same_page_iff by blast+
    then have "pde_of s pgd va' = pde_of s pgd va" by (simp add: pde_of_def)
    with e pr True show ?thesis by (simp add: pte_of_def pde tab) (simp add: pgtab_of_def s')
  next
    case False
    have "apart (?tab + 4 * PTX va) 4 (pgtab_of s pgd va' + 4 * PTX va') 4"
      if p': "present (pde_of s pgd va')"
    proof (rule slot_apart)
      show "?tab \<noteq> pgtab_of s pgd va' \<or> PTX va \<noteq> PTX va'"
        using D(10) [OF pr p'] False same_page_iff by metis
    qed (use D(6) pr p' in auto)
    with False show ?thesis
      by (simp add: pte_of_def pde tab) (simp add: s' read32_write32_apart)
  qed
  show "pde_of s' pgd va' = pde_of s pgd va'" by (rule pde)
qed

text \<open>Adding an empty page table does not change the function.\<close>

lemma add_table:
  assumes wf: "pt_wf s pgd (pg # fs)" and np: "\<not> present (pde_of s pgd va)"
    and s': "s' = s\<lparr>freelist := read32 (mem s) pg, mem := write32 (memset pg 0 PGSIZE (mem s))
      (pgd + 4 * PDX va) (V2P pg OR 7)\<rparr>"
  shows "pt_wf s' pgd fs" and "pte_of s' pgd va' = pte_of s pgd va'"
    and "present (pde_of s' pgd va)" and "pgtab_of s' pgd va = pg"
proof -
  note D = pt_wfD [OF wf]
  have pg: "pga pg" "pg \<noteq> pgd" "pg \<notin> set fs" "kpage s pg"
    using D(1,3) by (auto simp: free_pages_def dest: kpage_pga)
  let ?m = "memset pg 0 PGSIZE (mem s)"
  have off: "read32 ?m (q + 4 * i) = read32 (mem s) (q + 4 * i)"
    if "pga q" "q \<noteq> pg" "unat (i :: u32) < 1024" for q i
    using that on_page_disjoint [OF that(1) pg(1) that(2)]
    by (intro read_slot_frame) (auto simp: memset_eq on_page_def)
  have zero: "read32 ?m (pg + 4 * i) = 0" if "unat (i :: u32) < 1024" for i
  proof -
    have "read32 ?m (pg + 4 * i) = read32 (\<lambda>_. 0) (pg + 4 * i)"
      using slot_on_page [OF pg(1) that] by (intro read32_cong) (simp add: memset_eq on_page_def)
    then show ?thesis by (simp add: read32_def load_bytes_def of_le32_def eval_nat_numeral)
  qed
  have pde: "pde_of s' pgd w = (if PDX w = PDX va then V2P pg OR 7 else pde_of s pgd w)" for w
  proof (cases "PDX w = PDX va")
    case False
    then have "apart (pgd + 4 * PDX va) 4 (pgd + 4 * PDX w) 4" using D(2) by (intro slot_apart) auto
    with False off [OF D(2) pg(2) [symmetric], of "PDX w"] show ?thesis
      by (simp add: pde_of_def s' read32_write32_apart)
  qed (simp add: pde_of_def s')
  have "(7 :: u32) AND NOT 0xFFF = 0" by simp
  then have tab: "pgtab_of s' pgd w = (if PDX w = PDX va then pg else pgtab_of s pgd w)" for w
    using PTE_ADDR_or [OF V2P_aligned [OF pg(1)]] by (simp add: pgtab_of_def pde)
  have slot: "read32 (mem s') (q + 4 * i) = read32 ?m (q + 4 * i)"
    if "pga q" "q \<noteq> pgd" "unat (i :: u32) < 1024" for q i
    using that D(2) by (simp add: s' read32_write32_apart slot_apart)
  have np': "PDX w = PDX va \<Longrightarrow> \<not> present (pde_of s pgd w)" for w
    using np by (simp add: pde_of_def)
  show "present (pde_of s' pgd va)" "pgtab_of s' pgd va = pg" by (simp_all add: pde tab)
  have neq: "present (pde_of s pgd w) \<Longrightarrow> pgtab_of s pgd w \<noteq> pg" for w using D(9) by auto
  show "pte_of s' pgd va' = pte_of s pgd va'"
    using np' [of va'] neq [of va'] slot [OF D(6,8), of va' "PTX va'"]
      slot [OF pg(1,2), of "PTX va'"] zero [of "PTX va'"] off [OF D(6), of va' "PTX va'"]
    by (auto simp: pte_of_def pde tab)
  have "free_pages (s\<lparr>freelist := read32 (mem s) pg\<rparr>) fs" using kalloc_free_pages(2) [OF D(1)] .
  moreover have "read32 (mem s') p = read32 (mem s) p" if "p \<in> set fs" for p
  proof -
    have "pga p" "p \<noteq> pgd" "p \<noteq> pg" using that pg(3) D(3,5) by auto
    with slot [of p 0] off [of p 0] show ?thesis by simp
  qed
  ultimately have free: "free_pages s' fs" by (elim free_pages_frame) (simp_all add: s')
  have K: "kpage s' q = kpage s q" for q by (simp add: kpage_def s')
  have pr': "present (pde_of s' pgd w) \<longleftrightarrow> PDX w = PDX va \<or> present (pde_of s pgd w)" for w
    by (simp add: pde)
  show "pt_wf s' pgd fs"
    unfolding pt_wf_def K pr'
  proof (intro conjI allI impI)
    fix w w'
    assume w: "PDX w = PDX va \<or> present (pde_of s pgd w)"
    show "kpage s (pgtab_of s' pgd w)" using w pg(4) D(7) by (auto simp: tab)
    show "pgtab_of s' pgd w \<noteq> pgd" using w pg(2) D(8) by (auto simp: tab)
    show "pgtab_of s' pgd w \<notin> set fs" using w pg(3) D(9) by (auto simp: tab)
    assume w': "PDX w' = PDX va \<or> present (pde_of s pgd w')"
      and e: "pgtab_of s' pgd w = pgtab_of s' pgd w'"
    show "PDX w = PDX w'"
      using w w' e neq [of w] neq [of w'] D(10) [of w w'] by (simp add: tab split: if_splits)
  qed (use free D(3,4) in auto)
qed

lemma pte_addr_nonzero: "kpage s p \<Longrightarrow> p + 4 * PTX va \<noteq> 0"
  using unat_slot [OF kpage_pga, of s p "PTX va"] kpage_nonzero [of s p]
  by (metis add_eq_0_iff_both_eq_0 unat_PTX unat_eq_0)

lemma walk_alloc:
  assumes wf: "pt_wf s pgd fs" and w: "walkpgdir pgd va True s = (pte, s')"
  shows "pte = 0 \<and> s' = s \<and> fs = [] \<or>
    (\<exists>fs'. pt_wf s' pgd fs' \<and> present (pde_of s' pgd va) \<and>
      pte = pgtab_of s' pgd va + 4 * PTX va \<and> pte \<noteq> 0 \<and>
      (\<forall>va'. pte_of s' pgd va' = pte_of s pgd va'))"
proof (cases "present (pde_of s pgd va)")
  case True
  with w have "s' = s" "pte = pgtab_of s pgd va + 4 * PTX va"
    by (auto simp: walkpgdir_def pde_of_def pgtab_of_def Let_def)
  with True wf pte_addr_nonzero [OF pt_wfD(7) [OF wf True]] show ?thesis by blast
next
  case False
  show ?thesis
  proof (cases fs)
    case Nil
    with False w kmem.alloc_empty [OF pt_wfD(1)] wf show ?thesis
      by (auto simp: walkpgdir_def pde_of_def Let_def)
  next
    case (Cons pg fs')
    have pg: "kpage s pg" using pt_wfD(1) [OF wf] Cons by (simp add: free_pages_def)
    define t where "t = s\<lparr>freelist := read32 (mem s) pg, mem := write32 (memset pg 0 PGSIZE (mem s))
      (pgd + 4 * PDX va) (V2P pg OR 7)\<rparr>"
    have "kalloc s = (pg, s\<lparr>freelist := read32 (mem s) pg\<rparr>)"
      using kalloc_free_pages(1) pt_wfD(1) [OF wf] Cons by blast
    then have "pte = pg + 4 * PTX va" "s' = t"
      using w False kpage_nonzero [OF pg]
      by (auto simp: walkpgdir_def pde_of_def Let_def t_def)
    with add_table [OF _ False t_def] wf Cons pte_addr_nonzero [OF pg] show ?thesis by blast
  qed
qed

text \<open>The page of \<open>va\<close> is one of the \<open>n + 1\<close> pages from \<open>a\<close> on.\<close>

definition in_pages :: "u32 \<Rightarrow> nat \<Rightarrow> u32 \<Rightarrow> bool" where
  "in_pages a n va \<longleftrightarrow> unat (PGROUNDDOWN va - a) div 4096 \<le> n"

lemma pga_PGROUNDDOWN: "pga (PGROUNDDOWN va)"
proof -
  have "take_bit 12 (PGROUNDDOWN va) = 0"
    by (rule bit_word_eqI) (auto simp: PGROUNDDOWN_def low12 bit_simps)
  then show ?thesis by (simp add: pga_def take_bit_eq_mod)
qed

lemma PGROUNDDOWN_pga: "pga a \<Longrightarrow> PGROUNDDOWN a = a"
  using aligned_bit [of a]
  by (intro bit_word_eqI) (auto simp: PGROUNDDOWN_def low12 bit_simps)

lemma pga_diff: "pga a \<Longrightarrow> pga b \<Longrightarrow> pga (a - b)"
  unfolding pga_dvd by (auto simp: unat_sub_if' intro: dvd_diff_nat)

lemma pga_add_page: "pga a \<Longrightarrow> pga (a + 4096)"
  unfolding pga_dvd by (auto simp: unat_word_ariths intro: dvd_mod)

lemma in_pages_0: "pga a \<Longrightarrow> in_pages a 0 va \<longleftrightarrow> PGROUNDDOWN va = a"
proof -
  assume "pga a"
  then have "4096 dvd unat (PGROUNDDOWN va - a)"
    using pga_diff [OF pga_PGROUNDDOWN] by (simp add: pga_dvd)
  then have "unat (PGROUNDDOWN va - a) div 4096 \<le> 0 \<longleftrightarrow> unat (PGROUNDDOWN va - a) = 0" by auto
  then show ?thesis by (simp add: in_pages_def unat_eq_0)
qed

lemma in_pages_Suc:
  assumes "pga a" and "n < 1048575"
  shows "in_pages a (Suc n) va \<longleftrightarrow> PGROUNDDOWN va = a \<or> in_pages (a + 4096) n va"
    and "PGROUNDDOWN va = a \<Longrightarrow> \<not> in_pages (a + 4096) n va"
proof -
  define y where "y = PGROUNDDOWN va - a"
  have e: "PGROUNDDOWN va - (a + 4096) = y - 4096" by (simp add: y_def)
  have "4096 dvd unat y" using pga_diff [OF pga_PGROUNDDOWN assms(1)] by (simp add: pga_dvd y_def)
  then obtain q where q: "unat y = 4096 * q" by blast
  have y0: "PGROUNDDOWN va = a \<longleftrightarrow> q = 0" using q by (auto simp: y_def unat_eq_0)
  have "unat (y - 4096) div 4096 = (if q = 0 then 1048575 else q - 1)"
    using q by (auto simp: unat_sub_if')
  with q y0 assms(2) show "in_pages a (Suc n) va \<longleftrightarrow> PGROUNDDOWN va = a \<or> in_pages (a + 4096) n va"
    and "PGROUNDDOWN va = a \<Longrightarrow> \<not> in_pages (a + 4096) n va"
    unfolding in_pages_def e y_def [symmetric] by auto
qed

text \<open>What a round of the loop does when the page is not mapped.\<close>

lemma mappages_round:
  assumes wf: "pt_wf s pgd fs" and np: "\<not> present (pte_of s pgd a)"
  shows "mappages_loop (Suc k) pgd a lst pa perm s = Ok (-1, s) \<and> fs = [] \<or>
    (\<exists>s' fs'. pt_wf s' pgd fs' \<and>
      (\<forall>va. pte_of s' pgd va =
        (if PGROUNDDOWN va = PGROUNDDOWN a then pa OR perm OR PTE_P else pte_of s pgd va)) \<and>
      mappages_loop (Suc k) pgd a lst pa perm s =
        (if a = lst then Ok (0, s')
         else mappages_loop k pgd (a + PGSIZE) lst (pa + PGSIZE) perm s'))"
proof -
  obtain pte t where w: "walkpgdir pgd a True s = (pte, t)" by fastforce
  from walk_alloc [OF wf w] show ?thesis
  proof
    assume "\<exists>fs'. pt_wf t pgd fs' \<and> present (pde_of t pgd a) \<and>
      pte = pgtab_of t pgd a + 4 * PTX a \<and> pte \<noteq> 0 \<and> (\<forall>va'. pte_of t pgd va' = pte_of s pgd va')"
    then obtain fs' where t: "pt_wf t pgd fs'" "present (pde_of t pgd a)"
      "pte = pgtab_of t pgd a + 4 * PTX a" "pte \<noteq> 0" "\<forall>va'. pte_of t pgd va' = pte_of s pgd va'"
      by blast
    define s' where "s' = t\<lparr>mem := write32 (mem t) pte (pa OR perm OR PTE_P)\<rparr>"
    have "read32 (mem t) pte = pte_of t pgd a" using t(2,3) by (simp add: pte_of_def)
    then have "\<not> present (read32 (mem t) pte)" using np t(5) by simp
    then have "mappages_loop (Suc k) pgd a lst pa perm s = (if a = lst then Ok (0, s')
         else mappages_loop k pgd (a + PGSIZE) lst (pa + PGSIZE) perm s')"
      using w t(4) by (simp add: s'_def)
    with write_pte [OF t(1,2), of s' "pa OR perm OR PTE_P"] t(3,5) show ?thesis
      unfolding s'_def by metis
  qed (use w in simp)
qed

lemma mappages_loop_maps:
  assumes "pt_wf s pgd fs" and "pga a" and "lst = a + 4096 * word_of_nat n" and "n < 1048576"
    and "\<forall>va. in_pages a n va \<longrightarrow> \<not> present (pte_of s pgd va)"
  shows "\<exists>r s' fs'. mappages_loop (Suc n) pgd a lst pa perm s = Ok (r, s') \<and> pt_wf s' pgd fs' \<and>
    (r = -1 \<and> fs' = [] \<or> r = 0 \<and> (\<forall>va. pte_of s' pgd va =
      (if in_pages a n va then (pa + (PGROUNDDOWN va - a)) OR perm OR PTE_P else pte_of s pgd va)))"
  using assms
proof (induction n arbitrary: s fs a pa)
  case 0
  then have np: "\<not> present (pte_of s pgd a)"
    using in_pages_0 [OF \<open>pga a\<close>, of a] PGROUNDDOWN_pga [OF \<open>pga a\<close>] by simp
  from mappages_round [OF 0(1) np, of 0 lst pa perm] 0 show ?case
    by (auto simp: in_pages_0 PGROUNDDOWN_pga simp del: mappages_loop.simps)
next
  case (Suc n)
  have n: "n < 1048575" using Suc.prems by simp
  note S = in_pages_Suc [OF \<open>pga a\<close> n]
  have pd: "PGROUNDDOWN a = a" by (rule PGROUNDDOWN_pga [OF \<open>pga a\<close>])
  have np: "\<not> present (pte_of s pgd a)" using Suc.prems(5) S(1) pd by blast
  have lst: "lst = a + 4096 + 4096 * word_of_nat n" "a \<noteq> lst"
  proof -
    show "lst = a + 4096 + 4096 * word_of_nat n" using Suc.prems(3) by (simp add: algebra_simps)
    have "unat (4096 * word_of_nat (Suc n) :: u32) = 4096 * Suc n"
      using unat_word_of_nat_less [of "4096 * Suc n"] n by simp
    then show "a \<noteq> lst" using Suc.prems(3) by auto
  qed
  from mappages_round [OF Suc.prems(1) np, of "Suc n" lst pa perm] show ?case
  proof
    assume "\<exists>t ft. pt_wf t pgd ft \<and>
      (\<forall>va. pte_of t pgd va =
        (if PGROUNDDOWN va = PGROUNDDOWN a then pa OR perm OR PTE_P else pte_of s pgd va)) \<and>
      mappages_loop (Suc (Suc n)) pgd a lst pa perm s =
        (if a = lst then Ok (0, t)
         else mappages_loop (Suc n) pgd (a + PGSIZE) lst (pa + PGSIZE) perm t)"
    then obtain t ft where t: "pt_wf t pgd ft"
      "\<And>va. pte_of t pgd va = (if PGROUNDDOWN va = a then pa OR perm OR PTE_P else pte_of s pgd va)"
      "mappages_loop (Suc (Suc n)) pgd a lst pa perm s =
        mappages_loop (Suc n) pgd (a + PGSIZE) lst (pa + PGSIZE) perm t"
      using lst(2) pd by auto
    have np': "\<forall>va. in_pages (a + 4096) n va \<longrightarrow> \<not> present (pte_of t pgd va)"
      using Suc.prems(5) S t(2) by simp
    have "n < 1048576" using n by simp
    from Suc.IH [OF t(1) pga_add_page [OF \<open>pga a\<close>] lst(1) this np', of "pa + 4096"] t(2,3)
    obtain r s' fs' where r: "mappages_loop (Suc (Suc n)) pgd a lst pa perm s = Ok (r, s')"
      "pt_wf s' pgd fs'" and "r = -1 \<and> fs' = [] \<or> r = 0 \<and> (\<forall>va. pte_of s' pgd va =
        (if in_pages (a + 4096) n va then (pa + 4096 + (PGROUNDDOWN va - (a + 4096))) OR perm OR PTE_P
         else pte_of t pgd va))" by auto
    then have "r = -1 \<and> fs' = [] \<or> r = 0 \<and> (\<forall>va. pte_of s' pgd va =
      (if in_pages a (Suc n) va then (pa + (PGROUNDDOWN va - a)) OR perm OR PTE_P else pte_of s pgd va))"
      using S t(2) by auto
    with r show ?case by blast
  qed (use Suc.prems(1) in auto)
qed

section \<open>Properties\<close>

text \<open>C19: On a well-formed table in which no page of the range is mapped, \<open>mappages\<close> does not panic: it maps exactly the pages of the range to consecutive physical pages with the permissions given, other entries unchanged, or returns -1 when the free pages ran out; the table stays well formed.\<close>

theorem mappages_maps:
  assumes "pt_wf s pgd fs"
    and "n = unat ((PGROUNDDOWN (va + sze - 1) - PGROUNDDOWN va) div PGSIZE)"
    and "\<forall>w. in_pages (PGROUNDDOWN va) n w \<longrightarrow> \<not> present (pte_of s pgd w)"
  shows "\<exists>r s' fs'. mappages pgd va sze pa perm s = Ok (r, s') \<and> pt_wf s' pgd fs' \<and>
    (r = -1 \<and> fs' = [] \<or> r = 0 \<and> (\<forall>w. pte_of s' pgd w =
      (if in_pages (PGROUNDDOWN va) n w
       then (pa + (PGROUNDDOWN w - PGROUNDDOWN va)) OR perm OR PTE_P else pte_of s pgd w)))"
proof -
  let ?a = "PGROUNDDOWN va" and ?l = "PGROUNDDOWN (va + sze - 1)"
  have n: "n = unat (?l - ?a) div 4096" by (simp add: assms(2) unat_div_distrib)
  have "4096 dvd unat (?l - ?a)" using pga_diff pga_PGROUNDDOWN by (simp add: pga_dvd)
  then have "unat (?l - ?a) = 4096 * n" using n by simp
  moreover have nb: "n < 1048576" using n unat32_less [of "?l - ?a"] by simp
  ultimately have "?l - ?a = 4096 * word_of_nat n"
    by (simp add: word_unat_eq_iff unat_word_ariths unat_of_nat take_bit_nat_eq_self)
  then have "?l = ?a + 4096 * word_of_nat n" by (simp add: algebra_simps)
  from mappages_loop_maps [OF assms(1) pga_PGROUNDDOWN this nb assms(3)] show ?thesis
    by (simp add: mappages_def Let_def assms(2) del: mappages_loop.simps)
qed

theorem mappages_maps_witness:
  "\<exists>r s' fs'. mappages 0x80200000 0x1FFF 2 0x300000 PTE_W (demo_kernel\<lparr>freelist := 0x80201000\<rparr>) =
      Ok (r, s') \<and> pt_wf s' 0x80200000 fs' \<and>
    (r = -1 \<and> fs' = [] \<or> r = 0 \<and> (\<forall>w. pte_of s' 0x80200000 w =
      (if in_pages (PGROUNDDOWN 0x1FFF) 1 w
       then (0x300000 + (PGROUNDDOWN w - PGROUNDDOWN 0x1FFF)) OR PTE_W OR PTE_P
       else pte_of (demo_kernel\<lparr>freelist := 0x80201000\<rparr>) 0x80200000 w)))"
proof -
  let ?s = "demo_kernel\<lparr>freelist := 0x80201000\<rparr>"
  have z: "read32 (mem ?s) x = 0" for x
    by (simp add: read32_def load_bytes_def of_le32_def
        eval_nat_numeral)
  then have pde: "pde_of ?s 0x80200000 w = 0" for w unfolding pde_of_def .
  have "free_pages ?s [0x80201000]"
    using z by (simp add: free_pages_def kpage_def V2P_def demo_link_def)
  then have wf: "pt_wf ?s 0x80200000 [0x80201000]"
    by (simp add: pt_wf_def pde kpage_def V2P_def demo_link_def)
  show ?thesis
    by (rule mappages_maps [OF wf]) (simp_all add: PGROUNDDOWN_def pte_of_def pde)
qed

end
