(* ===== verification/User_Mem.thy ===== *)
theory User_Mem
  imports Vm
begin

text \<open>
  How the kernel reads and writes the memory of the current process: through the page table that
  the processor uses. Inside one page the bytes of a user address range are consecutive bytes of
  kernel memory, which reduces accesses to a user stack to the laws of byte-addressed memory.
\<close>

section \<open>Accesses through the page table\<close>

text \<open>
  The address in kernel memory that the processor uses for a supervisor access to \<open>va\<close>: both
  entries must be present, and for a write both must be writable (\<^verbatim>\<open>CR0_WP\<close> is set). \<open>None\<close> is
  a page fault in the kernel, on which \<open>trap\<close> panics.
\<close>

definition writable :: "u32 \<Rightarrow> bool" where
  "writable e \<longleftrightarrow> e AND PTE_W \<noteq> 0"

definition mmu_addr :: "kernel \<Rightarrow> u32 \<Rightarrow> bool \<Rightarrow> u32 option" where
  "mmu_addr s va wr =
     (let pgd = P2V (cr3 s); pde = pde_of s pgd va; pte = pte_of s pgd va in
      if present pde \<and> present pte \<and> (wr \<longrightarrow> writable pde \<and> writable pte)
      then Some (P2V (PTE_ADDR pte) + take_bit 12 va) else None)"

fun uload :: "u32 \<Rightarrow> nat \<Rightarrow> kernel \<Rightarrow> bytes res" where
  "uload va 0 s = Ok []"
| "uload va (Suc n) s =
     (case mmu_addr s va False of
        None \<Rightarrow> Panic ''trap''
      | Some a \<Rightarrow> kbind (uload (va + 1) n s) (\<lambda>bs. Ok (mem s a # bs)))"

fun ustore :: "u32 \<Rightarrow> bytes \<Rightarrow> kernel \<Rightarrow> kernel res" where
  "ustore va [] s = Ok s"
| "ustore va (b # bs) s =
     (case mmu_addr s va True of
        None \<Rightarrow> Panic ''trap''
      | Some a \<Rightarrow> ustore (va + 1) bs (s\<lparr>mem := (mem s)(a := b)\<rparr>))"

definition uload32 :: "u32 \<Rightarrow> kernel \<Rightarrow> u32 res" where
  "uload32 va s = kbind (uload va 4 s) (\<lambda>bs. Ok (of_le32 bs))"

definition ustore32 :: "u32 \<Rightarrow> u32 \<Rightarrow> kernel \<Rightarrow> kernel res" where
  "ustore32 va v s = ustore va (le32 v) s"

text \<open>
  The page of \<open>va\<close> is mapped writable to the page \<open>q\<close>, which is not part of the page table.
\<close>

definition user_page :: "kernel \<Rightarrow> u32 \<Rightarrow> u32 \<Rightarrow> bool" where
  "user_page s va q \<longleftrightarrow>
     (let pgd = P2V (cr3 s); pde = pde_of s pgd va; tab = pgtab_of s pgd va; pte = pte_of s pgd va in
      present pde \<and> writable pde \<and> present pte \<and> writable pte \<and> P2V (PTE_ADDR pte) = q \<and>
      pga q \<and> pga pgd \<and> pga tab \<and> q \<noteq> pgd \<and> q \<noteq> tab)"

lemma user_page_mmu: "user_page s va q \<Longrightarrow> mmu_addr s va wr = Some (q + take_bit 12 va)"
  by (simp add: user_page_def mmu_addr_def Let_def)

lemma user_page_frame:
  assumes up: "user_page s va q" and fr: "\<forall>x. \<not> on_page q x \<longrightarrow> mem s' x = mem s x"
    and cr: "cr3 s' = cr3 s" and pg: "PGROUNDDOWN va' = PGROUNDDOWN va"
  shows "user_page s' va' q"
proof -
  let ?pgd = "P2V (cr3 s)"
  have e: "PDX va' = PDX va" "PTX va' = PTX va" using pg same_page_iff by blast+
  have u: "present (pde_of s ?pgd va)" "pga q" "pga ?pgd" "pga (pgtab_of s ?pgd va)"
    "q \<noteq> ?pgd" "q \<noteq> pgtab_of s ?pgd va" using up by (simp_all add: user_page_def Let_def)
  have fr': "\<forall>x. on_page p x \<longrightarrow> mem s' x = mem s x" if "pga p" "q \<noteq> p" for p
    using on_page_disjoint [OF that(1) u(2) that(2) [symmetric]] fr by blast
  have pde: "pde_of s' ?pgd va' = pde_of s ?pgd va"
    unfolding pde_of_def e by (rule read_slot_frame [OF fr' [OF u(3,5)] u(3)]) simp
  moreover from pde have tab: "pgtab_of s' ?pgd va' = pgtab_of s ?pgd va" by (simp add: pgtab_of_def)
  moreover have "read32 (mem s') (pgtab_of s ?pgd va + 4 * PTX va) =
      read32 (mem s) (pgtab_of s ?pgd va + 4 * PTX va)"
    by (rule read_slot_frame [OF fr' [OF u(4,6)] u(4)]) simp
  ultimately have "pte_of s' ?pgd va' = pte_of s ?pgd va" by (simp add: pte_of_def e)
  with up pde tab show ?thesis by (simp add: user_page_def Let_def cr)
qed

text \<open>Inside a page, the addresses that follow \<open>va\<close> are mapped to those that follow its image.\<close>

lemma unat_take_bit12: "unat (take_bit 12 (va :: u32)) = unat va mod 4096"
  by (simp add: take_bit_eq_mod unat_mod_distrib)

lemma next_in_page:
  assumes "unat (take_bit 12 (va :: u32)) + 1 < 4096"
  shows "PGROUNDDOWN (va + 1) = PGROUNDDOWN va" and "take_bit 12 (va + 1) = take_bit 12 va + 1"
proof -
  have va: "PGROUNDDOWN va + take_bit 12 va = va"
    using PGROUNDDOWN_diff [of va] by (metis add_diff_cancel_left' diff_add_cancel)
  have "unat va \<noteq> 4294967295" using assms by (auto simp: unat_take_bit12)
  then have "unat va + 1 < 4294967296" using unat32_less [of va] by simp
  then have u: "unat (va + 1) = unat va + 1" by (simp add: unat_word_ariths)
  have "unat (take_bit 12 (va + 1)) = unat (take_bit 12 va) + 1"
    using assms unfolding unat_take_bit12 u by (simp add: mod_Suc)
  moreover have "unat (take_bit 12 va + 1) = unat (take_bit 12 va) + 1"
    using assms by (simp add: unat_word_ariths)
  ultimately show t: "take_bit 12 (va + 1) = take_bit 12 va + 1" by (simp add: word_unat_eq_iff)
  have "PGROUNDDOWN (va + 1) = va + 1 - take_bit 12 (va + 1)"
    using PGROUNDDOWN_diff [of "va + 1"] by (simp add: algebra_simps)
  also have "\<dots> = va - take_bit 12 va" unfolding t by simp
  also have "\<dots> = PGROUNDDOWN va" using PGROUNDDOWN_diff [of va] by (simp add: algebra_simps)
  finally show "PGROUNDDOWN (va + 1) = PGROUNDDOWN va" .
qed

lemma on_page_offset: "unat (take_bit 12 va) < 4096 \<Longrightarrow> on_page q (q + take_bit 12 va)"
  by (simp add: on_page_def)

lemma store_bytes_Cons:
  assumes "length bs < 4294967295"
  shows "store_bytes m a (b # bs) = store_bytes (m(a := b)) (a + 1) bs"
proof
  fix x
  define y where "y = x - a"
  have e: "x - (a + 1) = y - 1" by (simp add: y_def)
  show "store_bytes m a (b # bs) x = store_bytes (m(a := b)) (a + 1) bs x"
  proof (cases "y = 0")
    case True
    then have "x = a" by (simp add: y_def)
    moreover have "unat (- 1 :: u32) = 4294967295" by (simp add: unsigned_minus_1_eq_mask mask_eq_exp_minus_1)
    ultimately show ?thesis using assms by (simp add: store_bytes_def)
  next
    case False
    then have u: "unat (y - 1) = unat y - 1" by (rule unat_minus_one)
    obtain k where k: "unat y = Suc k" using False by (metis not0_implies_Suc unat_eq_0)
    have "x \<noteq> a" using False by (auto simp: y_def)
    then show ?thesis unfolding store_bytes_def e y_def [symmetric] u k by simp
  qed
qed

lemma store_bytes_Nil [simp]: "store_bytes m a [] = m"
  by (simp add: store_bytes_def)

lemma ustore_page:
  assumes "user_page s va q" and "unat (take_bit 12 va) + length bs \<le> 4096"
  shows "ustore va bs s = Ok (s\<lparr>mem := store_bytes (mem s) (q + take_bit 12 va) bs\<rparr>)"
  using assms
proof (induction bs arbitrary: va s)
  case Nil
  then show ?case by simp
next
  case (Cons b bs)
  define t where "t = s\<lparr>mem := (mem s)(q + take_bit 12 va := b)\<rparr>"
  have step: "ustore va (b # bs) s = ustore (va + 1) bs t"
    using user_page_mmu [OF Cons.prems(1)] by (simp add: t_def)
  have sb: "store_bytes (mem s) (q + take_bit 12 va) (b # bs) =
      store_bytes (mem t) (q + take_bit 12 va + 1) bs"
    using Cons.prems(2) by (simp add: store_bytes_Cons t_def del: fun_upd_apply)
  show ?case
  proof (cases "bs = []")
    case True
    then show ?thesis unfolding step sb by (simp add: t_def del: fun_upd_apply)
  next
    case False
    then have lt: "unat (take_bit 12 va) + 1 < 4096" using Cons.prems(2) by (cases bs) auto
    note nx = next_in_page [OF lt]
    have "user_page t (va + 1) q"
      using Cons.prems(1) on_page_offset [of va q] lt nx(1)
      by (intro user_page_frame [OF Cons.prems(1)]) (auto simp: t_def)
    moreover have "unat (take_bit 12 (va + 1)) + length bs \<le> 4096"
      unfolding nx using Cons.prems(2) lt by (simp add: unat_word_ariths)
    ultimately have "ustore (va + 1) bs t =
        Ok (t\<lparr>mem := store_bytes (mem t) (q + take_bit 12 (va + 1)) bs\<rparr>)" by (rule Cons.IH)
    then show ?thesis unfolding step sb nx by (simp add: t_def add.assoc)
  qed
qed

lemma load_bytes_Suc: "load_bytes m a (Suc n) = m a # load_bytes m (a + 1) n"
  by (simp add: load_bytes_def upt_conv_Cons map_Suc_upt [symmetric] add.assoc del: upt_Suc)

lemma uload_page:
  assumes "user_page s va q" and "unat (take_bit 12 va) + n \<le> 4096"
  shows "uload va n s = Ok (load_bytes (mem s) (q + take_bit 12 va) n)"
  using assms
proof (induction n arbitrary: va)
  case 0
  then show ?case by (simp add: load_bytes_def)
next
  case (Suc n)
  note m = user_page_mmu [OF Suc.prems(1), of False]
  show ?case
  proof (cases "n = 0")
    case True
    then show ?thesis using m by (simp add: load_bytes_Suc) (simp add: load_bytes_def)
  next
    case False
    then have lt: "unat (take_bit 12 va) + 1 < 4096" using Suc.prems(2) by simp
    note nx = next_in_page [OF lt]
    have "user_page s (va + 1) q"
      by (rule user_page_frame [OF Suc.prems(1)]) (simp_all add: nx)
    moreover have "unat (take_bit 12 (va + 1)) + n \<le> 4096"
      unfolding nx using Suc.prems(2) lt by (simp add: unat_word_ariths)
    ultimately have "uload (va + 1) n s = Ok (load_bytes (mem s) (q + take_bit 12 (va + 1)) n)"
      by (rule Suc.IH)
    then show ?thesis using m by (simp add: load_bytes_Suc nx add.assoc)
  qed
qed

text \<open>Aligned words of one page.\<close>

lemma aligned_word_fits:
  assumes "unat (va :: u32) mod 4 = 0"
  shows "unat (take_bit 12 va) + 4 \<le> 4096"
proof -
  have m: "unat va mod 4096 mod 4 = 0" using assms by (simp add: mod_mod_cancel)
  have "x mod 4 = 0 \<Longrightarrow> x < 4096 \<Longrightarrow> x + 4 \<le> 4096" for x :: nat by presburger
  from this [OF m] show ?thesis by (simp add: unat_take_bit12)
qed

lemma ustore32_page:
  assumes "user_page s va q" and "unat va mod 4 = 0"
  shows "ustore32 va v s = Ok (s\<lparr>mem := write32 (mem s) (q + take_bit 12 va) v\<rparr>)"
  using ustore_page [OF assms(1), of "le32 v"] aligned_word_fits [OF assms(2)]
  by (simp add: ustore32_def write32_def)

lemma uload32_page:
  assumes "user_page s va q" and "unat va mod 4 = 0"
  shows "uload32 va s = Ok (read32 (mem s) (q + take_bit 12 va))"
  using uload_page [OF assms(1), of 4] aligned_word_fits [OF assms(2)]
  by (simp add: uload32_def read32_def)

lemma write32_off_page:
  assumes "pga q" and "unat va mod 4 = 0" and "\<not> on_page q x"
  shows "write32 m (q + take_bit 12 va) v x = m x"
proof (rule write32_apart, rule ccontr)
  define i where "i = unat (x - (q + take_bit 12 va))"
  assume "\<not> 4 \<le> unat (x - (q + take_bit 12 va))"
  then have i: "i < 4" by (simp add: i_def)
  have "x - q = take_bit 12 va + word_of_nat i" by (simp add: i_def algebra_simps)
  moreover have "unat (take_bit 12 va + word_of_nat i) = unat (take_bit 12 va) + i"
    using aligned_word_fits [OF assms(2)] i by (intro unat_add_nat) simp
  ultimately have "unat (x - q) < 4096" using aligned_word_fits [OF assms(2)] i by simp
  with assms(3) show False by (simp add: on_page_def)
qed

lemma user_page_write32:
  assumes "user_page s va q" and "unat wa mod 4 = 0" and "PGROUNDDOWN va' = PGROUNDDOWN va"
  shows "user_page (s\<lparr>mem := write32 (mem s) (q + take_bit 12 wa) v\<rparr>) va' q"
proof -
  have "pga q" using assms(1) by (simp add: user_page_def Let_def)
  with assms show ?thesis
    by (intro user_page_frame [OF assms(1)]) (auto simp: write32_off_page)
qed

lemma page_words_apart:
  assumes "pga q" and "unat va mod 4 = 0" and "unat wa mod 4 = 0"
    and "PGROUNDDOWN va = PGROUNDDOWN wa" and "va \<noteq> wa"
  shows "apart (q + take_bit 12 va) 4 (q + take_bit 12 wa) 4"
proof (rule aligned_apart)
  obtain k where k: "unat q = 4096 * k" using assms(1) by (auto simp: pga_dvd dvd_def)
  have al: "unat (q + take_bit 12 w) mod 4 = 0" if "unat w mod 4 = 0" for w :: u32
  proof -
    have "unat q + unat (take_bit 12 w) < 4294967296"
      using k unat32_less [of q] aligned_word_fits [OF that] by simp
    then have "unat (q + take_bit 12 w) = 4096 * k + unat w mod 4096"
      using k by (simp add: unat_word_ariths unat_take_bit12)
    moreover have "4 dvd unat w mod 4096" using that by (simp add: dvd_mod mod_eq_0_iff_dvd)
    ultimately show ?thesis by (simp add: mod_eq_0_iff_dvd)
  qed
  show "unat (q + take_bit 12 va) mod 4 = 0" "unat (q + take_bit 12 wa) mod 4 = 0"
    using al assms(2,3) by auto
  have "va - PGROUNDDOWN va \<noteq> wa - PGROUNDDOWN wa" using assms(4,5) by simp
  then show "q + take_bit 12 va \<noteq> q + take_bit 12 wa" by (simp add: PGROUNDDOWN_diff)
qed

text \<open>
  The word at offset \<open>x\<close> of the user page at \<open>base\<close>, which is mapped to the page \<open>q\<close>.
\<close>

definition uword :: "kernel \<Rightarrow> u32 \<Rightarrow> nat \<Rightarrow> u32" where
  "uword s q x = read32 (mem s) (q + word_of_nat x)"

lemma page_offset:
  assumes "pga base" and "x < 4096"
  shows "take_bit 12 (base + word_of_nat x) = word_of_nat x"
    and "PGROUNDDOWN (base + word_of_nat x) = base"
    and "unat (base + word_of_nat x) mod 4 = x mod 4"
proof -
  obtain k where k: "unat base = 4096 * k" using assms(1) by (auto simp: pga_dvd dvd_def)
  then have u: "unat (base + word_of_nat x) = 4096 * k + x"
    using assms(2) unat32_less [of base] by (subst unat_add_nat) simp_all
  then have "unat (take_bit 12 (base + word_of_nat x)) = x"
    using assms(2) by (simp add: unat_take_bit12)
  then show t: "take_bit 12 (base + word_of_nat x) = word_of_nat x"
    using assms(2) by (simp add: word_unat_eq_iff unat_word_of_nat_less)
  show "PGROUNDDOWN (base + word_of_nat x) = base"
    using PGROUNDDOWN_diff [of "base + word_of_nat x"] unfolding t by (simp add: algebra_simps)
  show "unat (base + word_of_nat x) mod 4 = x mod 4"
    unfolding u using mod_mult_self2 [of x 4 "1024 * k"] by (simp add: add.commute)
qed

lemma uword_load:
  assumes "user_page s base q" and "pga base" and "x < 4096" and "x mod 4 = 0"
  shows "uload32 (base + word_of_nat x) s = Ok (uword s q x)"
proof -
  note o = page_offset [OF assms(2,3)]
  have "user_page s (base + word_of_nat x) q"
    by (rule user_page_frame [OF assms(1)]) (simp_all add: o PGROUNDDOWN_pga assms(2))
  then show ?thesis using o assms(4) by (simp add: uload32_page uword_def)
qed

lemma uword_store:
  assumes "user_page s base q" and "pga base" and "x < 4096" and "x mod 4 = 0"
  shows "\<exists>m. ustore32 (base + word_of_nat x) v s = Ok (s\<lparr>mem := m\<rparr>) \<and>
    user_page (s\<lparr>mem := m\<rparr>) base q \<and> uword (s\<lparr>mem := m\<rparr>) q x = v \<and>
    (\<forall>y. y < 4096 \<longrightarrow> y mod 4 = 0 \<longrightarrow> y \<noteq> x \<longrightarrow> uword (s\<lparr>mem := m\<rparr>) q y = uword s q y) \<and>
    (\<forall>a. \<not> on_page q a \<longrightarrow> m a = mem s a)"
proof -
  note o = page_offset [OF assms(2,3)]
  let ?m = "write32 (mem s) (q + word_of_nat x) v"
  have q: "pga q" using assms(1) by (simp add: user_page_def Let_def)
  have "user_page s (base + word_of_nat x) q"
    by (rule user_page_frame [OF assms(1)]) (simp_all add: o PGROUNDDOWN_pga assms(2))
  then have "ustore32 (base + word_of_nat x) v s = Ok (s\<lparr>mem := ?m\<rparr>)"
    using o assms(4) by (simp add: ustore32_page)
  moreover have "user_page (s\<lparr>mem := ?m\<rparr>) base q"
    using user_page_write32 [OF assms(1), of "base + word_of_nat x" base v] o assms(4) by simp
  moreover have "uword (s\<lparr>mem := ?m\<rparr>) q y = uword s q y"
    if y: "y < 4096" "y mod 4 = 0" "y \<noteq> x" for y
  proof -
    note o' = page_offset [OF assms(2) y(1)]
    have "(word_of_nat x :: u32) \<noteq> word_of_nat y"
      using y assms(3) by (simp add: word_unat_eq_iff unat_word_of_nat_less)
    then have "apart (q + word_of_nat x) 4 (q + word_of_nat y) 4"
      using page_words_apart [OF q, of "base + word_of_nat x" "base + word_of_nat y"] o o' assms(4) y
      by simp
    then show ?thesis by (simp add: uword_def read32_write32_apart)
  qed
  moreover have "?m a = mem s a" if "\<not> on_page q a" for a
    using write32_off_page [OF q, of "base + word_of_nat x" a "mem s" v] o assms(4) that by simp
  ultimately show ?thesis by (auto simp: uword_def)
qed

section \<open>A concrete address space\<close>

text \<open>
  The examples use a process whose page at 0x2000 is mapped to the kernel page 0x80202000, with the
  page directory at 0x80200000 and one page table at 0x80201000.
\<close>

definition demo_mem :: memory where
  "demo_mem = write32 (write32 (\<lambda>_. 0) 0x80200000 0x201007) 0x80201008 0x202007"

definition demo_user :: "proc \<Rightarrow> kernel" where
  "demo_user r = demo_kernel\<lparr>cr3 := 0x200000, mem := demo_mem, cur := Some 0,
     procs := (\<lambda>_. zero_proc)(0 := r)\<rparr>"

lemma demo_user_simps [simp]:
  "cur (demo_user r) = Some 0" "mem (demo_user r) = demo_mem" "procs (demo_user r) 0 = r"
  "cr3 (demo_user r) = 0x200000" "procs (demo_user r) = (\<lambda>_. zero_proc)(0 := r)"
  by (simp_all add: demo_user_def)

lemma demo_mem_words:
  "read32 demo_mem 0x80200000 = 0x201007" "read32 demo_mem 0x80201008 = 0x202007"
proof -
  have "apart 0x80201008 4 0x80200000 4" by (simp add: apart_def)
  then show "read32 demo_mem 0x80200000 = 0x201007" by (simp add: demo_mem_def read32_write32_apart)
qed (simp add: demo_mem_def)

lemma demo_user_page: "user_page (demo_user r) 0x2000 0x80202000"
proof -
  have x: "PDX 0x2000 = 0" "PTX 0x2000 = 2" by (simp_all add: PDX_def PTX_def)
  have "pde_of (demo_user r) 0x80200000 0x2000 = 0x201007" by (simp add: pde_of_def x demo_mem_words)
  moreover from this have "pgtab_of (demo_user r) 0x80200000 0x2000 = 0x80201000"
    by (simp add: pgtab_of_def PTE_ADDR_def P2V_def)
  ultimately have "pte_of (demo_user r) 0x80200000 0x2000 = 0x202007"
    by (simp add: pte_of_def x demo_mem_words present_def)
  with \<open>pde_of _ _ _ = _\<close> \<open>pgtab_of _ _ _ = _\<close> show ?thesis
    by (simp add: user_page_def Let_def P2V_def present_def writable_def PTE_ADDR_def pga_def)
qed

end
