(* ===== verification/Signals.thy ===== *)
theory Signals
  imports User_Mem
begin

text \<open>
  Signals and alarms: \<open>signal\<close>, \<open>sigsend\<close>, \<open>sigreturn\<close> and \<open>Alarm\<close> of \<^verbatim>\<open>proc.c\<close> and the
  delivery of pending signals on the way back to user mode, \<open>defaultSigHandler\<close>, \<open>pushHandlingSig\<close>
  and \<open>handling_signal\<close> of \<^verbatim>\<open>trap.c\<close>. The return path of a handler, which user code executes, is
  modelled up to the handler itself: its \<^verbatim>\<open>ret\<close> and the code of \<^verbatim>\<open>sigretimplicit\<close> that \<open>exec\<close>
  copies to the user stack.
\<close>

section \<open>System calls on signals\<close>

definition signal :: "int \<Rightarrow> u32 \<Rightarrow> kernel \<Rightarrow> (u32 \<times> kernel) res" where
  "signal sigNum newHandler s =
     (if sigNum < 0 \<or> sigNum > int NUMSIG - 1 then Ok (-1, s)
      else with_proc s (\<lambda>p.
        let handlerToReturn = sighandlers (procs s p) (nat sigNum) in
        Ok (handlerToReturn,
          upd_proc p (\<lambda>r. r\<lparr>sighandlers := (sighandlers r)(nat sigNum := newHandler)\<rparr>) s)))"

definition sigsend :: "int \<Rightarrow> int \<Rightarrow> kernel \<Rightarrow> int \<times> kernel" where
  "sigsend Pid sigNum s =
     (if Pid < 0 \<or> sigNum < 0 \<or> sigNum > int NUMSIG - 1 then (-1, s)
      else case first_slot NPROC (\<lambda>i. pid (procs s i) = Pid) of
        Some p \<Rightarrow> (0, upd_proc p (\<lambda>r. r\<lparr>pending := (pending r)(nat sigNum := 1)\<rparr>) s)
      | None \<Rightarrow> (-1, s))"

text \<open>
  \<open>sigreturn\<close> copies \<^verbatim>\<open>sizeof(struct trapframe)\<close> = 76 bytes from the address of the field
  \<^verbatim>\<open>tfToRestore\<close>, the 19 words that start there: the last three fields of this process and the
  first sixteen words of the next slot of the process table.
\<close>

definition words_at_tfToRestore :: "linkinfo \<Rightarrow> proc \<Rightarrow> proc \<Rightarrow> u32 list" where
  "words_at_tfToRestore l p n =
     [tfToRestore p, sigretAdd p, word_of_int (alarm_ticks_num p),
      sz n, pgdir n, kstack n, word_of_nat (procstate_num (state n)), word_of_int (pid n),
      proc_addr l (parent n), tfp n, ctxp n, lk_chan l (chan n), (if killed n then 1 else 0),
      file_addr l (ofile n 0), file_addr l (ofile n 1), file_addr l (ofile n 2),
      file_addr l (ofile n 3), file_addr l (ofile n 4), file_addr l (ofile n 5)]"

definition tf_of_words :: "u32 list \<Rightarrow> trapframe" where
  "tf_of_words w = \<lparr>tf_edi = w ! 0, tf_esi = w ! 1, tf_ebp = w ! 2, tf_oesp = w ! 3, tf_ebx = w ! 4,
     tf_edx = w ! 5, tf_ecx = w ! 6, tf_eax = w ! 7, tf_gs = ucast (w ! 8), tf_fs = ucast (w ! 9),
     tf_es = ucast (w ! 10), tf_ds = ucast (w ! 11), tf_trapno = w ! 12, tf_err = w ! 13,
     tf_eip = w ! 14, tf_cs = ucast (w ! 15), tf_eflags = w ! 16, tf_esp = w ! 17,
     tf_ss = ucast (w ! 18)\<rparr>"

definition sigreturn :: "kernel \<Rightarrow> (int \<times> kernel) res" where
  "sigreturn s =
     with_proc s (\<lambda>p.
       kbind (cprintf ''proc.c : sigreturn for process %d \<newline>''
           [PInt (word_of_int (pid (procs s p)))] s) (\<lambda>s.
         if NPROC \<le> Suc p then Fault ''sigreturn: past the process table''
         else let t = tf_of_words (words_at_tfToRestore (lnk s) (procs s p) (procs s (Suc p))) in
           Ok (0, upd_proc p (\<lambda>r. r\<lparr>tf := t, procHandlingSigNow := 0\<rparr>) s)))"

section \<open>Alarms\<close>

definition alarm_tick :: "proc \<Rightarrow> proc" where
  "alarm_tick p =
     (if alarm_ticks_num p > 0 then
        let p = p\<lparr>alarm_ticks_num := alarm_ticks_num p - 1\<rparr> in
        if alarm_ticks_num p = 0 then p\<lparr>pending := (pending p)(SIGALRM := 1)\<rparr> else p
      else p)"

definition Alarm :: "kernel \<Rightarrow> kernel" where
  "Alarm s = s\<lparr>procs := (\<lambda>i. if i < NPROC then alarm_tick (procs s i) else procs s i)\<rparr>"

section \<open>Delivery\<close>

definition defaultSigHandler :: "nat \<Rightarrow> kernel \<Rightarrow> kernel res" where
  "defaultSigHandler sigNum s =
     with_proc s (\<lambda>p.
       cprintf ''A signal number %d was accepted by process %d''
         [PInt (word_of_nat sigNum), PInt (word_of_int (pid (procs s p)))] s)"

text \<open>\<^verbatim>\<open>proc->tf->esp -= 4; *((uint*)proc->tf->esp) = v\<close>\<close>

definition push_user :: "nat \<Rightarrow> u32 \<Rightarrow> kernel \<Rightarrow> kernel res" where
  "push_user p v s =
     (let s = upd_proc p (tf_update (\<lambda>t. t\<lparr>tf_esp := tf_esp t - 4\<rparr>)) s
      in ustore32 (tf_esp (tf (procs s p))) v s)"

definition pushHandlingSig :: "nat \<Rightarrow> kernel \<Rightarrow> kernel res" where
  "pushHandlingSig sigIdx s =
     with_proc s (\<lambda>p.
       let s = upd_proc p (pending_update (\<lambda>b. b(sigIdx := 0))) s in
       kbind (push_user p (tf_eip (tf (procs s p))) s) (\<lambda>s.
       kbind (push_user p (word_of_nat sigIdx) s) (\<lambda>s.
       kbind (push_user p (sigretAdd (procs s p)) s) (\<lambda>s.
         Ok (upd_proc p (\<lambda>r. r\<lparr>tf := (tf r)\<lparr>tf_eip := sighandlers r sigIdx\<rparr>\<rparr>) s)))))"

definition handle_one :: "nat \<Rightarrow> kernel \<Rightarrow> kernel res" where
  "handle_one sigIdx s =
     with_proc s (\<lambda>p.
       if pending (procs s p) sigIdx = 1 then
         let s = upd_proc p (pending_update (\<lambda>b. b(sigIdx := 0))) s in
         if sighandlers (procs s p) sigIdx = defualtHandlerAdd then
           kbind (defaultSigHandler sigIdx s)
             (\<lambda>s. Ok (upd_proc p (pending_update (\<lambda>b. b(sigIdx := 0))) s))
         else pushHandlingSig sigIdx s
       else Ok s)"

definition handling_signal :: "kernel \<Rightarrow> kernel res" where
  "handling_signal s =
     (if cur s = None then Ok s else for_each handle_one [0..<NUMSIG] s)"

text \<open>
  What user code does when the handlers have returned: with the stack pointer where the kernel left
  it, the handler at \<^verbatim>\<open>eip\<close> gets the word above the return address as its argument, its \<^verbatim>\<open>ret\<close>
  jumps to the return address, which must be the copy of \<^verbatim>\<open>sigretimplicit\<close>, and that code
  (\<^verbatim>\<open>addl $4,%esp; ret\<close>) drops the argument and pops the next instruction pointer. The result is the
  handlers called with their arguments, in order, and the registers after the last one.
\<close>

fun unwind :: "nat \<Rightarrow> u32 \<Rightarrow> kernel \<Rightarrow> u32 \<Rightarrow> u32 \<Rightarrow> ((u32 \<times> u32) list \<times> u32 \<times> u32) res" where
  "unwind 0 sigret s eip esp = Ok ([], eip, esp)"
| "unwind (Suc n) sigret s eip esp =
     kbind (uload32 esp s) (\<lambda>ret.
       if ret \<noteq> sigret then Fault ''return address''
       else kbind (uload32 (esp + 4) s) (\<lambda>arg.
         kbind (uload32 (esp + 8) s) (\<lambda>eip'.
           kbind (unwind n sigret s eip' (esp + 12)) (\<lambda>(calls, regs).
             Ok ((eip, arg) # calls, regs)))))"

section \<open>Frames on the user stack\<close>

text \<open>
  Process \<open>p\<close> runs with its stack pointer \<open>d\<close> bytes into the page at \<open>base\<close> (or at its end).
\<close>

definition stack_at :: "kernel \<Rightarrow> nat \<Rightarrow> u32 \<Rightarrow> u32 \<Rightarrow> nat \<Rightarrow> bool" where
  "stack_at s p base q d \<longleftrightarrow> cur s = Some p \<and> pga base \<and> user_page s base q \<and>
     tf_esp (tf (procs s p)) = base + word_of_nat d \<and> d mod 4 = 0 \<and> d \<le> 4096"

lemma user_page_cong: "mem s' = mem s \<Longrightarrow> cr3 s' = cr3 s \<Longrightarrow> user_page s' va q = user_page s va q"
  by (simp add: user_page_def pde_of_def pte_of_def pgtab_of_def)

lemma upd_proc_user [simp]:
  "user_page (upd_proc p f s) va q = user_page s va q" "uword (upd_proc p f s) q x = uword s q x"
  "cur (upd_proc p f s) = cur s" "mem (upd_proc p f s) = mem s"
  unfolding upd_proc_def by (rule user_page_cong) (simp_all add: uword_def)

lemma uword_cong: "mem s' = mem s \<Longrightarrow> uword s' q x = uword s q x"
  by (simp add: uword_def)

lemma sub_4_offset: "4 \<le> d \<Longrightarrow> base + word_of_nat d - (4 :: u32) = base + word_of_nat (d - 4)"
  by (simp add: of_nat_diff)

lemma push_user_ok:
  assumes st: "stack_at s p base q d" and d: "4 \<le> d"
  shows "\<exists>m. push_user p v s =
      Ok (upd_proc p (tf_update (\<lambda>t. t\<lparr>tf_esp := tf_esp t - 4\<rparr>)) s\<lparr>mem := m\<rparr>) \<and>
    stack_at (upd_proc p (tf_update (\<lambda>t. t\<lparr>tf_esp := tf_esp t - 4\<rparr>)) s\<lparr>mem := m\<rparr>) p base q (d - 4) \<and>
    uword (s\<lparr>mem := m\<rparr>) q (d - 4) = v \<and>
    (\<forall>y. y < 4096 \<longrightarrow> y mod 4 = 0 \<longrightarrow> y \<noteq> d - 4 \<longrightarrow> uword (s\<lparr>mem := m\<rparr>) q y = uword s q y)"
proof -
  let ?t = "upd_proc p (tf_update (\<lambda>t. t\<lparr>tf_esp := tf_esp t - 4\<rparr>)) s"
  have esp: "tf_esp (tf (procs ?t p)) = base + word_of_nat (d - 4)"
    using st d by (simp add: stack_at_def sub_4_offset)
  have up: "user_page ?t base q" using st by (simp add: stack_at_def)
  have "d mod 4 = 0 \<Longrightarrow> (d - 4) mod 4 = 0" by presburger
  moreover have "pga base" "d - 4 < 4096" "d mod 4 = 0" using st d by (auto simp: stack_at_def)
  ultimately have b: "pga base" "d - 4 < 4096" "(d - 4) mod 4 = 0" by blast+
  then obtain m where m: "ustore32 (base + word_of_nat (d - 4)) v ?t = Ok (?t\<lparr>mem := m\<rparr>)"
    "user_page (?t\<lparr>mem := m\<rparr>) base q" "uword (?t\<lparr>mem := m\<rparr>) q (d - 4) = v"
    "\<forall>y. y < 4096 \<longrightarrow> y mod 4 = 0 \<longrightarrow> y \<noteq> d - 4 \<longrightarrow> uword (?t\<lparr>mem := m\<rparr>) q y = uword ?t q y"
    using uword_store [OF up b, of v] by blast
  have w: "uword (?t\<lparr>mem := m\<rparr>) q y = uword (s\<lparr>mem := m\<rparr>) q y" "uword ?t q y = uword s q y" for y
    by (simp_all add: uword_def upd_proc_def)
  have "push_user p v s = Ok (?t\<lparr>mem := m\<rparr>)" using m(1) esp by (simp add: push_user_def Let_def)
  moreover have "stack_at (?t\<lparr>mem := m\<rparr>) p base q (d - 4)"
    using st d m(2) esp b(2,3) by (simp add: stack_at_def)
  ultimately show ?thesis using m(3,4) unfolding w by blast
qed

text \<open>What signal delivery keeps of a process.\<close>

definition sig_same :: "proc \<Rightarrow> proc \<Rightarrow> bool" where
  "sig_same r r' \<longleftrightarrow> sighandlers r' = sighandlers r \<and> sigretAdd r' = sigretAdd r"

lemma push_user_obtain:
  assumes "stack_at s p base q d" and "4 \<le> d"
  obtains s' where "push_user p v s = Ok s'" and "stack_at s' p base q (d - 4)"
    and "uword s' q (d - 4) = v"
    and "\<forall>y. y < 4096 \<longrightarrow> y mod 4 = 0 \<longrightarrow> y \<noteq> d - 4 \<longrightarrow> uword s' q y = uword s q y"
    and "sig_same (procs s p) (procs s' p)" and "pending (procs s' p) = pending (procs s p)"
    and "tf_eip (tf (procs s' p)) = tf_eip (tf (procs s p))"
proof -
  let ?t = "\<lambda>m. upd_proc p (tf_update (\<lambda>t. t\<lparr>tf_esp := tf_esp t - 4\<rparr>)) s\<lparr>mem := m\<rparr>"
  from push_user_ok [OF assms, of v] obtain m where
    m: "push_user p v s = Ok (?t m)" "stack_at (?t m) p base q (d - 4)"
    "uword (s\<lparr>mem := m\<rparr>) q (d - 4) = v"
    "\<forall>y. y < 4096 \<longrightarrow> y mod 4 = 0 \<longrightarrow> y \<noteq> d - 4 \<longrightarrow> uword (s\<lparr>mem := m\<rparr>) q y = uword s q y"
    by blast
  have w: "uword (s\<lparr>mem := m\<rparr>) q y = uword (?t m) q y" for y by (simp add: uword_def)
  show ?thesis
    by (rule that [OF m(1,2) m(3,4) [unfolded w]]) (simp_all add: sig_same_def)
qed

lemma sig_same_trans: "sig_same a b \<Longrightarrow> sig_same b c \<Longrightarrow> sig_same a c"
  by (simp add: sig_same_def)

text \<open>One frame: the interrupted instruction pointer, the signal number and the return address.\<close>

lemma pushHandlingSig_frame:
  assumes st: "stack_at s p base q d" and d: "12 \<le> d"
  obtains s' where "pushHandlingSig i s = Ok s'" and "stack_at s' p base q (d - 12)"
    and "uword s' q (d - 12) = sigretAdd (procs s p)" and "uword s' q (d - 8) = word_of_nat i"
    and "uword s' q (d - 4) = tf_eip (tf (procs s p))"
    and "\<forall>y. d \<le> y \<longrightarrow> y < 4096 \<longrightarrow> y mod 4 = 0 \<longrightarrow> uword s' q y = uword s q y"
    and "tf_eip (tf (procs s' p)) = sighandlers (procs s p) i" and "sig_same (procs s p) (procs s' p)"
    and "pending (procs s' p) = (pending (procs s p))(i := 0)"
proof -
  define s0 where "s0 = upd_proc p (pending_update (\<lambda>b. b(i := 0))) s"
  have s0: "stack_at s0 p base q d" "sig_same (procs s p) (procs s0 p)"
    "pending (procs s0 p) = (pending (procs s p))(i := 0)"
    "tf_eip (tf (procs s0 p)) = tf_eip (tf (procs s p))" "\<And>y. uword s0 q y = uword s q y"
    using st by (simp_all add: s0_def stack_at_def sig_same_def)
  have d4: "4 \<le> d" "4 \<le> d - 4" "4 \<le> d - 4 - 4" using d by simp_all
  obtain s1 where s1: "push_user p (tf_eip (tf (procs s0 p))) s0 = Ok s1" "stack_at s1 p base q (d - 4)"
    "uword s1 q (d - 4) = tf_eip (tf (procs s0 p))"
    "\<forall>y. y < 4096 \<longrightarrow> y mod 4 = 0 \<longrightarrow> y \<noteq> d - 4 \<longrightarrow> uword s1 q y = uword s0 q y"
    "sig_same (procs s0 p) (procs s1 p)" "pending (procs s1 p) = pending (procs s0 p)"
    by (rule push_user_obtain [OF s0(1) d4(1)])
  obtain s2 where s2: "push_user p (word_of_nat i) s1 = Ok s2" "stack_at s2 p base q (d - 4 - 4)"
    "uword s2 q (d - 4 - 4) = word_of_nat i"
    "\<forall>y. y < 4096 \<longrightarrow> y mod 4 = 0 \<longrightarrow> y \<noteq> d - 4 - 4 \<longrightarrow> uword s2 q y = uword s1 q y"
    "sig_same (procs s1 p) (procs s2 p)" "pending (procs s2 p) = pending (procs s1 p)"
    by (rule push_user_obtain [OF s1(2) d4(2)])
  obtain s3 where s3: "push_user p (sigretAdd (procs s2 p)) s2 = Ok s3"
    "stack_at s3 p base q (d - 4 - 4 - 4)" "uword s3 q (d - 4 - 4 - 4) = sigretAdd (procs s2 p)"
    "\<forall>y. y < 4096 \<longrightarrow> y mod 4 = 0 \<longrightarrow> y \<noteq> d - 4 - 4 - 4 \<longrightarrow> uword s3 q y = uword s2 q y"
    "sig_same (procs s2 p) (procs s3 p)" "pending (procs s3 p) = pending (procs s2 p)"
    by (rule push_user_obtain [OF s2(2) d4(3)])
  define s' where "s' = upd_proc p (\<lambda>r. r\<lparr>tf := (tf r)\<lparr>tf_eip := sighandlers r i\<rparr>\<rparr>) s3"
  have w: "uword s' q y = uword s3 q y" for y by (simp add: s'_def uword_def upd_proc_def)
  have same: "sig_same (procs s p) (procs s2 p)" "sig_same (procs s p) (procs s3 p)"
    using s0(2) s1(5) s2(5) s3(5) by (auto intro: sig_same_trans)
  have le: "d \<le> 4096" using st by (simp add: stack_at_def)
  with d have dd: "d - 4 < 4096" "d - 4 - 4 < 4096" by simp_all
  have mm: "(d - 4) mod 4 = 0" "(d - 4 - 4) mod 4 = 0" using s1(2) s2(2) by (simp_all add: stack_at_def)
  show ?thesis
  proof (rule that)
    show "pushHandlingSig i s = Ok s'"
      using st s1(1) s2(1) s3(1)
      by (simp add: pushHandlingSig_def with_proc_def Let_def s0_def s'_def stack_at_def)
    show "stack_at s' p base q (d - 12)"
      using s3(2) by (simp add: s'_def stack_at_def)
    show "uword s' q (d - 12) = sigretAdd (procs s p)"
      using s3(3) same(1) by (simp add: w sig_same_def)
    show "uword s' q (d - 8) = word_of_nat i" using s3(4) s2(3) dd mm d by (simp add: w)
    show "uword s' q (d - 4) = tf_eip (tf (procs s p))"
      using s3(4) s2(4) s1(3) s0(4) dd mm d by (simp add: w)
    show "\<forall>y. d \<le> y \<longrightarrow> y < 4096 \<longrightarrow> y mod 4 = 0 \<longrightarrow> uword s' q y = uword s q y"
      using s3(4) s2(4) s1(4) d by (simp add: w s0(5))
    show "tf_eip (tf (procs s' p)) = sighandlers (procs s p) i"
      using same(2) by (simp add: s'_def sig_same_def)
    show "sig_same (procs s p) (procs s' p)" using same(2) by (simp add: s'_def sig_same_def)
    show "pending (procs s' p) = (pending (procs s p))(i := 0)"
      using s0(3) s1(6) s2(6) s3(6) by (simp add: s'_def)
  qed
qed

text \<open>Returning through frames only reads the words of those frames.\<close>

lemma unwind_step:
  assumes "user_page s base q" and "pga base" and "d mod 4 = 0" and "d + 12 \<le> 4096"
  shows "unwind (Suc n) sigret s eip (base + word_of_nat d) =
    (if uword s q d \<noteq> sigret then Fault ''return address''
     else kbind (unwind n sigret s (uword s q (d + 8)) (base + word_of_nat (d + 12)))
       (\<lambda>(calls, regs). Ok ((eip, uword s q (d + 4)) # calls, regs)))"
proof -
  have m: "(d + 4) mod 4 = 0" "(d + 8) mod 4 = 0" using assms(3) by presburger+
  note L = uword_load [OF assms(1,2)]
  have e: "base + word_of_nat d + 4 = base + word_of_nat (d + 4)"
    "base + word_of_nat d + 8 = base + word_of_nat (d + 8)"
    "base + word_of_nat d + 12 = base + word_of_nat (d + 12)" by simp_all
  have l: "uload32 (base + word_of_nat d) s = Ok (uword s q d)"
    "uload32 (base + word_of_nat (d + 4)) s = Ok (uword s q (d + 4))"
    "uload32 (base + word_of_nat (d + 8)) s = Ok (uword s q (d + 8))"
    using L [of d] L [of "d + 4"] L [of "d + 8"] m assms(3,4) by (simp_all del: of_nat_add)
  show ?thesis by (simp only: unwind.simps e l kbind.simps)
qed

lemma unwind_cong:
  assumes "user_page s base q" and "user_page s' base q" and "pga base" and "d mod 4 = 0"
    and "d + 12 * n \<le> 4096"
    and "\<forall>y. d \<le> y \<longrightarrow> y < 4096 \<longrightarrow> y mod 4 = 0 \<longrightarrow> uword s' q y = uword s q y"
  shows "unwind n sigret s' eip (base + word_of_nat d) = unwind n sigret s eip (base + word_of_nat d)"
  using assms(4-)
proof (induction n arbitrary: d eip)
  case (Suc n)
  have m: "(d + 4) mod 4 = 0" "(d + 8) mod 4 = 0" "(d + 12) mod 4 = 0"
    using Suc.prems(1) by presburger+
  have le: "d + 12 \<le> 4096" using Suc.prems(2) by simp
  have w: "uword s' q d = uword s q d" "uword s' q (d + 4) = uword s q (d + 4)"
    "uword s' q (d + 8) = uword s q (d + 8)"
    using Suc.prems m le by simp_all
  have "unwind n sigret s' e (base + word_of_nat (d + 12)) =
      unwind n sigret s e (base + word_of_nat (d + 12))" for e
    using Suc.prems m(3) by (intro Suc.IH) simp_all
  then show ?case
    unfolding unwind_step [OF assms(2,3) Suc.prems(1) le] unwind_step [OF assms(1,3) Suc.prems(1) le] w
    by (rule arg_cong)
qed simp

text \<open>The default handler only prints.\<close>

lemma default_message_ok:
  "\<exists>bs. cprintf_out ''A signal number %d was accepted by process %d'' [PInt a, PInt b] = Ok bs"
  by (simp add: emit_def with_int_def)

lemma consputs_user [simp]:
  "user_page (consputs bs s) va q = user_page s va q" "uword (consputs bs s) q x = uword s q x"
  by (rule user_page_cong) (simp_all add: uword_def)

definition caught :: "proc \<Rightarrow> nat \<Rightarrow> bool" where
  "caught r i \<longleftrightarrow> pending r i = 1 \<and> sighandlers r i \<noteq> defualtHandlerAdd"

text \<open>
  The state after the first \<open>n\<close> signals: the signals caught by a handler have a frame each, and
  returning through these frames runs their handlers and comes back to where \<open>s\<close> was.
\<close>

definition delivered :: "kernel \<Rightarrow> nat \<Rightarrow> u32 \<Rightarrow> u32 \<Rightarrow> nat \<Rightarrow> nat \<Rightarrow> kernel \<Rightarrow> bool" where
  "delivered s p base q d n s' \<longleftrightarrow>
     (let r = procs s p; r' = procs s' p; hs = filter (caught r) [0..<n] in
      stack_at s' p base q (d - 12 * length hs) \<and> sig_same r r' \<and>
      pending r' = (\<lambda>i. if i < n \<and> pending r i = 1 then 0 else pending r i) \<and>
      (hs = [] \<longrightarrow> tf_eip (tf r') = tf_eip (tf r)) \<and>
      (hs \<noteq> [] \<longrightarrow> tf_eip (tf r') = sighandlers r (last hs)) \<and>
      unwind (length hs) (sigretAdd r) s' (tf_eip (tf r')) (tf_esp (tf r')) =
        Ok (rev (map (\<lambda>i. (sighandlers r i, word_of_nat i)) hs), tf_eip (tf r), tf_esp (tf r)))"

lemma delivered_0: "stack_at s p base q d \<Longrightarrow> delivered s p base q d 0 s"
  by (simp add: delivered_def sig_same_def Let_def)

lemma delivered_Suc:
  assumes del: "delivered s p base q d n s'" and st: "stack_at s p base q d"
    and room: "12 * length (filter (caught (procs s p)) [0..<Suc n]) \<le> d"
  shows "\<exists>s''. handle_one n s' = Ok s'' \<and> delivered s p base q d (Suc n) s''"
proof -
  let ?r = "procs s p" and ?r' = "procs s' p"
  define hs where "hs = filter (caught ?r) [0..<n]"
  have st': "stack_at s' p base q (d - 12 * length hs)" and same: "sig_same ?r ?r'"
    and pend: "pending ?r' = (\<lambda>i. if i < n \<and> pending ?r i = 1 then 0 else pending ?r i)"
    and unw: "unwind (length hs) (sigretAdd ?r) s' (tf_eip (tf ?r')) (tf_esp (tf ?r')) =
        Ok (rev (map (\<lambda>i. (sighandlers ?r i, word_of_nat i)) hs), tf_eip (tf ?r), tf_esp (tf ?r))"
    and eip: "hs = [] \<longrightarrow> tf_eip (tf ?r') = tf_eip (tf ?r)"
      "hs \<noteq> [] \<longrightarrow> tf_eip (tf ?r') = sighandlers ?r (last hs)"
    using del by (simp_all add: delivered_def hs_def Let_def)
  have cur: "cur s' = Some p" using st' by (simp add: stack_at_def)
  show ?thesis
  proof (cases "pending ?r n = 1")
    case False
    then have "handle_one n s' = Ok s'" using cur pend by (simp add: handle_one_def with_proc_def)
    moreover have "delivered s p base q d (Suc n) s'"
      using del False by (auto simp: delivered_def Let_def caught_def less_Suc_eq fun_eq_iff)
    ultimately show ?thesis by blast
  next
    case True
    define D where "D = d - 12 * length hs"
    define t where "t = upd_proc p (pending_update (\<lambda>b. b(n := 0))) s'"
    have one: "handle_one n s' = (if sighandlers ?r n = defualtHandlerAdd
        then kbind (defaultSigHandler n t) (\<lambda>s. Ok (upd_proc p (pending_update (\<lambda>b. b(n := 0))) s))
        else pushHandlingSig n t)"
      using cur True pend same by (simp add: handle_one_def with_proc_def Let_def t_def sig_same_def)
    have t: "stack_at t p base q D" "sig_same ?r (procs t p)" "tf (procs t p) = tf ?r'"
      "pending (procs t p) = (\<lambda>i. if i < Suc n \<and> pending ?r i = 1 then 0 else pending ?r i)"
      using st' same pend True
      by (auto simp: t_def stack_at_def D_def sig_same_def fun_eq_iff less_Suc_eq)
    have D: "D + 12 * length hs \<le> 4096" "D mod 4 = 0" "pga base" "user_page s' base q"
      and esp: "tf_esp (tf ?r') = base + word_of_nat D"
      using st st' room by (simp_all add: stack_at_def D_def hs_def)
    show ?thesis
    proof (cases "sighandlers ?r n = defualtHandlerAdd")
      case dflt: True
      obtain bs where "defaultSigHandler n t = Ok (consputs bs t)"
        using default_message_ok t(1) by (force simp: defaultSigHandler_def cprintf_def stack_at_def with_proc_def)
      define f where "f = upd_proc p (pending_update (\<lambda>b. b(n := 0))) (consputs bs t)"
      have "handle_one n s' = Ok f" using one dflt \<open>defaultSigHandler n t = _\<close> by (simp add: f_def)
      moreover have hs': "filter (caught ?r) [0..<Suc n] = hs" using dflt by (simp add: hs_def caught_def)
      have f: "stack_at f p base q D" "sig_same ?r (procs f p)" "tf (procs f p) = tf ?r'"
        "pending (procs f p) = (\<lambda>i. if i < Suc n \<and> pending ?r i = 1 then 0 else pending ?r i)"
        using t True by (auto simp: f_def stack_at_def sig_same_def fun_eq_iff)
      have "unwind (length hs) (sigretAdd ?r) f e (base + word_of_nat D) =
          unwind (length hs) (sigretAdd ?r) s' e (base + word_of_nat D)" for e
        using D f(1) by (intro unwind_cong) (auto simp: stack_at_def f_def t_def)
      then have "delivered s p base q d (Suc n) f"
        unfolding delivered_def Let_def hs' using f eip unw esp by (simp add: D_def)
      ultimately show ?thesis by blast
    next
      case catch: False
      have hs': "filter (caught ?r) [0..<Suc n] = hs @ [n]"
        using catch True by (simp add: hs_def caught_def)
      then have D12: "12 \<le> D" using room by (simp add: D_def)
      obtain f where f: "pushHandlingSig n t = Ok f" "stack_at f p base q (D - 12)"
        "uword f q (D - 12) = sigretAdd (procs t p)" "uword f q (D - 8) = word_of_nat n"
        "uword f q (D - 4) = tf_eip (tf (procs t p))"
        "\<forall>y. D \<le> y \<longrightarrow> y < 4096 \<longrightarrow> y mod 4 = 0 \<longrightarrow> uword f q y = uword t q y"
        "tf_eip (tf (procs f p)) = sighandlers (procs t p) n" "sig_same (procs t p) (procs f p)"
        "pending (procs f p) = (pending (procs t p))(n := 0)"
        by (rule pushHandlingSig_frame [OF t(1) D12])
      have h: "sighandlers (procs t p) = sighandlers ?r" "sigretAdd (procs t p) = sigretAdd ?r"
        using t(2) by (simp_all add: sig_same_def)
      have up: "user_page f base q" and espf: "tf_esp (tf (procs f p)) = base + word_of_nat (D - 12)"
        and D12m: "(D - 12) mod 4 = 0" using f(2) by (simp_all add: stack_at_def)
      have resume: "unwind (length hs) (sigretAdd ?r) f e (base + word_of_nat D) =
          unwind (length hs) (sigretAdd ?r) s' e (base + word_of_nat D)" for e
        using D up f(6) by (intro unwind_cong) (auto simp: t_def)
      have "D - 12 + 12 \<le> 4096" "D - 12 + 4 = D - 8" "D - 12 + 8 = D - 4" "D - 12 + 12 = D"
        using D12 D(1) by simp_all
      with unwind_step [OF up D(3) D12m, of "length hs" "sigretAdd ?r" "sighandlers ?r n"]
      have "unwind (Suc (length hs)) (sigretAdd ?r) f (sighandlers ?r n) (base + word_of_nat (D - 12)) =
          Ok ((sighandlers ?r n, word_of_nat n) # rev (map (\<lambda>i. (sighandlers ?r i, word_of_nat i)) hs),
            tf_eip (tf ?r), tf_esp (tf ?r))"
        using f(3-5) h t(3) resume unw esp by simp
      moreover have "D - 12 = d - 12 * length (hs @ [n])" by (simp add: D_def)
      moreover have "pending (procs f p) = (\<lambda>i. if i < Suc n \<and> pending ?r i = 1 then 0 else pending ?r i)"
        using f(9) t(4) True by (auto simp: fun_eq_iff)
      ultimately have "delivered s p base q d (Suc n) f"
        unfolding delivered_def Let_def hs' using f(2,7) h espf sig_same_trans [OF t(2) f(8)] by simp
      with one catch f(1) show ?thesis by auto
    qed
  qed
qed

lemma handling_signal_delivers:
  assumes st: "stack_at s p base q d"
    and room: "12 * length (filter (caught (procs s p)) [0..<NUMSIG]) \<le> d" and "n \<le> NUMSIG"
  shows "\<exists>s'. for_each handle_one [0..<n] s = Ok s' \<and> delivered s p base q d n s'"
  using \<open>n \<le> NUMSIG\<close>
proof (induction n)
  case 0
  then show ?case using delivered_0 [OF st] by simp
next
  case (Suc n)
  then obtain s' where s': "for_each handle_one [0..<n] s = Ok s'" "delivered s p base q d n s'"
    by auto
  have "length (filter (caught (procs s p)) [0..<Suc n]) \<le>
      length (filter (caught (procs s p)) [0..<NUMSIG])"
  proof -
    have "[0..<NUMSIG] = [0..<Suc n] @ [Suc n..<NUMSIG]"
      using Suc.prems by (metis le_add_diff_inverse upt_add_eq_append zero_le)
    then show ?thesis by (metis filter_append le_add1 length_append)
  qed
  then have "12 * length (filter (caught (procs s p)) [0..<Suc n]) \<le> d" using room by linarith
  from delivered_Suc [OF s'(2) st this] s'(1) show ?case by (auto simp: for_each_append)
qed

section \<open>Properties\<close>

text \<open>C1: Signal delivery is transparent: with room on the stack page, \<open>handling_signal\<close> clears every pending signal, pushes one frame per caught signal, and returning through the frames runs the handlers from the highest signal down with their numbers and restores the interrupted eip and esp.\<close>

theorem handling_signal_unwinds:
  assumes "stack_at s p base q d"
    and "sigs = filter (caught (procs s p)) [0..<NUMSIG]" and "12 * length sigs \<le> d"
  shows "\<exists>s'. handling_signal s = Ok s' \<and>
    (\<forall>i<NUMSIG. pending (procs s' p) i \<noteq> 1) \<and>
    tf_esp (tf (procs s' p)) = tf_esp (tf (procs s p)) - 12 * word_of_nat (length sigs) \<and>
    unwind (length sigs) (sigretAdd (procs s p)) s' (tf_eip (tf (procs s' p))) (tf_esp (tf (procs s' p))) =
      Ok (rev (map (\<lambda>i. (sighandlers (procs s p) i, word_of_nat i)) sigs),
        tf_eip (tf (procs s p)), tf_esp (tf (procs s p)))"
proof -
  have cur: "cur s \<noteq> None" and esp: "tf_esp (tf (procs s p)) = base + word_of_nat d"
    using assms(1) by (simp_all add: stack_at_def)
  obtain s' where s': "for_each handle_one [0..<NUMSIG] s = Ok s'" "delivered s p base q d NUMSIG s'"
    using handling_signal_delivers [OF assms(1), of NUMSIG] assms(2,3) by auto
  then have "tf_esp (tf (procs s' p)) = base + word_of_nat (d - 12 * length sigs)"
    by (simp add: delivered_def Let_def assms(2) stack_at_def)
  also have "\<dots> = tf_esp (tf (procs s p)) - 12 * word_of_nat (length sigs)"
    using assms(3) esp by (simp add: of_nat_diff)
  finally have esp': "tf_esp (tf (procs s' p)) =
      tf_esp (tf (procs s p)) - 12 * word_of_nat (length sigs)" .
  have run: "handling_signal s = Ok s'" using s'(1) cur by (auto simp: handling_signal_def)
  have "\<forall>i<NUMSIG. pending (procs s' p) i \<noteq> 1"
    using s'(2) by (simp add: delivered_def Let_def)
  with run esp' s'(2) show ?thesis unfolding delivered_def Let_def assms(2) by blast
qed

definition demo_sig_proc :: proc where
  "demo_sig_proc = zero_proc\<lparr>state := RUNNING, pid := 7, sigretAdd := 0x2FF0,
     pending := (\<lambda>_. 0)(3 := 1, 5 := 1, 14 := 1),
     sighandlers := (\<lambda>_. defualtHandlerAdd)(3 := 0x100, 14 := 0x200),
     tf := zero_tf\<lparr>tf_eip := 0x40, tf_esp := 0x2F80\<rparr>\<rparr>"

theorem handling_signal_unwinds_witness:
  "\<exists>s'. handling_signal (demo_user demo_sig_proc) = Ok s' \<and>
    (\<forall>i<NUMSIG. pending (procs s' 0) i \<noteq> 1) \<and>
    tf_esp (tf (procs s' 0)) = tf_esp (tf (procs (demo_user demo_sig_proc) 0)) - 12 * word_of_nat (length [3, 14 :: nat]) \<and>
    unwind (length [3, 14 :: nat]) (sigretAdd (procs (demo_user demo_sig_proc) 0)) s'
        (tf_eip (tf (procs s' 0))) (tf_esp (tf (procs s' 0))) =
      Ok (rev (map (\<lambda>i. (sighandlers (procs (demo_user demo_sig_proc) 0) i, word_of_nat i)) [3, 14]),
        tf_eip (tf (procs (demo_user demo_sig_proc) 0)), tf_esp (tf (procs (demo_user demo_sig_proc) 0)))"
proof (rule handling_signal_unwinds)
  show "stack_at (demo_user demo_sig_proc) 0 0x2000 0x80202000 0xF80"
    using demo_user_page [of demo_sig_proc] by (simp add: stack_at_def demo_sig_proc_def pga_def)
  show "[3, 14] = filter (caught (procs (demo_user demo_sig_proc) 0)) [0..<NUMSIG]"
    by (simp add: caught_def demo_sig_proc_def upt_conv_Cons)
qed simp

text \<open>C22: An alarm set to \<open>t\<close> ticks fires after exactly \<open>t\<close> calls of \<open>Alarm\<close>: before that the countdown decreases by one per tick and the pending signals do not change; from then on the countdown is 0 and SIGALRM is pending.\<close>

theorem alarm_fires_after:
  assumes "p < NPROC" and "alarm_ticks_num (procs s p) = int t" and "0 < t"
  shows "alarm_ticks_num (procs ((Alarm ^^ n) s) p) = int (t - n) \<and>
    pending (procs ((Alarm ^^ n) s) p) =
      (if n < t then pending (procs s p) else (pending (procs s p))(SIGALRM := 1))"
proof (induction n)
  case 0
  then show ?case using assms by simp
next
  case (Suc n)
  then show ?case
    using assms(1,3) by (auto simp: Alarm_def alarm_tick_def Let_def)
qed

theorem alarm_fires_after_witness:
  "alarm_ticks_num (procs ((Alarm ^^ 9) (demo_user (zero_proc\<lparr>alarm_ticks_num := 5\<rparr>))) 0) = int (5 - 9) \<and>
    pending (procs ((Alarm ^^ 9) (demo_user (zero_proc\<lparr>alarm_ticks_num := 5\<rparr>))) 0) =
      (if 9 < (5 :: nat) then pending (procs (demo_user (zero_proc\<lparr>alarm_ticks_num := 5\<rparr>)) 0)
       else (pending (procs (demo_user (zero_proc\<lparr>alarm_ticks_num := 5\<rparr>)) 0))(SIGALRM := 1))"
  by (rule alarm_fires_after) simp_all




end
