(* ===== verification/Uthread.thy ===== *)
theory Uthread
  imports Signals
begin

text \<open>
  The user-level thread library of \<^verbatim>\<open>uthread.c\<close>: the thread pool, creation, exit, yield with its
  lottery, and join. The state has the library's variables, the memory of the process for the
  initial stacks, and the argument of the last \<^verbatim>\<open>alarm\<close> call (0 when switching is off). The stack that
  \<^verbatim>\<open>malloc\<close> returns and the result of the \<^verbatim>\<open>signal\<close> system call are arguments. A switch of threads
  is the pair of registers that \<open>uthread_yield\<close> loads, or the start of \<^verbatim>\<open>execute_thread\<close>.
\<close>

section \<open>State\<close>

abbreviation (input) "MAX_THREADS \<equiv> (7 :: nat)"
abbreviation (input) "NTICKET \<equiv> (5 :: int)"
abbreviation (input) "UTHREAD_QUANTA \<equiv> (5 :: int)"
abbreviation (input) "STACK_SIZE \<equiv> (4096 :: u32)"

datatype uthread_state = T_FREE | T_RUNNING | T_RUNNABLE | T_SLEEP

record uthread =
  tid :: int
  t_esp :: u32
  t_ebp :: u32
  t_stack :: u32
  t_state :: uthread_state
  ntickets :: int

record ulib =
  pool :: "nat \<Rightarrow> uthread"
  next_tid :: int
  c_index :: nat
  current_ticket_num :: int
  choosen :: int
  randstate :: u32
  alarm_arg :: int
  umem :: memory

definition upd_thread :: "nat \<Rightarrow> (uthread \<Rightarrow> uthread) \<Rightarrow> ulib \<Rightarrow> ulib" where
  "upd_thread i f u = u\<lparr>pool := (pool u)(i := f (pool u i))\<rparr>"

lemma c_index_upd_thread [simp]: "c_index (upd_thread i f u) = c_index u"
  by (simp add: upd_thread_def)

section \<open>Operations\<close>

definition rand :: "ulib \<Rightarrow> u32 \<times> ulib" where
  "rand u = (let r = randstate u * 1664525 + 1013904223 in (r, u\<lparr>randstate := r\<rparr>))"

definition uthread_init :: "u32 \<Rightarrow> ulib \<Rightarrow> int \<times> ulib" where
  "uthread_init sigret u =
     (let u = u\<lparr>pool := (\<lambda>i. if i < MAX_THREADS
                then (pool u i)\<lparr>t_state := T_FREE, ntickets := NTICKET\<rparr> else pool u i),
              next_tid := 1, c_index := 0\<rparr>;
          u = upd_thread 0 (\<lambda>t. t\<lparr>tid := 0, t_stack := 0, t_state := T_RUNNING\<rparr>) u
      in if sigret \<noteq> 0 then (-1, u) else (0, u\<lparr>alarm_arg := UTHREAD_QUANTA\<rparr>))"

text \<open>
  The three words at the top of a new stack: a return address 0, the function and its argument.
\<close>

definition init_stack :: "u32 \<Rightarrow> u32 \<Rightarrow> u32 \<Rightarrow> memory \<Rightarrow> memory" where
  "init_stack stk func arg m =
     write32 (write32 (write32 m (stk + STACK_SIZE - 12) 0) (stk + STACK_SIZE - 8) func)
       (stk + STACK_SIZE - 4) arg"

definition uthread_create :: "u32 \<Rightarrow> u32 \<Rightarrow> u32 \<Rightarrow> ulib \<Rightarrow> int \<times> ulib" where
  "uthread_create func arg malloced u =
     (case first_slot MAX_THREADS (\<lambda>i. t_state (pool u i) = T_FREE) of
        None \<Rightarrow> (-1, u\<lparr>alarm_arg := UTHREAD_QUANTA\<rparr>)
      | Some i \<Rightarrow>
          let u = upd_thread i (\<lambda>t. t\<lparr>tid := next_tid u\<rparr>) u;
              u = u\<lparr>next_tid := next_tid u + 1\<rparr>;
              u = upd_thread i (\<lambda>t. t\<lparr>t_stack := malloced\<rparr>) u;
              u = u\<lparr>umem := init_stack malloced func arg (umem u)\<rparr>;
              u = upd_thread i (\<lambda>t. t\<lparr>t_state := T_RUNNABLE, t_esp := 0, t_ebp := 0\<rparr>) u
          in (tid (pool u i), u\<lparr>alarm_arg := UTHREAD_QUANTA\<rparr>))"

text \<open>The total of the lottery: it starts at -1.\<close>

definition total_tickets :: "(nat \<Rightarrow> uthread) \<Rightarrow> int" where
  "total_tickets ps =
     fold (\<lambda>j n. if t_state (ps j) \<noteq> T_FREE \<and> t_state (ps j) \<noteq> T_SLEEP then n + ntickets (ps j) else n)
       [0..<MAX_THREADS] (-1)"

text \<open>
  The loop that looks for the \<^verbatim>\<open>choosen\<close>-th runnable thread; when it runs off the pool, \<open>j\<close> is
  \<^verbatim>\<open>MAX_THREADS\<close>.
\<close>

fun choose_loop :: "(nat \<Rightarrow> uthread) \<Rightarrow> int \<Rightarrow> int \<Rightarrow> nat list \<Rightarrow> nat" where
  "choose_loop ps ch count [] = MAX_THREADS"
| "choose_loop ps ch count (j # js) =
     (if t_state (ps j) = T_RUNNABLE
      then if ch = count + 1 then j else choose_loop ps ch (count + 1) js
      else choose_loop ps ch count js)"

datatype uswitch = Start u32 | Load u32 u32

text \<open>
  \<^verbatim>\<open>rand() % current_ticket_num\<close> is an unsigned remainder; its result is stored in an \<^verbatim>\<open>int\<close> and divided
  with C's signed division, which rounds towards zero.
\<close>

definition c_div :: "int \<Rightarrow> int \<Rightarrow> int" where
  "c_div a b = (if (a < 0) = (b < 0) then \<bar>a\<bar> div \<bar>b\<bar> else - (\<bar>a\<bar> div \<bar>b\<bar>))"

definition uthread_yield :: "u32 \<Rightarrow> u32 \<Rightarrow> ulib \<Rightarrow> (uswitch \<times> ulib) res" where
  "uthread_yield esp ebp u =
     (let u = u\<lparr>alarm_arg := 0\<rparr>;
          u = upd_thread (c_index u) (\<lambda>t. if t_state t = T_RUNNING then t\<lparr>t_state := T_RUNNABLE\<rparr> else t) u;
          u = upd_thread (c_index u) (\<lambda>t. t\<lparr>t_esp := esp, t_ebp := ebp\<rparr>) u;
          u = u\<lparr>current_ticket_num := total_tickets (pool u)\<rparr>
      in if current_ticket_num u = 0 then Fault ''division by zero''
         else let (r, u) = rand u;
                  randomTicket = sint (r mod word_of_int (current_ticket_num u));
                  u = u\<lparr>choosen := c_div randomTicket NTICKET\<rparr>;
                  j = choose_loop (pool u) (choosen u) (-1) [0..<MAX_THREADS];
                  u = u\<lparr>c_index := j\<rparr>
              in if MAX_THREADS \<le> j then Fault ''uthread_pool: index out of bounds''
                 else let u = upd_thread j (\<lambda>t. t\<lparr>t_state := T_RUNNING\<rparr>) u in
                   if t_esp (pool u j) = 0
                   then Ok (Start (t_stack (pool u j) + STACK_SIZE - 12), u)
                   else Ok (Load (t_esp (pool u j)) (t_ebp (pool u j)), u\<lparr>alarm_arg := UTHREAD_QUANTA\<rparr>))"

text \<open>
  \<open>uthread_exit\<close>: \<open>None\<close> when no thread is left and the process exits, otherwise the state in which
  the first iteration of its last loop that finds a thread calls \<open>uthread_yield\<close>, which does not
  come back to an exited thread. The stack is given to \<^verbatim>\<open>free\<close>.
\<close>

definition exit_wake :: "ulib \<Rightarrow> ulib" where
  "exit_wake u =
     (let u = upd_thread (c_index u) (\<lambda>t. t\<lparr>t_state := T_FREE\<rparr>) (u\<lparr>alarm_arg := 0\<rparr>)
      in u\<lparr>pool := (\<lambda>i. if i < MAX_THREADS \<and> t_state (pool u i) = T_SLEEP
            then (pool u i)\<lparr>t_state := T_RUNNABLE\<rparr> else pool u i)\<rparr>)"

definition uthread_exit :: "u32 \<Rightarrow> u32 \<Rightarrow> ulib \<Rightarrow> (uswitch \<times> ulib) option res" where
  "uthread_exit esp ebp u =
     (let u = exit_wake u in
      case first_slot MAX_THREADS (\<lambda>i. t_state (pool u i) \<noteq> T_FREE) of
        Some _ \<Rightarrow> kbind (uthread_yield esp ebp u) (\<lambda>r. Ok (Some r))
      | None \<Rightarrow> Ok None)"

definition uthred_self :: "ulib \<Rightarrow> int" where
  "uthred_self u = tid (pool u (c_index u))"

text \<open>
  One round of \<open>uthred_join\<close>: it returns a number, or puts the calling thread to sleep and switches;
  when the thread runs again it does another round.
\<close>

datatype join_round = Joined int | Rejoin uswitch

definition uthred_join :: "int \<Rightarrow> u32 \<Rightarrow> u32 \<Rightarrow> ulib \<Rightarrow> (join_round \<times> ulib) res" where
  "uthred_join t esp ebp u =
     (if t \<ge> next_tid u \<or> t < 0 then Ok (Joined (-1), u)
      else case first_slot MAX_THREADS (\<lambda>i. tid (pool u i) = t) of
        Some _ \<Rightarrow>
          kbind (uthread_yield esp ebp
              (upd_thread (c_index u) (\<lambda>r. r\<lparr>t_state := T_SLEEP\<rparr>) (u\<lparr>alarm_arg := 0\<rparr>)))
            (\<lambda>(sw, u). Ok (Rejoin sw, u))
      | None \<Rightarrow> Ok (Joined 0, u\<lparr>alarm_arg := UTHREAD_QUANTA\<rparr>))"

text \<open>\<open>execute_thread\<close> sets the alarm, calls the function and then \<open>uthread_exit\<close>.\<close>

definition execute_thread :: "ulib \<Rightarrow> ulib" where
  "execute_thread u = u\<lparr>alarm_arg := UTHREAD_QUANTA\<rparr>"

section \<open>The lottery\<close>

definition runnables :: "(nat \<Rightarrow> uthread) \<Rightarrow> nat list" where
  "runnables ps = filter (\<lambda>i. t_state (ps i) = T_RUNNABLE) [0..<MAX_THREADS]"

text \<open>Every thread has \<^verbatim>\<open>NTICKET\<close> tickets and no thread is marked running.\<close>

definition pool_ready :: "(nat \<Rightarrow> uthread) \<Rightarrow> bool" where
  "pool_ready ps \<longleftrightarrow> (\<forall>i<MAX_THREADS. ntickets (ps i) = NTICKET \<and> t_state (ps i) \<noteq> T_RUNNING)"

lemma total_tickets_fold:
  assumes "\<forall>i\<in>set js. ntickets (ps i) = NTICKET \<and> t_state (ps i) \<noteq> T_RUNNING"
  shows "fold (\<lambda>j n. if t_state (ps j) \<noteq> T_FREE \<and> t_state (ps j) \<noteq> T_SLEEP then n + ntickets (ps j) else n)
      js n = n + 5 * int (length (filter (\<lambda>i. t_state (ps i) = T_RUNNABLE) js))"
  using assms
proof (induction js arbitrary: n)
  case (Cons j js)
  then show ?case by (cases "t_state (ps j)") auto
qed simp

lemma total_tickets_eq:
  assumes "pool_ready ps"
  shows "total_tickets ps = 5 * int (length (runnables ps)) - 1"
proof -
  have "\<forall>i\<in>set [0..<MAX_THREADS]. ntickets (ps i) = NTICKET \<and> t_state (ps i) \<noteq> T_RUNNING"
    using assms by (simp add: pool_ready_def)
  from total_tickets_fold [OF this, of "-1"] show ?thesis
    unfolding total_tickets_def runnables_def by linarith
qed

lemma choose_loop_eq:
  assumes "count < ch"
  shows "choose_loop ps ch count js =
    (let rs = filter (\<lambda>i. t_state (ps i) = T_RUNNABLE) js; k = nat (ch - count - 1)
     in if k < length rs then rs ! k else MAX_THREADS)"
  using assms
proof (induction js arbitrary: count)
  case (Cons j js)
  have "nat (ch - count - 1) = Suc (nat (ch - (count + 1) - 1))" if "ch \<noteq> count + 1"
    using that Cons.prems by linarith
  with Cons show ?case by (auto simp: Let_def)
qed simp

lemma length_runnables: "length (runnables ps) \<le> MAX_THREADS"
  using length_filter_le [of _ "[0..<MAX_THREADS]"] unfolding runnables_def by simp

text \<open>The ticket drawn is less than the total, so its owner is one of the runnable threads.\<close>

lemma ticket_bounds:
  assumes "N = 5 * int k - 1" and "0 < k" and "k \<le> 7"
  shows "0 \<le> sint ((r :: u32) mod word_of_int N)" and "sint (r mod word_of_int N) < N"
proof -
  have N: "0 < N" "N < 64" using assms by auto
  then have "uint (word_of_int N :: u32) = N" by (simp add: uint_word_of_int)
  then have u: "uint (r mod word_of_int N) = uint r mod N" by (simp add: uint_mod_distrib)
  have b: "0 \<le> uint r mod N" "uint r mod N < N" using N by simp_all
  have "- 2147483648 \<le> uint r mod N" "uint r mod N < 2147483648" using b N by linarith+
  then have "sint (r mod word_of_int N) = uint (r mod word_of_int N)"
    unfolding sint_uint u by (intro signed_take_bit_int_eq_self) simp_all
  with u b show "0 \<le> sint (r mod word_of_int N)" "sint (r mod word_of_int N) < N" by simp_all
qed

lemma lottery_winner:
  fixes r :: u32
  assumes "pool_ready ps" and "runnables ps \<noteq> []"
    and ch_def: "ch = c_div (sint (r mod word_of_int (total_tickets ps))) NTICKET"
  shows "choose_loop ps ch (-1) [0..<MAX_THREADS] \<in> set (runnables ps)"
proof -
  let ?k = "length (runnables ps)" and ?t = "sint (r mod word_of_int (total_tickets ps))"
  have "0 \<le> ?t" "?t < 5 * int ?k - 1"
    using ticket_bounds [OF total_tickets_eq [OF assms(1)], of r] assms(2) length_runnables [of ps]
      total_tickets_eq [OF assms(1)] by simp_all
  then have ch: "0 \<le> ch" "ch < int ?k" by (auto simp: ch_def c_div_def)
  then have "nat ch < ?k" "(-1) < ch" "nat (ch - - 1 - 1) = nat ch" by linarith+
  then have "choose_loop ps ch (-1) [0..<MAX_THREADS] = runnables ps ! nat ch"
    using choose_loop_eq [of "-1" ch ps "[0..<MAX_THREADS]"]
    unfolding runnables_def [symmetric] Let_def by (simp only: if_True)
  with ch show ?thesis by (auto intro: nth_mem)
qed

section \<open>The thread pool\<close>

text \<open>
  Between calls of the library exactly the current thread is marked running, thread identifiers
  are below \<^verbatim>\<open>next_tid\<close>, and each thread has its tickets.
\<close>

definition pool_inv :: "ulib \<Rightarrow> bool" where
  "pool_inv u \<longleftrightarrow> c_index u < MAX_THREADS \<and>
     (\<forall>i<MAX_THREADS. ntickets (pool u i) = NTICKET \<and>
        (t_state (pool u i) = T_RUNNING \<longleftrightarrow> i = c_index u) \<and>
        (t_state (pool u i) \<noteq> T_FREE \<longrightarrow> tid (pool u i) < next_tid u))"

text \<open>What \<open>uthread_yield\<close> does to the current thread before the lottery.\<close>

definition park :: "u32 \<Rightarrow> u32 \<Rightarrow> uthread \<Rightarrow> uthread" where
  "park esp ebp t = (if t_state t = T_RUNNING then t\<lparr>t_state := T_RUNNABLE\<rparr> else t)\<lparr>t_esp := esp, t_ebp := ebp\<rparr>"

lemma park_simps [simp]:
  "t_state (park esp ebp t) = (if t_state t = T_RUNNING then T_RUNNABLE else t_state t)"
  "ntickets (park esp ebp t) = ntickets t" "tid (park esp ebp t) = tid t"
  "t_stack (park esp ebp t) = t_stack t" "t_esp (park esp ebp t) = esp" "t_ebp (park esp ebp t) = ebp"
  by (simp_all add: park_def)

lemma yield_eq:
  assumes "pool_ready (pool v)" and "runnables (pool v) \<noteq> []"
    and "v = (upd_thread (c_index u) (park esp ebp) u)\<lparr>alarm_arg := 0\<rparr>"
  shows "\<exists>j u'. uthread_yield esp ebp u =
      Ok (if t_esp (pool v j) = 0 then Start (t_stack (pool v j) + STACK_SIZE - 12)
          else Load (t_esp (pool v j)) (t_ebp (pool v j)), u') \<and>
    j \<in> set (runnables (pool v)) \<and> c_index u' = j \<and> next_tid u' = next_tid u \<and>
    pool u' = (pool v)(j := (pool v j)\<lparr>t_state := T_RUNNING\<rparr>)"
proof -
  let ?n = "total_tickets (pool v)"
  let ?r = "randstate v * 1664525 + 1013904223"
  let ?ch = "c_div (sint (?r mod word_of_int ?n)) NTICKET"
  define j where "j = choose_loop (pool v) ?ch (-1) [0..<MAX_THREADS]"
  have j: "j \<in> set (runnables (pool v))" unfolding j_def by (rule lottery_winner [OF assms(1,2) refl])
  then have j7: "j < MAX_THREADS" by (simp add: runnables_def)
  have "?n \<noteq> 0" using total_tickets_eq [OF assms(1)] by presburger
  have pv: "pool v = (pool u)(c_index u := park esp ebp (pool u (c_index u)))"
    "randstate v = randstate u"
    by (simp_all add: assms(3) upd_thread_def)
  have upd: "upd_thread (c_index u) (\<lambda>t. t\<lparr>t_esp := esp, t_ebp := ebp\<rparr>)
      (upd_thread (c_index u) (\<lambda>t. if t_state t = T_RUNNING then t\<lparr>t_state := T_RUNNABLE\<rparr> else t)
        (u\<lparr>alarm_arg := 0\<rparr>)) = v"
    by (simp add: assms(3) upd_thread_def park_def)
  define w where "w = (if t_esp (pool v j) = 0 then alarm_arg v else UTHREAD_QUANTA)"
  have "uthread_yield esp ebp u =
      Ok (if t_esp (pool v j) = 0 then Start (t_stack (pool v j) + STACK_SIZE - 12)
          else Load (t_esp (pool v j)) (t_ebp (pool v j)),
        v\<lparr>current_ticket_num := ?n, randstate := ?r, choosen := ?ch, c_index := j,
          pool := (pool v)(j := (pool v j)\<lparr>t_state := T_RUNNING\<rparr>), alarm_arg := w\<rparr>)"
    unfolding uthread_yield_def Let_def using \<open>?n \<noteq> 0\<close> j7 upd
    by (simp add: rand_def Let_def j_def [symmetric] w_def upd_thread_def)
  with j show ?thesis by (simp add: assms(3) upd_thread_def)
qed

text \<open>A yield that finds a runnable thread leaves the pool well formed.\<close>

lemma yield_pool:
  assumes "\<forall>i<MAX_THREADS. ntickets (pool u i) = NTICKET \<and>
      (t_state (pool u i) = T_RUNNING \<longrightarrow> i = c_index u) \<and>
      (t_state (pool u i) \<noteq> T_FREE \<longrightarrow> tid (pool u i) < next_tid u)"
    and "\<exists>i<MAX_THREADS. t_state (pool u i) = T_RUNNABLE \<or> i = c_index u \<and> t_state (pool u i) = T_RUNNING"
  shows "\<exists>j u'. uthread_yield esp ebp u =
      Ok (if esp = 0 \<and> j = c_index u \<or> t_esp (pool u j) = 0 \<and> j \<noteq> c_index u
          then Start (t_stack (pool u j) + STACK_SIZE - 12)
          else if j = c_index u then Load esp ebp else Load (t_esp (pool u j)) (t_ebp (pool u j)), u') \<and>
    j < MAX_THREADS \<and> c_index u' = j \<and> pool_inv u' \<and>
    (t_state (pool u j) = T_RUNNABLE \<or> j = c_index u \<and> t_state (pool u j) = T_RUNNING)"
proof -
  define v where "v = (upd_thread (c_index u) (park esp ebp) u)\<lparr>alarm_arg := 0\<rparr>"
  have pv: "pool v = (pool u)(c_index u := park esp ebp (pool u (c_index u)))"
    by (simp add: v_def upd_thread_def)
  have ready: "pool_ready (pool v)" using assms(1) by (simp add: pool_ready_def pv) blast
  have run: "i \<in> set (runnables (pool v)) \<longleftrightarrow> i < MAX_THREADS \<and>
      (t_state (pool u i) = T_RUNNABLE \<or> i = c_index u \<and> t_state (pool u i) = T_RUNNING)" for i
    by (auto simp: runnables_def pv)
  then have "runnables (pool v) \<noteq> []" using assms(2) by (metis empty_iff empty_set)
  from yield_eq [OF ready this v_def] obtain j u' where y: "uthread_yield esp ebp u =
      Ok (if t_esp (pool v j) = 0 then Start (t_stack (pool v j) + STACK_SIZE - 12)
          else Load (t_esp (pool v j)) (t_ebp (pool v j)), u')"
    "j \<in> set (runnables (pool v))" "c_index u' = j" "next_tid u' = next_tid u"
    "pool u' = (pool v)(j := (pool v j)\<lparr>t_state := T_RUNNING\<rparr>)" by blast
  have keep: "tid (pool v i) = tid (pool u i)" "t_state (pool v i) \<noteq> T_FREE \<longleftrightarrow> t_state (pool u i) \<noteq> T_FREE"
    for i by (simp_all add: pv)
  have j: "j < MAX_THREADS" "t_state (pool u j) = T_RUNNABLE \<or> j = c_index u \<and> t_state (pool u j) = T_RUNNING"
    using y(2) run by blast+
  have "pool_inv u'"
    unfolding pool_inv_def y(3,4)
  proof (intro conjI allI impI)
    fix i
    assume i: "i < MAX_THREADS"
    show "ntickets (pool u' i) = NTICKET" using ready i by (simp add: pool_ready_def y(5))
    show "(t_state (pool u' i) = T_RUNNING) = (i = j)" using ready i by (simp add: pool_ready_def y(5))
    assume "t_state (pool u' i) \<noteq> T_FREE"
    then have "t_state (pool u i) \<noteq> T_FREE" using j(2) keep(2) [of i] by (auto simp: y(5) split: if_splits)
    then have "tid (pool u i) < next_tid u" using assms(1) i by blast
    then show "tid (pool u' i) < next_tid u" by (cases "i = j") (simp_all add: y(5) keep(1))
  qed (rule j(1))
  with y(1,3) j show ?thesis by (intro exI [of _ j] exI [of _ u']) (simp add: pv)
qed

lemma yield_inv:
  assumes "pool_inv u"
  shows "\<exists>sw u'. uthread_yield esp ebp u = Ok (sw, u') \<and> pool_inv u' \<and>
    (t_state (pool u (c_index u')) = T_RUNNABLE \<or> c_index u' = c_index u)"
proof -
  have "\<exists>i<MAX_THREADS. t_state (pool u i) = T_RUNNABLE \<or> i = c_index u \<and> t_state (pool u i) = T_RUNNING"
    using assms by (auto simp: pool_inv_def)
  from yield_pool [OF _ this, of esp ebp] assms show ?thesis unfolding pool_inv_def by blast
qed

lemma create_inv: "pool_inv u \<Longrightarrow> pool_inv (snd (uthread_create func arg m u))"
  by (auto simp: uthread_create_def pool_inv_def upd_thread_def Let_def split: option.splits
      dest!: first_slot_SomeD)

text \<open>Without a runnable thread the search runs off the pool.\<close>

lemma choose_loop_none:
  "\<forall>j\<in>set js. t_state (ps j) \<noteq> T_RUNNABLE \<Longrightarrow> choose_loop ps ch count js = MAX_THREADS"
  by (induction js) auto

lemma yield_none:
  assumes "\<forall>i<MAX_THREADS. ntickets (pool u i) = NTICKET \<and> t_state (pool u i) \<in> {T_FREE, T_SLEEP}"
  shows "uthread_yield esp ebp u = Fault ''uthread_pool: index out of bounds''"
proof -
  define v where "v = (upd_thread (c_index u) (park esp ebp) u)\<lparr>alarm_arg := 0\<rparr>"
  have upd: "upd_thread (c_index u) (\<lambda>t. t\<lparr>t_esp := esp, t_ebp := ebp\<rparr>)
      (upd_thread (c_index u) (\<lambda>t. if t_state t = T_RUNNING then t\<lparr>t_state := T_RUNNABLE\<rparr> else t)
        (u\<lparr>alarm_arg := 0\<rparr>)) = v"
    by (simp add: v_def upd_thread_def park_def)
  have none: "\<forall>j\<in>set [0..<MAX_THREADS]. t_state (pool v j) \<in> {T_FREE, T_SLEEP}"
  proof
    fix j
    assume "j \<in> set [0..<MAX_THREADS]"
    then have "t_state (pool u j) \<in> {T_FREE, T_SLEEP}" using assms by simp
    then show "t_state (pool v j) \<in> {T_FREE, T_SLEEP}" by (auto simp: v_def upd_thread_def)
  qed
  have ready: "pool_ready (pool v)"
    using assms by (auto simp: pool_ready_def v_def upd_thread_def)
  have rn: "runnables (pool v) = []" using none unfolding runnables_def by (auto simp: filter_empty_conv)
  have "total_tickets (pool v) = -1" using total_tickets_eq [OF ready] rn by simp
  moreover have "choose_loop (pool v) ch c [0..<MAX_THREADS] = MAX_THREADS" for ch c
    using none by (intro choose_loop_none) auto
  ultimately show ?thesis unfolding uthread_yield_def Let_def by (simp add: upd rand_def Let_def)
qed

lemma exit_inv:
  assumes "pool_inv u"
  shows "if \<exists>i<MAX_THREADS. i \<noteq> c_index u \<and> t_state (pool u i) \<noteq> T_FREE
    then \<exists>sw u'. uthread_exit esp ebp u = Ok (Some (sw, u')) \<and> pool_inv u' \<and> c_index u' \<noteq> c_index u
    else uthread_exit esp ebp u = Ok None"
proof -
  define w where "w = exit_wake u"
  have st: "t_state (pool w i) = (if i = c_index u then T_FREE
      else if t_state (pool u i) = T_SLEEP then T_RUNNABLE else t_state (pool u i))"
    "ntickets (pool w i) = ntickets (pool u i)" "tid (pool w i) = tid (pool u i)"
    if "i < MAX_THREADS" for i
    using that by (auto simp: w_def exit_wake_def upd_thread_def Let_def)
  have wf: "c_index w = c_index u" "next_tid w = next_tid u"
    by (simp_all add: w_def exit_wake_def upd_thread_def Let_def)
  have live: "t_state (pool w i) \<noteq> T_FREE \<longleftrightarrow> i \<noteq> c_index u \<and> t_state (pool u i) \<noteq> T_FREE"
    if "i < MAX_THREADS" for i using st(1) [OF that] by auto
  have run: "t_state (pool w i) = T_RUNNABLE" if "i < MAX_THREADS" "t_state (pool w i) \<noteq> T_FREE" for i
    using that st(1) [of i] assms by (cases "t_state (pool u i)") (auto simp: pool_inv_def split: if_splits)
  show ?thesis
  proof (cases "first_slot MAX_THREADS (\<lambda>i. t_state (pool w i) \<noteq> T_FREE)")
    case None
    then have "\<forall>i<MAX_THREADS. t_state (pool w i) = T_FREE" by (simp add: first_slot_None_iff)
    then have "\<not> (\<exists>i<MAX_THREADS. i \<noteq> c_index u \<and> t_state (pool u i) \<noteq> T_FREE)" using live by blast
    then show ?thesis using None by (simp only: if_False uthread_exit_def Let_def w_def [symmetric] option.case)
  next
    case (Some i)
    from first_slot_SomeD [OF this] have i: "i < MAX_THREADS" "t_state (pool w i) \<noteq> T_FREE" by blast+
    have ex: "\<exists>i<MAX_THREADS. t_state (pool w i) = T_RUNNABLE \<or> i = c_index w \<and> t_state (pool w i) = T_RUNNING"
      using i run by blast
    have pre: "\<forall>i<MAX_THREADS. ntickets (pool w i) = NTICKET \<and>
        (t_state (pool w i) = T_RUNNING \<longrightarrow> i = c_index w) \<and>
        (t_state (pool w i) \<noteq> T_FREE \<longrightarrow> tid (pool w i) < next_tid w)"
    proof (intro allI impI conjI)
      fix k assume k: "k < MAX_THREADS"
      show "ntickets (pool w k) = NTICKET" using k st(2) assms by (simp add: pool_inv_def)
      show "k = c_index w" if "t_state (pool w k) = T_RUNNING" using run [OF k] that by simp
      show "tid (pool w k) < next_tid w" if "t_state (pool w k) \<noteq> T_FREE"
        using live [OF k] that st(3) [OF k] wf(2) assms k by (simp add: pool_inv_def)
    qed
    from yield_pool [OF pre ex, of esp ebp] obtain sw j u' where
      y: "uthread_yield esp ebp w = Ok (sw, u')" "j < MAX_THREADS" "c_index u' = j" "pool_inv u'"
      "t_state (pool w j) = T_RUNNABLE \<or> j = c_index w \<and> t_state (pool w j) = T_RUNNING" by blast
    then have "j \<noteq> c_index u" using st(1) [of j] wf by auto
    with y Some i live show ?thesis by (auto simp: uthread_exit_def Let_def w_def [symmetric])
  qed
qed

lemma join_inv:
  assumes "pool_inv u" and "uthred_join t esp ebp u = Ok (r, u')"
  shows "pool_inv u'"
proof (cases "t \<ge> next_tid u \<or> t < 0 \<or> first_slot MAX_THREADS (\<lambda>i. tid (pool u i) = t) = None")
  case True
  then have "u' = u \<or> u' = u\<lparr>alarm_arg := UTHREAD_QUANTA\<rparr>"
    using assms(2) by (auto simp: uthred_join_def split: if_splits option.splits)
  then show ?thesis using assms(1) by (auto simp: pool_inv_def)
next
  case False
  define w where "w = upd_thread (c_index u) (\<lambda>r. r\<lparr>t_state := T_SLEEP\<rparr>) (u\<lparr>alarm_arg := 0\<rparr>)"
  have "\<exists>sw. uthread_yield esp ebp w = Ok (sw, u')"
    using assms(2) False by (auto simp: uthred_join_def w_def [symmetric] split: option.splits)
  then obtain sw where y: "uthread_yield esp ebp w = Ok (sw, u')" by blast
  have st: "c_index w = c_index u" "next_tid w = next_tid u"
    "pool w = (pool u)(c_index u := (pool u (c_index u))\<lparr>t_state := T_SLEEP\<rparr>)"
    by (simp_all add: w_def upd_thread_def)
  have pre: "\<forall>i<MAX_THREADS. ntickets (pool w i) = NTICKET \<and>
      (t_state (pool w i) = T_RUNNING \<longrightarrow> i = c_index w) \<and>
      (t_state (pool w i) \<noteq> T_FREE \<longrightarrow> tid (pool w i) < next_tid w)"
  proof -
    have "t_state (pool u (c_index u)) = T_RUNNING" "c_index u < MAX_THREADS"
      using assms(1) unfolding pool_inv_def by blast+
    then have "tid (pool u (c_index u)) < next_tid u"
      using assms(1) unfolding pool_inv_def by (metis uthread_state.distinct(1))
    then show ?thesis using assms(1) by (simp add: pool_inv_def st)
  qed
  show ?thesis
  proof (cases "\<exists>i<MAX_THREADS. t_state (pool w i) = T_RUNNABLE")
    case True
    with yield_pool [OF pre, of esp ebp] y show ?thesis by auto
  next
    case none: False
    have "\<forall>i<MAX_THREADS. ntickets (pool w i) = NTICKET \<and> t_state (pool w i) \<in> {T_FREE, T_SLEEP}"
    proof (intro allI impI conjI)
      fix i assume i: "i < MAX_THREADS"
      show "ntickets (pool w i) = NTICKET" using pre i by blast
      have "t_state (pool w i) \<noteq> T_RUNNING" using assms(1) i by (simp add: st pool_inv_def)
      with none i show "t_state (pool w i) \<in> {T_FREE, T_SLEEP}" by (cases "t_state (pool w i)") auto
    qed
    from yield_none [OF this, of esp ebp] y show ?thesis by simp
  qed
qed

text \<open>The library as a transition system: the calls that a program of threads can make.\<close>

definition ut_init :: "ulib \<Rightarrow> bool" where
  "ut_init u \<longleftrightarrow> (\<exists>r v. u = snd (uthread_init r v))"

inductive ut_step :: "ulib \<Rightarrow> ulib \<Rightarrow> bool" where
  create: "ut_step u (snd (uthread_create func arg m u))"
| yield: "uthread_yield esp ebp u = Ok (sw, u') \<Longrightarrow> ut_step u u'"
| exit: "uthread_exit esp ebp u = Ok (Some (sw, u')) \<Longrightarrow> ut_step u u'"
| join: "uthred_join t esp ebp u = Ok (r, u') \<Longrightarrow> ut_step u u'"

lemma init_pool_inv: "ut_init u \<Longrightarrow> pool_inv u"
  by (auto simp: ut_init_def uthread_init_def upd_thread_def pool_inv_def Let_def split: if_splits)

lemma step_pool_inv: "ut_step u u' \<Longrightarrow> pool_inv u \<Longrightarrow> pool_inv u'"
proof (induction rule: ut_step.induct)
  case (yield esp ebp u sw u')
  then show ?case using yield_inv [of u esp ebp] by auto
next
  case (exit esp ebp u sw u')
  then show ?case using exit_inv [of u esp ebp] by (auto split: if_splits)
qed (auto intro: create_inv join_inv)

interpretation ut: transition_system ut_init ut_step pool_inv
  by unfold_locales (auto intro: init_pool_inv step_pool_inv)

section \<open>Properties\<close>

text \<open>C3: In every reachable state of the thread library exactly the current thread is RUNNING, and a yield always succeeds: it draws a thread of the pool that was runnable (or the caller again) and leaves it the only running one.\<close>

theorem uthread_yield_safe:
  assumes "ut_init u0" and "ut_step\<^sup>*\<^sup>* u0 u"
  shows "(\<forall>i<MAX_THREADS. (t_state (pool u i) = T_RUNNING) = (i = c_index u)) \<and>
    (\<exists>sw u'. uthread_yield esp ebp u = Ok (sw, u') \<and> c_index u' < MAX_THREADS \<and>
      (t_state (pool u (c_index u')) = T_RUNNABLE \<or> c_index u' = c_index u) \<and>
      (\<forall>i<MAX_THREADS. (t_state (pool u' i) = T_RUNNING) = (i = c_index u')))"
proof -
  have inv: "pool_inv u" by (rule ut.reachable_inv [OF assms])
  from yield_inv [OF inv, of esp ebp] obtain sw u' where
    y: "uthread_yield esp ebp u = Ok (sw, u')" "pool_inv u'"
    "t_state (pool u (c_index u')) = T_RUNNABLE \<or> c_index u' = c_index u" by blast
  have "(\<forall>i<MAX_THREADS. (t_state (pool u i) = T_RUNNING) = (i = c_index u))"
    using inv by (simp add: pool_inv_def)
  moreover have "c_index u' < MAX_THREADS"
    "\<forall>i<MAX_THREADS. (t_state (pool u' i) = T_RUNNING) = (i = c_index u')"
    using y(2) by (simp_all add: pool_inv_def)
  ultimately show ?thesis using y(1,3) by blast
qed

definition demo_ulib :: ulib where
  "demo_ulib = \<lparr>pool = (\<lambda>_. \<lparr>tid = 0, t_esp = 0, t_ebp = 0, t_stack = 0, t_state = T_FREE, ntickets = 0\<rparr>),
     next_tid = 0, c_index = 0, current_ticket_num = 0, choosen = 0, randstate = 1, alarm_arg = 0,
     umem = (\<lambda>_. 0)\<rparr>"

definition demo_threads :: ulib where
  "demo_threads = snd (uthread_create 0x40 0x64 0x8000 (snd (uthread_init 0xFFFF demo_ulib)))"

theorem uthread_yield_safe_witness:
  "\<exists>sw u'. uthread_yield 0x3F00 0x3F20 demo_threads = Ok (sw, u') \<and> c_index u' < MAX_THREADS"
proof -
  have "ut_init (snd (uthread_init 0xFFFF demo_ulib))" unfolding ut_init_def by blast
  moreover have "ut_step\<^sup>*\<^sup>* (snd (uthread_init 0xFFFF demo_ulib)) demo_threads"
    unfolding demo_threads_def by (intro r_into_rtranclp ut_step.create)
  ultimately show ?thesis using uthread_yield_safe by blast
qed

text \<open>C26: The lottery is not fair: of the tickets 0 to total - 1, each runnable thread but the last owns exactly NTICKET = 5 and the last one only 4, because the total starts at -1.\<close>

theorem lottery_tickets:
  assumes "pool_ready ps" and "k < length (runnables ps)"
  shows "card {t. 0 \<le> t \<and> t < total_tickets ps \<and>
      choose_loop ps (c_div t NTICKET) (-1) [0..<MAX_THREADS] = runnables ps ! k} =
    (if Suc k = length (runnables ps) then 4 else 5)"
proof -
  let ?n = "length (runnables ps)"
  have dist: "distinct (runnables ps)" by (simp add: runnables_def)
  have owner: "choose_loop ps (c_div t NTICKET) (-1) [0..<MAX_THREADS] = runnables ps ! k \<longleftrightarrow> t div 5 = int k"
    if t: "0 \<le> t" "t < 5 * int ?n - 1" for t
  proof -
    have c: "c_div t NTICKET = t div 5" "0 \<le> t div 5" "nat (t div 5) < ?n" using t by (auto simp: c_div_def)
    then have "choose_loop ps (c_div t NTICKET) (-1) [0..<MAX_THREADS] = runnables ps ! nat (t div 5)"
      using choose_loop_eq [of "-1" "t div 5" ps "[0..<MAX_THREADS]"]
      unfolding runnables_def [symmetric] Let_def by simp
    then show ?thesis using nth_eq_iff_index_eq [OF dist c(3) assms(2)] c by auto
  qed
  have "{t. 0 \<le> t \<and> t < total_tickets ps \<and>
      choose_loop ps (c_div t NTICKET) (-1) [0..<MAX_THREADS] = runnables ps ! k} =
    {t. 0 \<le> t \<and> t < 5 * int ?n - 1 \<and> t div 5 = int k}"
    unfolding total_tickets_eq [OF assms(1)] using owner by blast
  also have "\<dots> = {5 * int k ..< min (5 * int k + 5) (5 * int ?n - 1)}" by auto
  also have "min (5 * int k + 5) (5 * int ?n - 1) = 5 * int k + (if Suc k = ?n then 4 else 5)"
  proof (cases "Suc k = ?n")
    case True
    then have "int ?n = int k + 1" by linarith
    with True show ?thesis by simp
  next
    case False
    then have "int k + 2 \<le> int ?n" using assms(2) by linarith
    with False show ?thesis by (simp add: min_def)
  qed
  finally show ?thesis by simp
qed

definition demo_pool :: "nat \<Rightarrow> uthread" where
  "demo_pool = (\<lambda>_. \<lparr>tid = 0, t_esp = 0, t_ebp = 0, t_stack = 0, t_state = T_FREE, ntickets = 5\<rparr>)
     (1 := \<lparr>tid = 1, t_esp = 0, t_ebp = 0, t_stack = 0, t_state = T_RUNNABLE, ntickets = 5\<rparr>,
      4 := \<lparr>tid = 2, t_esp = 0, t_ebp = 0, t_stack = 0, t_state = T_RUNNABLE, ntickets = 5\<rparr>)"

theorem lottery_tickets_witness:
  "card {t. 0 \<le> t \<and> t < total_tickets demo_pool \<and>
      choose_loop demo_pool (c_div t NTICKET) (-1) [0..<MAX_THREADS] = 4} = 4"
proof -
  have r: "runnables demo_pool = [1, 4]"
    by (simp add: runnables_def demo_pool_def upt_conv_Cons)
  have "pool_ready demo_pool" by (simp add: pool_ready_def demo_pool_def)
  from lottery_tickets [OF this, of 1] show ?thesis by (simp add: r)
qed







end
