(* ===== verification/Sched.thy ===== *)
theory Sched
  imports Signals
begin

text \<open>
  Context switches: \<open>scheduler\<close>, \<open>sched\<close>, \<open>yield\<close>, \<open>sleep\<close> and \<open>kill\<close> of \<^verbatim>\<open>proc.c\<close>, seen from one
  processor. A call of \<open>sched\<close> ends in the scheduler loop; what the process does when the scheduler
  switches back to it is recorded in \<open>kont\<close> and done by \<open>resume\<close>. In these functions the spin
  locks are explicit, because they are handed over at the switch: \<open>heldlk\<close> is the list of locks
  that this processor holds, and acquiring a lock that another processor holds just waits.
\<close>

section \<open>Locks of this processor\<close>

definition acquire_lk :: "lockname \<Rightarrow> kernel \<Rightarrow> kernel res" where
  "acquire_lk l s =
     (let s = s\<lparr>mycpu := pushcli (mycpu s)\<rparr> in
      if l \<in> set (heldlk s) then Panic ''acquire'' else Ok (s\<lparr>heldlk := l # heldlk s\<rparr>))"

definition release_lk :: "lockname \<Rightarrow> kernel \<Rightarrow> kernel res" where
  "release_lk l s =
     (if l \<notin> set (heldlk s) then Panic ''release''
      else let s = s\<lparr>heldlk := remove1 l (heldlk s)\<rparr> in
        kbind (popcli (mycpu s)) (\<lambda>c. Ok (s\<lparr>mycpu := c\<rparr>)))"

section \<open>Leaving the processor\<close>

text \<open>Back in \<open>scheduler\<close> after the \<^verbatim>\<open>swtch\<close> to the process.\<close>

definition scheduler_back :: "kernel \<Rightarrow> kernel" where
  "scheduler_back s = (switchkvm s)\<lparr>cur := None\<rparr>"

definition sched :: "(bool \<Rightarrow> kcont) \<Rightarrow> kernel \<Rightarrow> kernel res" where
  "sched k s =
     (if LPtable \<notin> set (heldlk s) then Panic ''sched ptable.lock''
      else if ncli (mycpu s) \<noteq> 1 then Panic ''sched locks''
      else with_proc s (\<lambda>p.
        if state (procs s p) = RUNNING then Panic ''sched running''
        else if ifl (mycpu s) then Panic ''sched interruptible''
        else Ok (scheduler_back (upd_proc p (\<lambda>r. r\<lparr>kont := k (intena (mycpu s))\<rparr>) s))))"

definition yield :: "kernel \<Rightarrow> kernel res" where
  "yield s =
     kbind (acquire_lk LPtable s) (\<lambda>s.
       with_proc s (\<lambda>p. sched InYield (upd_proc p (\<lambda>r. r\<lparr>state := RUNNABLE\<rparr>) s)))"

definition sleep :: "chan \<Rightarrow> lockname \<Rightarrow> kernel \<Rightarrow> kernel res" where
  "sleep c lk s =
     (case cur s of
        None \<Rightarrow> Panic ''sleep''
      | Some p \<Rightarrow>
          kbind (if lk \<noteq> LPtable then kbind (acquire_lk LPtable s) (release_lk lk) else Ok s) (\<lambda>s.
            sched (\<lambda>b. InSleep b lk) (upd_proc p (\<lambda>r. r\<lparr>chan := c, state := SLEEPING\<rparr>) s)))"

section \<open>Coming back\<close>

text \<open>The end of \<open>sched\<close>: \<^verbatim>\<open>cpu->intena = intena\<close>.\<close>

definition restore_intena :: "bool \<Rightarrow> kernel \<Rightarrow> kernel" where
  "restore_intena b s = s\<lparr>mycpu := (mycpu s)\<lparr>intena := b\<rparr>\<rparr>"

definition sleep_tail :: "lockname \<Rightarrow> kernel \<Rightarrow> kernel res" where
  "sleep_tail lk s =
     with_proc s (\<lambda>p.
       let s = upd_proc p (\<lambda>r. r\<lparr>chan := ChNull\<rparr>) s in
       if lk \<noteq> LPtable then kbind (release_lk LPtable s) (acquire_lk lk) else Ok s)"

definition resume :: "kcont \<Rightarrow> kernel \<Rightarrow> kernel res" where
  "resume k s =
     (case k of
        AtForkret \<Rightarrow> release_lk LPtable s
      | InYield b \<Rightarrow> release_lk LPtable (restore_intena b s)
      | InSleep b lk \<Rightarrow> sleep_tail lk (restore_intena b s)
      | InExit b \<Rightarrow> Panic ''zombie exit'')"

text \<open>
  One round of the scheduler: \<open>scheduler_enter\<close> enables interrupts and takes the lock, \<open>pick\<close> runs
  a runnable process up to where it left the kernel, \<open>scheduler_leave\<close> releases the lock after the
  last slot.
\<close>

definition scheduler_enter :: "kernel \<Rightarrow> kernel res" where
  "scheduler_enter s = acquire_lk LPtable (s\<lparr>mycpu := (mycpu s)\<lparr>ifl := True\<rparr>\<rparr>)"

definition pick :: "nat \<Rightarrow> kernel \<Rightarrow> kernel res" where
  "pick p s =
     (if state (procs s p) \<noteq> RUNNABLE then Ok s
      else kbind (switchuvm p (s\<lparr>cur := Some p\<rparr>)) (\<lambda>s.
        let s = upd_proc p (\<lambda>r. r\<lparr>state := RUNNING\<rparr>) s in resume (kont (procs s p)) s))"

definition scheduler_leave :: "kernel \<Rightarrow> kernel res" where
  "scheduler_leave s = release_lk LPtable s"

section \<open>Kill\<close>

definition kill :: "int \<Rightarrow> kernel \<Rightarrow> int \<times> kernel" where
  "kill n s =
     (case first_slot NPROC (\<lambda>i. pid (procs s i) = n) of
        Some p \<Rightarrow> (0, upd_proc p (\<lambda>r. r\<lparr>killed := True,
          state := (if state r = SLEEPING then RUNNABLE else state r)\<rparr>) s)
      | None \<Rightarrow> (-1, s))"

section \<open>Lock discipline\<close>

definition lk_inv :: "kernel \<Rightarrow> bool" where
  "lk_inv s \<longleftrightarrow> ncli (mycpu s) = int (length (heldlk s)) \<and> distinct (heldlk s) \<and>
     (heldlk s \<noteq> [] \<longrightarrow> \<not> ifl (mycpu s))"

text \<open>Only the locks and the processor's flags may change.\<close>

definition same_procs :: "kernel \<Rightarrow> kernel \<Rightarrow> bool" where
  "same_procs s s' \<longleftrightarrow> procs s' = procs s \<and> cur s' = cur s"

lemma acquire_ok:
  assumes "lk_inv s" and "l \<notin> set (heldlk s)"
  obtains s' where "acquire_lk l s = Ok s'" and "lk_inv s'" and "heldlk s' = l # heldlk s"
    and "same_procs s s'"
  using assms by (force simp: acquire_lk_def lk_inv_def pushcli_def Let_def same_procs_def)

lemma release_ok:
  assumes "lk_inv s" and "l \<in> set (heldlk s)"
  obtains s' where "release_lk l s = Ok s'" and "lk_inv s'" and "heldlk s' = remove1 l (heldlk s)"
    and "same_procs s s'"
proof -
  have n: "0 < length (heldlk s)" "heldlk s \<noteq> []" using assms(2) by (cases "heldlk s"; simp)+
  then have il: "int (length (heldlk s)) - 1 = int (length (heldlk s) - Suc 0)" by linarith
  let ?c = "(mycpu s)\<lparr>ncli := ncli (mycpu s) - 1\<rparr>"
  let ?c' = "if ncli ?c = 0 \<and> intena ?c then ?c\<lparr>ifl := True\<rparr> else ?c"
  have pop: "popcli (mycpu s) = Ok ?c'"
    using assms(1) n by (simp add: popcli_def lk_inv_def Let_def)
  have len: "length (remove1 l (heldlk s)) = length (heldlk s) - Suc 0"
    and dist: "distinct (remove1 l (heldlk s))"
    using assms by (simp_all add: length_remove1 lk_inv_def)
  have c1: "ncli ?c' = int (length (remove1 l (heldlk s)))"
    using assms(1) by (simp add: lk_inv_def len il)
  have c2: "\<not> ifl ?c'" if "remove1 l (heldlk s) \<noteq> []"
    using assms(1) n that len by (auto simp: lk_inv_def)
  have "lk_inv (s\<lparr>heldlk := remove1 l (heldlk s), mycpu := ?c'\<rparr>)"
    unfolding lk_inv_def using c1 c2 dist by simp
  then show ?thesis
    using that [of "s\<lparr>heldlk := remove1 l (heldlk s), mycpu := ?c'\<rparr>"] assms(2) pop
    by (auto simp: release_lk_def same_procs_def Let_def)
qed

text \<open>One running process per processor, and every process that can be run has a way to continue.\<close>

definition runnable_ok :: "proc \<Rightarrow> bool" where
  "runnable_ok r \<longleftrightarrow>
     (state r \<in> {RUNNABLE, SLEEPING, RUNNING} \<longrightarrow> pgdir r \<noteq> 0) \<and>
     (state r = RUNNABLE \<longrightarrow> (\<forall>b. kont r \<noteq> InExit b)) \<and>
     (state r = SLEEPING \<longrightarrow> (\<exists>b lk. kont r = InSleep b lk))"

definition sched_inv :: "kernel \<Rightarrow> bool" where
  "sched_inv s \<longleftrightarrow> lk_inv s \<and> (\<forall>i<NPROC. runnable_ok (procs s i)) \<and>
     (case cur s of
        None \<Rightarrow> (\<forall>i<NPROC. state (procs s i) \<noteq> RUNNING) \<and> heldlk s \<in> {[], [LPtable]}
      | Some p \<Rightarrow> p < NPROC \<and>
          (\<forall>i<NPROC. state (procs s i) = RUNNING \<longleftrightarrow> i = p))"

text \<open>What the processor does: the scheduler's rounds, and the kernel code of the running process.\<close>

inductive sched_step :: "kernel \<Rightarrow> kernel \<Rightarrow> bool" where
  enter: "cur s = None \<Longrightarrow> heldlk s = [] \<Longrightarrow> scheduler_enter s = Ok s' \<Longrightarrow> sched_step s s'"
| leave: "cur s = None \<Longrightarrow> heldlk s = [LPtable] \<Longrightarrow> scheduler_leave s = Ok s' \<Longrightarrow> sched_step s s'"
| picked: "cur s = None \<Longrightarrow> heldlk s = [LPtable] \<Longrightarrow> p < NPROC \<Longrightarrow> pick p s = Ok s' \<Longrightarrow>
    sched_step s s'"
| lock: "cur s = Some p \<Longrightarrow> acquire_lk l s = Ok s' \<Longrightarrow> sched_step s s'"
| unlock: "cur s = Some p \<Longrightarrow> release_lk l s = Ok s' \<Longrightarrow> sched_step s s'"
| yielded: "cur s = Some p \<Longrightarrow> heldlk s = [] \<Longrightarrow> yield s = Ok s' \<Longrightarrow> sched_step s s'"
| slept: "cur s = Some p \<Longrightarrow> heldlk s = [lk] \<Longrightarrow> sleep c lk s = Ok s' \<Longrightarrow> sched_step s s'"
| woken: "LPtable \<notin> set (heldlk s) \<Longrightarrow> sched_step s (wakeup c s)"
| killed: "LPtable \<notin> set (heldlk s) \<Longrightarrow> sched_step s (snd (kill n s))"

definition sched_init :: "kernel \<Rightarrow> bool" where
  "sched_init s \<longleftrightarrow> cur s = None \<and> heldlk s = [] \<and> ncli (mycpu s) = 0 \<and>
     (\<forall>i<NPROC. state (procs s i) = UNUSED \<or>
        state (procs s i) = RUNNABLE \<and> kont (procs s i) = AtForkret \<and> pgdir (procs s i) \<noteq> 0)"

lemma enter_ok:
  assumes "sched_inv s" and "cur s = None" and "heldlk s = []"
  shows "\<exists>s'. scheduler_enter s = Ok s' \<and> sched_inv s'"
proof -
  let ?s = "s\<lparr>mycpu := (mycpu s)\<lparr>ifl := True\<rparr>\<rparr>"
  have "lk_inv ?s" using assms by (simp add: sched_inv_def lk_inv_def)
  then obtain s' where "acquire_lk LPtable ?s = Ok s'" "lk_inv s'" "heldlk s' = [LPtable]"
    "same_procs ?s s'" using acquire_ok [of ?s LPtable] assms(3) by auto
  with assms show ?thesis by (auto simp: scheduler_enter_def sched_inv_def same_procs_def)
qed

lemma leave_ok:
  assumes "sched_inv s" and "cur s = None" and "heldlk s = [LPtable]"
  shows "\<exists>s'. scheduler_leave s = Ok s' \<and> sched_inv s'"
proof -
  from assms obtain s' where "release_lk LPtable s = Ok s'" "lk_inv s'" "heldlk s' = []"
    "same_procs s s'" using release_ok [of s LPtable] by (auto simp: sched_inv_def)
  with assms show ?thesis by (auto simp: scheduler_leave_def sched_inv_def same_procs_def)
qed

lemma sched_ok:
  assumes "lk_inv s" and "heldlk s = [LPtable]" and "cur s = Some p" and "state (procs s p) \<noteq> RUNNING"
  shows "sched k s = Ok (scheduler_back (upd_proc p (\<lambda>r. r\<lparr>kont := k (intena (mycpu s))\<rparr>) s))"
  using assms by (simp add: sched_def with_proc_def lk_inv_def)

lemma back_inv:
  assumes "sched_inv s0" and "cur s0 = Some p" and "same_procs s0 s" and "lk_inv s"
    and "heldlk s = [LPtable]"
    and "runnable_ok (f (procs s0 p))" and "state (f (procs s0 p)) \<noteq> RUNNING"
  shows "sched_inv (scheduler_back (upd_proc p f s))"
  using assms by (auto simp: sched_inv_def scheduler_back_def switchkvm_def lk_inv_def upd_proc_def
      same_procs_def)

lemma yield_ok:
  assumes inv: "sched_inv s" and cur: "cur s = Some p" and "heldlk s = []"
  shows "\<exists>s'. yield s = Ok s' \<and> sched_inv s'"
proof -
  obtain s1 where s1: "acquire_lk LPtable s = Ok s1" "lk_inv s1" "heldlk s1 = [LPtable]"
    "same_procs s s1" using assms acquire_ok [of s LPtable] by (auto simp: sched_inv_def)
  let ?f = "\<lambda>r. r\<lparr>state := RUNNABLE, kont := InYield (intena (mycpu s1))\<rparr>"
  have "yield s = Ok (scheduler_back (upd_proc p ?f s1))"
    using s1 cur by (simp add: yield_def with_proc_def same_procs_def sched_ok lk_inv_def)
      (simp add: sched_def with_proc_def upd_proc_def lk_inv_def)
  moreover have "sched_inv (scheduler_back (upd_proc p ?f s1))"
    using inv cur s1 by (intro back_inv [of s]) (auto simp: runnable_ok_def sched_inv_def)
  ultimately show ?thesis by blast
qed

lemma sleep_ok:
  assumes inv: "sched_inv s" and cur: "cur s = Some p" and held: "heldlk s = [lk]"
  shows "\<exists>s'. sleep c lk s = Ok s' \<and> sched_inv s' \<and> state (procs s' p) = SLEEPING \<and>
    chan (procs s' p) = c"
proof -
  have "\<exists>s1. (if lk \<noteq> LPtable then kbind (acquire_lk LPtable s) (release_lk lk) else Ok s) = Ok s1 \<and>
      lk_inv s1 \<and> heldlk s1 = [LPtable] \<and> same_procs s s1"
  proof (cases "lk = LPtable")
    case False
    obtain t where t: "acquire_lk LPtable s = Ok t" "lk_inv t" "heldlk t = [LPtable, lk]" "same_procs s t"
      using acquire_ok [of s LPtable] inv held False by (auto simp: sched_inv_def)
    obtain u where "release_lk lk t = Ok u" "lk_inv u" "heldlk u = [LPtable]" "same_procs t u"
      using release_ok [of t lk] t False by auto
    with t False show ?thesis by (auto simp: same_procs_def)
  qed (use inv held in \<open>auto simp: sched_inv_def same_procs_def\<close>)
  then obtain s1 where s1:
    "(if lk \<noteq> LPtable then kbind (acquire_lk LPtable s) (release_lk lk) else Ok s) = Ok s1"
    "lk_inv s1" "heldlk s1 = [LPtable]" "same_procs s s1" by blast
  let ?f = "\<lambda>r. r\<lparr>chan := c, state := SLEEPING, kont := InSleep (intena (mycpu s1)) lk\<rparr>"
  have "sleep c lk s = Ok (scheduler_back (upd_proc p ?f s1))"
    unfolding sleep_def cur option.case s1(1)
    using s1 cur by (simp add: same_procs_def sched_def with_proc_def upd_proc_def lk_inv_def)
  moreover have "sched_inv (scheduler_back (upd_proc p ?f s1))"
    using inv cur s1 by (intro back_inv [of s]) (auto simp: runnable_ok_def sched_inv_def)
  ultimately show ?thesis by (simp add: scheduler_back_def switchkvm_def)
qed

lemma switchuvm_ok:
  assumes "cur s = Some p" and "pgdir (procs s p) \<noteq> 0" and "0 < ncli (mycpu s)" and "\<not> ifl (mycpu s)"
  shows "switchuvm p s = Ok (s\<lparr>cr3 := V2P (pgdir (procs s p))\<rparr>)"
proof -
  have "ncli_update (\<lambda>_. ncli c) (ifl_update (\<lambda>_. False) c) = c" if "\<not> ifl c" for c :: cpu
    using that by (cases c) simp
  with assms show ?thesis
    by (simp add: switchuvm_def with_proc_def pushcli_def popcli_def Let_def)
qed

lemma resume_ok:
  assumes inv: "lk_inv s" and held: "heldlk s = [LPtable]" and cur: "cur s = Some p"
    and k: "\<And>b. k \<noteq> InExit b"
  shows "\<exists>s'. resume k s = Ok s' \<and> lk_inv s' \<and> cur s' = Some p \<and>
    heldlk s' = (case k of InSleep b lk \<Rightarrow> [lk] | _ \<Rightarrow> []) \<and>
    procs s' = (case k of InSleep b lk \<Rightarrow> (procs s)(p := (procs s p)\<lparr>chan := ChNull\<rparr>) | _ \<Rightarrow> procs s)"
proof -
  have ri: "lk_inv (restore_intena b s)" "heldlk (restore_intena b s) = [LPtable]"
    "same_procs s (restore_intena b s)" for b
    using inv held by (simp_all add: restore_intena_def lk_inv_def same_procs_def)
  show ?thesis
  proof (cases k)
    case AtForkret
    obtain t where "release_lk LPtable s = Ok t" "lk_inv t" "heldlk t = []" "same_procs s t"
      using release_ok [OF inv, of LPtable] held by auto
    with AtForkret cur show ?thesis by (auto simp: resume_def same_procs_def)
  next
    case (InYield b)
    obtain t where "release_lk LPtable (restore_intena b s) = Ok t" "lk_inv t" "heldlk t = []"
      "same_procs (restore_intena b s) t"
      using release_ok [OF ri(1), of LPtable b] ri(2) by auto
    with InYield cur ri(3) [of b] show ?thesis by (auto simp: resume_def same_procs_def)
  next
    case (InSleep b lk)
    define t where "t = upd_proc p (\<lambda>r. r\<lparr>chan := ChNull\<rparr>) (restore_intena b s)"
    have t: "lk_inv t" "heldlk t = [LPtable]" "cur t = Some p"
      "procs t = (procs s)(p := (procs s p)\<lparr>chan := ChNull\<rparr>)"
      using ri [of b] cur by (auto simp: t_def lk_inv_def same_procs_def upd_proc_def)
    have run: "resume k s = (if lk \<noteq> LPtable then kbind (release_lk LPtable t) (acquire_lk lk) else Ok t)"
      using ri(3) [of b] cur InSleep
      by (simp add: resume_def sleep_tail_def with_proc_def t_def Let_def same_procs_def)
    show ?thesis
    proof (cases "lk = LPtable")
      case False
      obtain u where u: "release_lk LPtable t = Ok u" "lk_inv u" "heldlk u = []" "same_procs t u"
        using release_ok [OF t(1), of LPtable] t(2) by auto
      obtain v where "acquire_lk lk u = Ok v" "lk_inv v" "heldlk v = [lk]" "same_procs u v"
        using acquire_ok [OF u(2), of lk] u(3) by auto
      with run u t InSleep False show ?thesis by (auto simp: same_procs_def)
    qed (use run t InSleep in auto)
  qed (use k in simp)
qed

lemma pick_ok:
  assumes inv: "sched_inv s" and cur: "cur s = None" and held: "heldlk s = [LPtable]" and p: "p < NPROC"
  shows "\<exists>s'. pick p s = Ok s' \<and> sched_inv s'"
proof (cases "state (procs s p) = RUNNABLE")
  case True
  let ?s = "s\<lparr>cur := Some p\<rparr>"
  define t where "t = upd_proc p (\<lambda>r. r\<lparr>state := RUNNING\<rparr>) (?s\<lparr>cr3 := V2P (pgdir (procs s p))\<rparr>)"
  have r: "runnable_ok (procs s p)" and nr: "\<forall>i<NPROC. state (procs s i) \<noteq> RUNNING"
    and ok: "\<forall>i<NPROC. runnable_ok (procs s i)"
    using inv cur p by (auto simp: sched_inv_def)
  have sw: "switchuvm p ?s = Ok (?s\<lparr>cr3 := V2P (pgdir (procs ?s p))\<rparr>)"
    using inv held r True by (intro switchuvm_ok) (auto simp: sched_inv_def lk_inv_def runnable_ok_def)
  have "lk_inv t" "heldlk t = [LPtable]" "cur t = Some p"
    using inv held by (simp_all add: t_def sched_inv_def lk_inv_def upd_proc_def)
  moreover have "kont (procs t p) \<noteq> InExit b" for b using r True by (simp add: t_def runnable_ok_def)
  ultimately obtain s' where s': "resume (kont (procs t p)) t = Ok s'" "lk_inv s'" "cur s' = Some p"
    "procs s' = (case kont (procs t p) of
      InSleep b lk \<Rightarrow> (procs t)(p := (procs t p)\<lparr>chan := ChNull\<rparr>) | _ \<Rightarrow> procs t)"
    using resume_ok [of t p "kont (procs t p)"] by blast
  have "pick p s = Ok s'" using True sw s'(1) by (simp add: pick_def t_def Let_def)
  moreover have "state (procs s' i) = (if i = p then RUNNING else state (procs s i))"
    "runnable_ok (procs s' i)" if "i < NPROC" for i
    using s'(4) ok r True that
    by (auto simp: t_def runnable_ok_def upd_proc_def split: kcont.splits)
  ultimately show ?thesis using s' nr p by (auto simp: sched_inv_def)
qed (use inv in \<open>auto simp: pick_def\<close>)

lemma table_step_inv:
  assumes "sched_inv s" and "s' = s\<lparr>procs := ps\<rparr>"
    and "\<And>i. i < NPROC \<Longrightarrow> runnable_ok (procs s i) \<Longrightarrow> runnable_ok (ps i) \<and>
      (state (ps i) = RUNNING \<longleftrightarrow> state (procs s i) = RUNNING)"
  shows "sched_inv s'"
  using assms by (auto simp: sched_inv_def lk_inv_def split: option.splits)

lemma wakeup_inv: "sched_inv s \<Longrightarrow> sched_inv (wakeup c s)"
proof (rule table_step_inv)
  fix i
  assume "runnable_ok (procs s i)"
  then show "runnable_ok (wakeup1 c (procs s) i) \<and>
      (state (wakeup1 c (procs s) i) = RUNNING \<longleftrightarrow> state (procs s i) = RUNNING)"
    by (cases "state (procs s i) = SLEEPING \<and> chan (procs s i) = c")
      (auto simp: wakeup1_def runnable_ok_def)
qed (simp_all add: wakeup_def)

lemma kill_inv:
  assumes "sched_inv s"
  shows "sched_inv (snd (kill n s))"
proof (cases "first_slot NPROC (\<lambda>i. pid (procs s i) = n)")
  case (Some p)
  let ?r = "(procs s p)\<lparr>killed := True,
    state := (if state (procs s p) = SLEEPING then RUNNABLE else state (procs s p))\<rparr>"
  have e: "snd (kill n s) = s\<lparr>procs := (procs s)(p := ?r)\<rparr>" by (simp add: kill_def Some upd_proc_def)
  have "runnable_ok (procs s p) \<Longrightarrow> runnable_ok ?r" by (auto simp: runnable_ok_def)
  then show ?thesis by (intro table_step_inv [OF assms e]) auto
qed (simp add: kill_def assms)

lemma lock_step_inv:
  assumes "sched_inv s" and "cur s = Some p" and "lk_inv s'" and "same_procs s s'"
  shows "sched_inv s'"
  using assms by (auto simp: sched_inv_def same_procs_def)

lemma step_sched_inv:
  assumes "sched_step s s'" and "sched_inv s"
  shows "sched_inv s'"
  using assms
proof (induction rule: sched_step.induct)
  case (enter s s')
  then show ?case using enter_ok [of s] by auto
next
  case (leave s s')
  then show ?case using leave_ok [of s] by auto
next
  case (picked s p s')
  then show ?case using pick_ok [of s p] by auto
next
  case (lock s p l s')
  have l: "lk_inv s" using lock by (simp add: sched_inv_def)
  have "l \<notin> set (heldlk s)" using lock(2) by (auto simp: acquire_lk_def Let_def)
  then obtain t where "acquire_lk l s = Ok t" "lk_inv t" "same_procs s t"
    using acquire_ok [OF l] by blast
  with lock show ?case by (intro lock_step_inv [of s p s']) auto
next
  case (unlock s p l s')
  have l: "lk_inv s" using unlock by (simp add: sched_inv_def)
  have "l \<in> set (heldlk s)" using unlock(2) by (auto simp: release_lk_def split: if_splits)
  then obtain t where "release_lk l s = Ok t" "lk_inv t" "same_procs s t"
    using release_ok [OF l] by blast
  with unlock show ?case by (intro lock_step_inv [of s p s']) auto
next
  case (yielded s p s')
  then show ?case using yield_ok [of s p] by auto
next
  case (slept s p lk c s')
  then show ?case using sleep_ok [of s p lk c] by auto
qed (simp_all add: wakeup_inv kill_inv)

lemma init_sched_inv: "sched_init s \<Longrightarrow> sched_inv s"
  by (auto simp: sched_init_def sched_inv_def lk_inv_def runnable_ok_def)

interpretation sched: transition_system sched_init sched_step sched_inv
  by unfold_locales (auto intro: init_sched_inv step_sched_inv)

section \<open>Properties\<close>


definition demo_sched :: kernel where
  "demo_sched = demo_kernel\<lparr>procs := (\<lambda>_. zero_proc)
     (0 := zero_proc\<lparr>state := RUNNABLE, pgdir := 0x80200000, pid := 1\<rparr>)\<rparr>"

lemma demo_sched_init: "sched_init demo_sched"
  by (simp add: sched_init_def demo_sched_def zero_proc_def)


text \<open>C5: The panics of the scheduler never happen: in every reachable state, a running process without locks can yield, one that holds exactly the lock it passes can sleep on any channel, and the scheduler can enter a round, run every runnable process and leave the round.\<close>

theorem scheduling_never_panics:
  assumes "sched_init s0" and "sched_step\<^sup>*\<^sup>* s0 s"
  shows "(cur s \<noteq> None \<and> heldlk s = [] \<longrightarrow> (\<exists>s'. yield s = Ok s')) \<and>
    (cur s \<noteq> None \<and> heldlk s = [lk] \<longrightarrow> (\<exists>s'. sleep c lk s = Ok s')) \<and>
    (cur s = None \<and> heldlk s = [] \<longrightarrow> (\<exists>s'. scheduler_enter s = Ok s')) \<and>
    (cur s = None \<and> heldlk s = [LPtable] \<longrightarrow>
      (\<exists>s'. scheduler_leave s = Ok s') \<and> (\<forall>p<NPROC. \<exists>s'. pick p s = Ok s'))"
  using sched.reachable_inv [OF assms] yield_ok [of s] sleep_ok [of s _ lk c] enter_ok [of s]
    leave_ok [of s] pick_ok [of s] by blast

theorem scheduling_never_panics_witness: "\<exists>s'. scheduler_enter demo_sched = Ok s'"
  using scheduling_never_panics [OF demo_sched_init rtranclp.rtrancl_refl]
  by (simp add: demo_sched_def)

text \<open>C8: A process that sleeps with a lock, is woken on its channel and is picked again continues with exactly that lock held, RUNNING, off every channel and with the interrupt state it had; nothing else of it changed.\<close>

theorem sleep_wakeup_resumes:
  assumes "sched_inv s" and "cur s = Some p" and "heldlk s = [lk]" and "lk \<noteq> LPtable"
  shows "\<exists>s1 s2 s3 s4. sleep c lk s = Ok s1 \<and> state (procs s1 p) = SLEEPING \<and> heldlk s1 = [LPtable] \<and>
    scheduler_leave s1 = Ok s2 \<and> scheduler_enter (wakeup c s2) = Ok s3 \<and> pick p s3 = Ok s4 \<and>
    cur s4 = Some p \<and> heldlk s4 = [lk] \<and> intena (mycpu s4) = intena (mycpu s) \<and>
    procs s4 p = (procs s p)\<lparr>chan := ChNull, kont := InSleep (intena (mycpu s)) lk\<rparr>"
proof -
  obtain c' where c': "mycpu s = c'" "ncli c' = 1" "\<not> ifl c'"
    using assms(1,3) by (simp add: sched_inv_def lk_inv_def)
  have p: "p < NPROC" "state (procs s p) = RUNNING" "pgdir (procs s p) \<noteq> 0"
    using assms(1,2) by (auto simp: sched_inv_def runnable_ok_def)
  show ?thesis
    using assms(2-4) c' p
    by (simp add: sleep_def acquire_lk_def release_lk_def pushcli_def popcli_def sched_def
        with_proc_def upd_proc_def scheduler_back_def switchkvm_def scheduler_leave_def
        scheduler_enter_def wakeup_def wakeup1_def pick_def switchuvm_def resume_def sleep_tail_def
        restore_intena_def Let_def)
qed

definition demo_holder :: kernel where
  "demo_holder = demo_kernel\<lparr>cur := Some 0, heldlk := [LTicks],
     mycpu := \<lparr>ncli = 1, intena = True, ifl = False\<rparr>,
     procs := (\<lambda>_. zero_proc)(0 := zero_proc\<lparr>state := RUNNING, pgdir := 0x80200000, pid := 1\<rparr>)\<rparr>"

theorem sleep_wakeup_resumes_witness:
  "\<exists>s1 s2 s3 s4. sleep ChTicks LTicks demo_holder = Ok s1 \<and> state (procs s1 0) = SLEEPING \<and>
    heldlk s1 = [LPtable] \<and>
    scheduler_leave s1 = Ok s2 \<and> scheduler_enter (wakeup ChTicks s2) = Ok s3 \<and> pick 0 s3 = Ok s4 \<and>
    cur s4 = Some 0 \<and> heldlk s4 = [LTicks] \<and> intena (mycpu s4) = intena (mycpu demo_holder) \<and>
    procs s4 0 = (procs demo_holder 0)\<lparr>chan := ChNull, kont := InSleep (intena (mycpu demo_holder)) LTicks\<rparr>"
  by (rule sleep_wakeup_resumes)
    (simp_all add: demo_holder_def sched_inv_def lk_inv_def runnable_ok_def zero_proc_def)

end
