(* ===== verification/Bio.thy ===== *)
theory Bio
  imports Kernel_State
begin

text \<open>
  Sleep locks (\<^verbatim>\<open>sleeplock.c\<close>), the buffer cache (\<^verbatim>\<open>bio.c\<close>) and the in-memory disk driver
  (\<^verbatim>\<open>memide.c\<close>), whose \<open>iderw\<close> copies synchronously. The buffers are linked in a ring through the list
  head, which has index \<^verbatim>\<open>NBUF\<close>. An operation that would sleep because a buffer is locked has
  the outcome \<open>Block\<close>. The contract of the cache is stated over \<open>blk\<close>, the contents of a block as
  the rest of the kernel sees it: the cached copy if there is one, else the disk.
\<close>

section \<open>Sleep locks\<close>

definition initsleeplock :: "sleeplock \<Rightarrow> sleeplock" where
  "initsleeplock lk = lk\<lparr>sl_locked := False, sl_pid := 0\<rparr>"

definition acquiresleep :: "chan \<Rightarrow> sleeplock \<Rightarrow> kernel \<Rightarrow> sleeplock res" where
  "acquiresleep ch lk s =
     (if sl_locked lk then Block ch
      else with_proc s (\<lambda>p. Ok (lk\<lparr>sl_locked := True, sl_pid := pid (procs s p)\<rparr>)))"

definition releasesleep :: "chan \<Rightarrow> sleeplock \<Rightarrow> kernel \<Rightarrow> sleeplock \<times> kernel" where
  "releasesleep ch lk s = (lk\<lparr>sl_locked := False, sl_pid := 0\<rparr>, wakeup ch s)"

definition holdingsleep :: "sleeplock \<Rightarrow> bool" where
  "holdingsleep lk = sl_locked lk"

section \<open>Buffer cache\<close>

definition upd_buf :: "nat \<Rightarrow> (buf \<Rightarrow> buf) \<Rightarrow> kernel \<Rightarrow> kernel" where
  "upd_buf i f s = s\<lparr>bufs := (bufs s)(i := f (bufs s i))\<rparr>"

definition bnext :: "kernel \<Rightarrow> nat \<Rightarrow> nat" where
  "bnext s i = b_next (bufs s i)"

definition bprev :: "kernel \<Rightarrow> nat \<Rightarrow> nat" where
  "bprev s i = b_prev (bufs s i)"

definition set_next :: "nat \<Rightarrow> nat \<Rightarrow> kernel \<Rightarrow> kernel" where
  "set_next b n s = upd_buf b (\<lambda>r. r\<lparr>b_next := n\<rparr>) s"

definition set_prev :: "nat \<Rightarrow> nat \<Rightarrow> kernel \<Rightarrow> kernel" where
  "set_prev b n s = upd_buf b (\<lambda>r. r\<lparr>b_prev := n\<rparr>) s"

definition binit_one :: "nat \<Rightarrow> kernel \<Rightarrow> kernel" where
  "binit_one b s =
     (let s = set_next b (bnext s NBUF) s;
          s = set_prev b NBUF s;
          s = upd_buf b (\<lambda>r. r\<lparr>b_lock := initsleeplock (b_lock r)\<rparr>) s;
          s = set_prev (bnext s NBUF) b s
      in set_next NBUF b s)"

definition binit :: "kernel \<Rightarrow> kernel" where
  "binit s =
     fold binit_one [0..<NBUF] (set_next NBUF NBUF (set_prev NBUF NBUF s))"

text \<open>
  The two loops of \<open>bget\<close> follow a link until they are back at the head; there are \<^verbatim>\<open>NBUF\<close>
  buffers, so \<open>NBUF + 1\<close> rounds are enough.
\<close>

fun ring_find :: "nat \<Rightarrow> (nat \<Rightarrow> nat) \<Rightarrow> (nat \<Rightarrow> bool) \<Rightarrow> nat \<Rightarrow> nat option res" where
  "ring_find 0 nxt P b = Fault ''bget: no fuel''"
| "ring_find (Suc k) nxt P b =
     (if b = NBUF then Ok None else if P b then Ok (Some b) else ring_find k nxt P (nxt b))"

definition lock_buf :: "nat \<Rightarrow> kernel \<Rightarrow> (nat \<times> kernel) res" where
  "lock_buf b s =
     kbind (acquiresleep (ChBufLock b) (b_lock (bufs s b)) s)
       (\<lambda>lk. Ok (b, upd_buf b (\<lambda>r. r\<lparr>b_lock := lk\<rparr>) s))"

definition bget :: "u32 \<Rightarrow> u32 \<Rightarrow> kernel \<Rightarrow> (nat \<times> kernel) res" where
  "bget dev blockno s =
     kbind (ring_find (NBUF + 1) (bnext s)
         (\<lambda>i. b_dev (bufs s i) = dev \<and> b_blockno (bufs s i) = blockno) (bnext s NBUF))
       (\<lambda>found. case found of
          Some b \<Rightarrow> lock_buf b (upd_buf b (\<lambda>r. r\<lparr>b_refcnt := b_refcnt r + 1\<rparr>) s)
        | None \<Rightarrow>
            kbind (ring_find (NBUF + 1) (bprev s)
                (\<lambda>i. b_refcnt (bufs s i) = 0 \<and> \<not> b_dirty (bufs s i)) (bprev s NBUF))
              (\<lambda>found. case found of
                 Some b \<Rightarrow> lock_buf b (upd_buf b (\<lambda>r. r\<lparr>b_dev := dev, b_blockno := blockno,
                   b_valid := False, b_dirty := False, b_refcnt := 1\<rparr>) s)
               | None \<Rightarrow> Panic ''bget: no buffers''))"

definition ideinit :: "bytes list \<Rightarrow> kernel \<Rightarrow> kernel" where
  "ideinit img s = s\<lparr>disk := (\<lambda>n. if unat n < length img then img ! unat n else disk s n),
     disksize := length img\<rparr>"

definition iderw :: "nat \<Rightarrow> kernel \<Rightarrow> kernel res" where
  "iderw b s =
     (let r = bufs s b in
      if \<not> holdingsleep (b_lock r) then Panic ''iderw: buf not locked''
      else if b_valid r \<and> \<not> b_dirty r then Panic ''iderw: nothing to do''
      else if b_dev r \<noteq> 1 then Panic ''iderw: request not for disk 1''
      else if unat (b_blockno r) \<ge> disksize s then Panic ''iderw: block out of range''
      else if b_dirty r then
        Ok (upd_buf b (\<lambda>r. r\<lparr>b_dirty := False, b_valid := True\<rparr>)
          (s\<lparr>disk := (disk s)(b_blockno r := b_data r),
             dwrites := dwrites s @ [(b_blockno r, b_data r)]\<rparr>))
      else Ok (upd_buf b (\<lambda>r. r\<lparr>b_data := disk s (b_blockno r), b_valid := True\<rparr>) s))"

definition bread :: "u32 \<Rightarrow> u32 \<Rightarrow> kernel \<Rightarrow> (nat \<times> kernel) res" where
  "bread dev blockno s =
     kbind (bget dev blockno s) (\<lambda>(b, s).
       if \<not> b_valid (bufs s b) then kbind (iderw b s) (\<lambda>s. Ok (b, s)) else Ok (b, s))"

definition bwrite :: "nat \<Rightarrow> kernel \<Rightarrow> kernel res" where
  "bwrite b s =
     (if \<not> holdingsleep (b_lock (bufs s b)) then Panic ''bwrite''
      else iderw b (upd_buf b (\<lambda>r. r\<lparr>b_dirty := True\<rparr>) s))"

definition move_to_front :: "nat \<Rightarrow> kernel \<Rightarrow> kernel" where
  "move_to_front b s =
     (let s = set_prev (bnext s b) (bprev s b) s;
          s = set_next (bprev s b) (bnext s b) s;
          s = set_next b (bnext s NBUF) s;
          s = set_prev b NBUF s;
          s = set_prev (bnext s NBUF) b s
      in set_next NBUF b s)"

definition brelse :: "nat \<Rightarrow> kernel \<Rightarrow> kernel res" where
  "brelse b s =
     (if \<not> holdingsleep (b_lock (bufs s b)) then Panic ''brelse''
      else let (lk, s) = releasesleep (ChBufLock b) (b_lock (bufs s b)) s;
               s = upd_buf b (\<lambda>r. r\<lparr>b_lock := lk\<rparr>) s;
               s = upd_buf b (\<lambda>r. r\<lparr>b_refcnt := b_refcnt r - 1\<rparr>) s
           in Ok (if b_refcnt (bufs s b) = 0 then move_to_front b s else s))"

section \<open>The ring of buffers\<close>

fun chain :: "(nat \<Rightarrow> nat) \<Rightarrow> nat \<Rightarrow> nat list \<Rightarrow> nat \<Rightarrow> bool" where
  "chain nxt a [] z = (nxt a = z)"
| "chain nxt a (b # bs) z = (nxt a = b \<and> chain nxt b bs z)"

lemma chain_append [simp]:
  "chain nxt a (xs @ b # ys) z \<longleftrightarrow> chain nxt a xs b \<and> chain nxt b ys z"
  by (induction xs arbitrary: a) auto

lemma chain_cong:
  "(\<And>x. x \<in> set (a # bs) \<Longrightarrow> f x = g x) \<Longrightarrow> chain f a bs z = chain g a bs z"
  by (induction bs arbitrary: a) auto

lemma chain_upd_other [simp]:
  "x \<notin> set (a # bs) \<Longrightarrow> chain (nxt(x := v)) a bs z = chain nxt a bs z"
  by (rule chain_cong) auto

lemma chain_hd: "chain nxt a bs z \<Longrightarrow> nxt a = hd (bs @ [z])"
  by (cases bs) auto

lemma chain_upd_last:
  "chain nxt a bs z \<Longrightarrow> distinct (a # bs) \<Longrightarrow> chain (nxt(last (a # bs) := w)) a bs w"
proof (induction bs arbitrary: a)
  case (Cons b bs)
  have "last (b # bs) \<in> set (b # bs)" by (rule last_in_set) simp
  then have "a \<noteq> last (b # bs)" using Cons.prems(2) by auto
  then show ?case using Cons by simp
qed simp

text \<open>
  \<open>dring nxt prv bs\<close>: following \<open>nxt\<close> from the head visits \<open>bs\<close> and comes back, and following \<open>prv\<close>
  visits it backwards.
\<close>

definition dring :: "(nat \<Rightarrow> nat) \<Rightarrow> (nat \<Rightarrow> nat) \<Rightarrow> nat list \<Rightarrow> bool" where
  "dring nxt prv bs \<longleftrightarrow>
     chain nxt NBUF bs NBUF \<and> chain prv NBUF (rev bs) NBUF \<and> distinct (NBUF # bs)"

lemma dring_find:
  assumes "dring nxt prv bs" "length bs < k"
  shows "ring_find k nxt P (nxt NBUF) = Ok (List.find P bs)"
    and "ring_find k prv P (prv NBUF) = Ok (List.find P (rev bs))"
proof -
  have gen: "ring_find k f P (f a) = Ok (List.find P cs)"
    if "chain f a cs NBUF" "NBUF \<notin> set cs" "length cs < k" for f :: "nat \<Rightarrow> nat" and a cs k
    using that
  proof (induction cs arbitrary: a k)
    case Nil
    then show ?case by (cases k) auto
  next
    case (Cons c cs)
    then show ?case by (cases k) auto
  qed
  show "ring_find k nxt P (nxt NBUF) = Ok (List.find P bs)"
    using assms unfolding dring_def by (intro gen) auto
  show "ring_find k prv P (prv NBUF) = Ok (List.find P (rev bs))"
    using assms unfolding dring_def by (intro gen) auto
qed

lemma dring_push:
  assumes "dring nxt prv bs" "b \<notin> set (NBUF # bs)"
  shows "dring (nxt(b := nxt NBUF, NBUF := b)) (prv(b := NBUF, nxt NBUF := b)) (b # bs)"
proof (cases bs)
  case Nil
  then show ?thesis using assms by (auto simp: dring_def)
next
  case (Cons c cs)
  then have c: "nxt NBUF = c" "chain prv NBUF (rev cs) c" "c \<noteq> NBUF" "b \<noteq> c" "b \<notin> set cs"
    "b \<noteq> NBUF" "c \<notin> set cs" "NBUF \<notin> set cs"
    using assms by (auto simp: dring_def)
  then show ?thesis using assms Cons
    by (auto simp: dring_def)
qed

lemma dring_unlink:
  assumes "dring nxt prv (xs @ b # ys)"
  shows "dring (nxt(prv b := nxt b)) (prv(nxt b := prv b)) (xs @ ys)"
proof -
  have d: "distinct (NBUF # xs @ b # ys)" and n: "chain nxt NBUF xs b" "chain nxt b ys NBUF"
    and p: "chain prv NBUF (rev ys) b" "chain prv b (rev xs) NBUF"
    using assms by (auto simp: dring_def)
  have pb: "prv b = last (NBUF # xs)" using chain_hd [OF p(2)] by (simp add: hd_append hd_rev)
  have nb: "nxt b = last (NBUF # rev ys)" using chain_hd [OF n(2)] by (simp add: hd_append last_rev)
  have n1: "chain (nxt(prv b := nxt b)) NBUF xs (nxt b)"
    unfolding pb using chain_upd_last [OF n(1)] d by simp
  have p1: "chain (prv(nxt b := prv b)) NBUF (rev ys) (prv b)"
    unfolding nb using chain_upd_last [OF p(1)] d by simp
  have "chain (nxt(prv b := nxt b)) NBUF (xs @ ys) NBUF"
  proof (cases ys)
    case Nil
    then show ?thesis using n1 n(2) by simp
  next
    case (Cons y zs)
    then have "prv b \<notin> set (y # zs)" using d last_in_set [of xs]
      by (cases xs) (auto simp: pb Cons)
    then show ?thesis using n1 n(2) Cons by simp
  qed
  moreover have "chain (prv(nxt b := prv b)) NBUF (rev ys @ rev xs) NBUF"
  proof (cases "rev xs")
    case Nil
    then show ?thesis using p1 p(2) by simp
  next
    case (Cons y zs)
    then have yz: "set (y # zs) = set xs" by (metis set_rev)
    have "nxt b \<notin> set xs" using d by (auto simp: nb last_rev split: if_splits dest: hd_in_set)
    then have "nxt b \<notin> set (y # zs)" using yz by simp
    then show ?thesis using p1 p(2) Cons by simp
  qed
  ultimately show ?thesis using d by (simp add: dring_def)
qed


section \<open>The invariant of the cache\<close>

definition ring :: "kernel \<Rightarrow> nat list \<Rightarrow> bool" where
  "ring s bs \<longleftrightarrow> dring (bnext s) (bprev s) bs \<and> set bs = {..<NBUF}"

definition buf_ok :: "(u32 \<Rightarrow> bytes) \<Rightarrow> buf \<Rightarrow> bool" where
  "buf_ok d r \<longleftrightarrow> length (b_data r) = BSIZE \<and>
     b_refcnt r = of_bool (sl_locked (b_lock r)) \<and>
     (sl_locked (b_lock r) \<longrightarrow> b_valid r) \<and>
     (b_dirty r \<longrightarrow> b_valid r) \<and>
     b_valid r = (b_dev r = 1) \<and>
     (b_valid r \<and> \<not> b_dirty r \<and> \<not> sl_locked (b_lock r) \<longrightarrow> b_data r = d (b_blockno r))"

definition same_block :: "buf \<Rightarrow> buf \<Rightarrow> bool" where
  "same_block r r' \<longleftrightarrow> b_dev r = 1 \<and> b_dev r' = 1 \<and> b_blockno r = b_blockno r'"

definition bc_inv :: "kernel \<Rightarrow> bool" where
  "bc_inv s \<longleftrightarrow> (\<exists>bs. ring s bs) \<and> (\<forall>i<NBUF. buf_ok (disk s) (bufs s i)) \<and>
     (\<forall>i<NBUF. \<forall>j<NBUF. same_block (bufs s i) (bufs s j) \<longrightarrow> i = j) \<and>
     (\<forall>n. length (disk s n) = BSIZE) \<and> cur s \<noteq> None"

text \<open>What the clients of the cache see, by block number.\<close>

definition blk :: "kernel \<Rightarrow> u32 \<Rightarrow> bytes" where
  "blk s n =
     (case first_slot NBUF (\<lambda>i. b_valid (bufs s i) \<and> b_blockno (bufs s i) = n) of
        Some i \<Rightarrow> b_data (bufs s i) | None \<Rightarrow> disk s n)"

definition lockedb :: "kernel \<Rightarrow> u32 set" where
  "lockedb s = {b_blockno (bufs s i) |i. i < NBUF \<and> sl_locked (b_lock (bufs s i))}"

definition dirtyb :: "kernel \<Rightarrow> u32 set" where
  "dirtyb s = {b_blockno (bufs s i) |i. i < NBUF \<and> b_dirty (bufs s i)}"

definition held :: "kernel \<Rightarrow> nat \<Rightarrow> u32 \<Rightarrow> bool" where
  "held s b n \<longleftrightarrow> b < NBUF \<and> sl_locked (b_lock (bufs s b)) \<and> b_valid (bufs s b) \<and>
     b_dev (bufs s b) = 1 \<and> b_blockno (bufs s b) = n"

definition set_data :: "nat \<Rightarrow> bytes \<Rightarrow> kernel \<Rightarrow> kernel" where
  "set_data b d s = upd_buf b (\<lambda>r. r\<lparr>b_data := d\<rparr>) s"

lemma upd_buf_simps [simp]:
  "bufs (upd_buf b f s) = (bufs s)(b := f (bufs s b))"
  "disk (upd_buf b f s) = disk s" "disksize (upd_buf b f s) = disksize s"
  "dwrites (upd_buf b f s) = dwrites s" "cur (upd_buf b f s) = cur s"
  "procs (upd_buf b f s) = procs s" "log (upd_buf b f s) = log s" "sb (upd_buf b f s) = sb s"
  "inodes (upd_buf b f s) = inodes s" "mem (upd_buf b f s) = mem s"
  by (simp_all add: upd_buf_def)

lemma upd_buf_upd_buf [simp]: "upd_buf b f (upd_buf b g s) = upd_buf b (\<lambda>r. f (g r)) s"
  by (simp add: upd_buf_def)

lemma wakeup_simps [simp]:
  "bufs (wakeup c s) = bufs s" "disk (wakeup c s) = disk s" "disksize (wakeup c s) = disksize s"
  "dwrites (wakeup c s) = dwrites s" "cur (wakeup c s) = cur s" "log (wakeup c s) = log s"
  "sb (wakeup c s) = sb s" "inodes (wakeup c s) = inodes s" "mem (wakeup c s) = mem s"
  by (simp_all add: wakeup_def)

lemma upd_buf_wakeup: "upd_buf b f (wakeup c s) = wakeup c (upd_buf b f s)"
  by (cases s) (simp add: upd_buf_def wakeup_def)

text \<open>Everything but the buffers, the disk and the process table, which the cache never touches.\<close>

definition rest :: "kernel \<Rightarrow> kernel" where
  "rest s = s\<lparr>bufs := \<lambda>_. zero_buf, disk := \<lambda>_. [], dwrites := [], procs := \<lambda>_. zero_proc\<rparr>"

lemma rest_simps [simp]:
  "rest (upd_buf b f s) = rest s" "rest (wakeup c s) = rest s"
  "rest (s\<lparr>disk := d, dwrites := w\<rparr>) = rest s"
  by (cases s; simp add: rest_def upd_buf_def wakeup_def)+

lemma rest_fields:
  assumes "rest s = rest s'"
  shows "disksize s = disksize s'" "cur s = cur s'" "log s = log s'" "sb s = sb s'"
    "inodes s = inodes s'" "mem s = mem s'"
  using assms by (cases s; cases s'; simp add: rest_def)+

subsection \<open>Links and contents are independent\<close>

definition core :: "buf \<Rightarrow> buf" where
  "core r = r\<lparr>b_prev := 0, b_next := 0\<rparr>"

lemma core_fields:
  assumes "core r = core r'"
  shows "b_valid r = b_valid r'" "b_dirty r = b_dirty r'" "b_dev r = b_dev r'"
    "b_blockno r = b_blockno r'" "b_lock r = b_lock r'" "b_refcnt r = b_refcnt r'"
    "b_data r = b_data r'"
  using assms by (cases r; cases r'; simp add: core_def)+

lemma set_link_simps [simp]:
  "bnext (set_next b n s) = (bnext s)(b := n)" "bprev (set_next b n s) = bprev s"
  "bnext (set_prev b n s) = bnext s" "bprev (set_prev b n s) = (bprev s)(b := n)"
  "core (bufs (set_next b n s) i) = core (bufs s i)"
  "core (bufs (set_prev b n s) i) = core (bufs s i)"
  by (auto simp: set_next_def set_prev_def bnext_def bprev_def core_def)

lemma set_link_frame [simp]:
  "disk (set_next b n s) = disk s" "dwrites (set_next b n s) = dwrites s"
  "cur (set_next b n s) = cur s" "rest (set_next b n s) = rest s"
  "disk (set_prev b n s) = disk s" "dwrites (set_prev b n s) = dwrites s"
  "cur (set_prev b n s) = cur s" "rest (set_prev b n s) = rest s"
  by (simp_all add: set_next_def set_prev_def)

lemma buf_ok_core: "core r = core r' \<Longrightarrow> buf_ok d r = buf_ok d r'"
  using core_fields [of r r'] by (simp add: buf_ok_def)

lemma move_to_front_simps [simp]:
  "core (bufs (move_to_front b s) i) = core (bufs s i)"
  "disk (move_to_front b s) = disk s" "dwrites (move_to_front b s) = dwrites s"
  "cur (move_to_front b s) = cur s" "rest (move_to_front b s) = rest s"
  by (simp_all add: move_to_front_def Let_def)

lemma ring_links:
  "ring s bs \<Longrightarrow> bnext s' = bnext s \<Longrightarrow> bprev s' = bprev s \<Longrightarrow> ring s' bs"
  by (simp add: ring_def)

lemma ring_bufs: "bufs s' = bufs s \<Longrightarrow> ring s' bs = ring s bs"
  by (simp add: ring_def bnext_def [abs_def] bprev_def [abs_def])

lemma move_to_front_links:
  assumes "ring s bs" "b < NBUF"
  shows "\<exists>bs'. ring (move_to_front b s) bs'"
proof -
  have "b \<in> set bs" using assms by (simp add: ring_def)
  then obtain xs ys where bs: "bs = xs @ b # ys" by (meson split_list)
  let ?n = "bnext s" let ?p = "bprev s"
  let ?n1 = "?n(?p b := ?n b)" let ?p1 = "?p(?n b := ?p b)"
  have dr: "dring ?n ?p (xs @ b # ys)" using assms bs by (simp add: ring_def)
  have notb: "?n b \<noteq> b" "?p b \<noteq> b"
    using dr chain_hd [of ?n b ys NBUF] chain_hd [of ?p b "rev xs" NBUF]
    by (cases ys; cases "rev xs" rule: list.exhaust; auto simp: dring_def)+
  have "dring (?n1(b := ?n1 NBUF, NBUF := b)) (?p1(b := NBUF, ?n1 NBUF := b)) (b # xs @ ys)"
    using dring_push [OF dring_unlink [OF dr], of b] dr by (simp add: dring_def)
  moreover have "bnext (move_to_front b s) = ?n1(b := ?n1 NBUF, NBUF := b)"
    "bprev (move_to_front b s) = ?p1(b := NBUF, ?n1 NBUF := b)"
    using notb by (auto simp: move_to_front_def Let_def fun_eq_iff)
  ultimately show ?thesis using assms bs unfolding ring_def
    by (intro exI [of _ "b # xs @ ys"]) auto
qed

subsection \<open>Changing one buffer\<close>

lemma bc_invD:
  assumes "bc_inv s" "i < NBUF"
  shows "buf_ok (disk s) (bufs s i)"
    and "j < NBUF \<Longrightarrow> same_block (bufs s i) (bufs s j) \<Longrightarrow> i = j"
  using assms by (auto simp: bc_inv_def)

lemma buf_okD:
  assumes "buf_ok d r"
  shows "length (b_data r) = BSIZE" "b_refcnt r = of_bool (sl_locked (b_lock r))"
    "sl_locked (b_lock r) \<Longrightarrow> b_valid r" "b_dirty r \<Longrightarrow> b_valid r" "b_valid r = (b_dev r = 1)"
    "b_valid r \<Longrightarrow> \<not> b_dirty r \<Longrightarrow> \<not> sl_locked (b_lock r) \<Longrightarrow> b_data r = d (b_blockno r)"
  using assms by (auto simp: buf_ok_def)

lemma valid_unique:
  assumes "bc_inv s" "i < NBUF" "j < NBUF" "b_valid (bufs s i)" "b_valid (bufs s j)"
    "b_blockno (bufs s i) = b_blockno (bufs s j)"
  shows "i = j"
  using bc_invD [OF assms(1,2)] bc_invD(1) [OF assms(1,3)] assms(3-)
  by (auto simp: same_block_def buf_okD(5))

lemma blk_cached:
  assumes "bc_inv s" "i < NBUF" "b_valid (bufs s i)" "b_blockno (bufs s i) = n"
  shows "blk s n = b_data (bufs s i)"
proof -
  obtain j where j: "first_slot NBUF (\<lambda>i. b_valid (bufs s i) \<and> b_blockno (bufs s i) = n) = Some j"
    using assms(2-) by (cases "first_slot NBUF (\<lambda>i. b_valid (bufs s i) \<and> b_blockno (bufs s i) = n)")
      (auto dest: first_slot_NoneD)
  then have "j = i" using first_slot_SomeD [OF j] valid_unique [OF assms(1), of j i] assms(2-) by auto
  then show ?thesis using j by (simp add: blk_def)
qed

lemma blk_uncached:
  assumes "\<And>i. i < NBUF \<Longrightarrow> b_valid (bufs s i) \<Longrightarrow> b_blockno (bufs s i) \<noteq> n"
  shows "blk s n = disk s n"
proof -
  have "first_slot NBUF (\<lambda>i. b_valid (bufs s i) \<and> b_blockno (bufs s i) = n) = None"
    unfolding first_slot_None_iff using assms by blast
  then show ?thesis by (simp add: blk_def)
qed

lemma blk_held: "bc_inv s \<Longrightarrow> held s b n \<Longrightarrow> blk s n = b_data (bufs s b)"
  by (auto simp: held_def intro: blk_cached)

lemma blk_length:
  assumes "bc_inv s"
  shows "length (blk s n) = BSIZE"
proof (cases "\<exists>i<NBUF. b_valid (bufs s i) \<and> b_blockno (bufs s i) = n")
  case True
  then obtain i where i: "i < NBUF" "b_valid (bufs s i)" "b_blockno (bufs s i) = n" by blast
  show ?thesis
    unfolding blk_cached [OF assms i] by (rule buf_okD(1) [OF bc_invD(1) [OF assms i(1)]])
next
  case False
  then have "blk s n = disk s n" by (intro blk_uncached) blast
  then show ?thesis using assms by (simp add: bc_inv_def)
qed

definition one_buf :: "kernel \<Rightarrow> nat \<Rightarrow> buf \<Rightarrow> bool" where
  "one_buf s b r \<longleftrightarrow> bc_inv s \<and> b < NBUF \<and> b_next r = b_next (bufs s b) \<and>
     b_prev r = b_prev (bufs s b) \<and> buf_ok (disk s) r \<and>
     (\<forall>i<NBUF. i \<noteq> b \<longrightarrow> \<not> same_block (bufs s i) r)"

lemma same_block_sym: "same_block x y \<Longrightarrow> same_block y x"
  by (simp add: same_block_def)

lemma one_buf_inv:
  assumes "one_buf s b r"
  shows "bc_inv (upd_buf b (\<lambda>_. r) s)"
proof -
  let ?s = "upd_buf b (\<lambda>_. r) s"
  have h: "bc_inv s" "b < NBUF" "b_next r = b_next (bufs s b)" "b_prev r = b_prev (bufs s b)"
    "buf_ok (disk s) r" and apart: "\<And>i. i < NBUF \<Longrightarrow> i \<noteq> b \<Longrightarrow> \<not> same_block (bufs s i) r"
    using assms by (auto simp: one_buf_def)
  have "bnext ?s = bnext s" "bprev ?s = bprev s"
    using h(3,4) by (simp_all add: bnext_def bprev_def fun_eq_iff)
  then have ring: "\<exists>bs. ring ?s bs"
    using h(1) unfolding bc_inv_def by (blast intro: ring_links)
  have uniq: "i = j" if "i < NBUF" "j < NBUF" "same_block (bufs ?s i) (bufs ?s j)" for i j
    using bc_invD(2) [OF h(1) that(1,2)] apart [OF that(1)] apart [OF that(2)] that(3)
    by (auto split: if_splits dest: same_block_sym)
  have ok: "buf_ok (disk ?s) (bufs ?s i)" if "i < NBUF" for i
    using bc_invD(1) [OF h(1) that] h(5) by simp
  have "\<forall>n. length (disk ?s n) = BSIZE" "cur ?s \<noteq> None" using h(1) by (simp_all add: bc_inv_def)
  then show ?thesis
    unfolding bc_inv_def using ring uniq ok by blast
qed

lemma one_buf_blk:
  assumes "one_buf s b r"
  shows "blk (upd_buf b (\<lambda>_. r) s) m =
    (if b_valid r \<and> b_blockno r = m then b_data r
     else if b_valid (bufs s b) \<and> b_blockno (bufs s b) = m then disk s m else blk s m)"
proof -
  let ?s = "upd_buf b (\<lambda>_. r) s"
  have inv: "bc_inv s" "bc_inv ?s" "b < NBUF" using assms one_buf_inv by (auto simp: one_buf_def)
  consider "b_valid r" "b_blockno r = m"
    | i where "i < NBUF" "i \<noteq> b" "b_valid (bufs s i)" "b_blockno (bufs s i) = m"
    | "\<not> (b_valid r \<and> b_blockno r = m)"
      "\<And>i. i < NBUF \<Longrightarrow> i \<noteq> b \<Longrightarrow> b_valid (bufs s i) \<Longrightarrow> b_blockno (bufs s i) \<noteq> m"
    by blast
  then show ?thesis
  proof cases
    case 1
    then show ?thesis using blk_cached [OF inv(2), of b] inv(3) by simp
  next
    case 2
    have "\<not> (b_valid r \<and> b_blockno r = m)" "\<not> (b_valid (bufs s b) \<and> b_blockno (bufs s b) = m)"
      using valid_unique [OF inv(2) 2(1) inv(3)] valid_unique [OF inv(1) 2(1) inv(3)] 2 by auto
    then show ?thesis
      using blk_cached [OF inv(2) 2(1), of m] blk_cached [OF inv(1) 2(1), of m] 2 by auto
  next
    case 3
    then have "blk ?s m = disk s m" by (subst blk_uncached) (auto split: if_splits)
    moreover have "blk s m = disk s m" if "\<not> (b_valid (bufs s b) \<and> b_blockno (bufs s b) = m)"
      using that 3 by (intro blk_uncached) blast
    ultimately show ?thesis using 3(1) by (cases "b_valid (bufs s b) \<and> b_blockno (bufs s b) = m") auto
  qed
qed

lemma one_buf_image:
  assumes b: "b < NBUF"
    and inj: "\<And>i. i < NBUF \<Longrightarrow> P (f i) \<Longrightarrow> P (f b) \<Longrightarrow> g (f i) = g (f b) \<Longrightarrow> i = b"
  shows "{g ((f(b := r)) i) |i. i < NBUF \<and> P ((f(b := r)) i)} =
    ({g (f i) |i. i < NBUF \<and> P (f i)} - {n. P (f b) \<and> n = g (f b)}) \<union> {n. P r \<and> n = g r}"
    (is "?L = ?R")
proof -
  have L: "n \<in> ?L \<longleftrightarrow> P r \<and> n = g r \<or> (\<exists>i<NBUF. i \<noteq> b \<and> P (f i) \<and> n = g (f i))" for n
    using b by auto
  have "(\<exists>i<NBUF. P (f i) \<and> n = g (f i)) \<and> \<not> (P (f b) \<and> n = g (f b)) \<longleftrightarrow>
    (\<exists>i<NBUF. i \<noteq> b \<and> P (f i) \<and> n = g (f i))" for n
    using inj by metis
  then have "n \<in> ?L \<longleftrightarrow> n \<in> ?R" for n unfolding L by fastforce
  then show ?thesis by blast
qed

lemma one_buf_sets:
  assumes "one_buf s b r"
  shows "lockedb (upd_buf b (\<lambda>_. r) s) =
      (lockedb s - {n. sl_locked (b_lock (bufs s b)) \<and> n = b_blockno (bufs s b)}) \<union>
      {n. sl_locked (b_lock r) \<and> n = b_blockno r}" (is ?lk)
    and "dirtyb (upd_buf b (\<lambda>_. r) s) =
      (dirtyb s - {n. b_dirty (bufs s b) \<and> n = b_blockno (bufs s b)}) \<union>
      {n. b_dirty r \<and> n = b_blockno r}" (is ?dt)
proof -
  have inv: "bc_inv s" "b < NBUF" using assms by (auto simp: one_buf_def)
  have val: "b_valid (bufs s i)" if "i < NBUF" "sl_locked (b_lock (bufs s i)) \<or> b_dirty (bufs s i)" for i
    using bc_invD(1) [OF inv(1) that(1)] that(2) by (auto dest: buf_okD(3,4))
  have inj: "i = b" if "i < NBUF" "sl_locked (b_lock (bufs s i)) \<or> b_dirty (bufs s i)"
    "sl_locked (b_lock (bufs s b)) \<or> b_dirty (bufs s b)"
    "b_blockno (bufs s i) = b_blockno (bufs s b)" for i
    using valid_unique [OF inv(1) that(1) inv(2)] val [OF that(1,2)] val [OF inv(2) that(3)] that(4)
    by blast
  show ?lk unfolding lockedb_def upd_buf_simps
    by (rule one_buf_image [OF inv(2), of "\<lambda>r. sl_locked (b_lock r)"]) (blast intro: inj)
  show ?dt unfolding dirtyb_def upd_buf_simps
    by (rule one_buf_image [OF inv(2), of b_dirty]) (blast intro: inj)
qed

section \<open>The contract of the cache\<close>

lemma ring_length:
  assumes "ring s bs"
  shows "length bs = NBUF"
  using assms distinct_card [of bs] by (simp add: ring_def dring_def)

lemma bget_find:
  assumes "bc_inv s"
  obtains bs where "set bs = {..<NBUF}"
    "\<And>P. ring_find (NBUF + 1) (bnext s) P (bnext s NBUF) = Ok (List.find P bs)"
    "\<And>P. ring_find (NBUF + 1) (bprev s) P (bprev s NBUF) = Ok (List.find P (rev bs))"
proof -
  obtain bs where bs: "ring s bs" using assms by (auto simp: bc_inv_def)
  then have "dring (bnext s) (bprev s) bs" "length bs < NBUF + 1" "set bs = {..<NBUF}"
    using ring_length [OF bs] by (auto simp: ring_def)
  then show ?thesis using that dring_find by blast
qed

lemma lock_buf_ok:
  assumes "cur s = Some p" "\<not> sl_locked (b_lock (f (bufs s b)))"
  shows "lock_buf b (upd_buf b f s) = Ok (b, upd_buf b (\<lambda>_. (f (bufs s b))
    \<lparr>b_lock := (b_lock (f (bufs s b)))\<lparr>sl_locked := True, sl_pid := pid (procs s p)\<rparr>\<rparr>) s)"
  using assms by (simp add: lock_buf_def acquiresleep_def with_proc_def upd_buf_def)

lemma free_slot_exists:
  assumes "bc_inv s" "card (lockedb s \<union> dirtyb s) < NBUF"
  shows "\<exists>i<NBUF. \<not> sl_locked (b_lock (bufs s i)) \<and> \<not> b_dirty (bufs s i)"
proof (rule ccontr)
  assume "\<not> ?thesis"
  then have all: "sl_locked (b_lock (bufs s i)) \<or> b_dirty (bufs s i)" if "i < NBUF" for i
    using that by blast
  let ?g = "\<lambda>i. b_blockno (bufs s i)"
  have val: "b_valid (bufs s i)" if "i < NBUF" for i
    using all [OF that] buf_okD(3,4) [OF bc_invD(1) [OF assms(1) that]] by blast
  have "inj_on ?g {..<NBUF}"
    using valid_unique [OF assms(1)] val by (intro inj_onI) blast
  then have "card (?g ` {..<NBUF}) = NBUF" by (simp add: card_image)
  moreover have "?g ` {..<NBUF} \<subseteq> lockedb s \<union> dirtyb s"
    using all by (auto simp: lockedb_def dirtyb_def)
  moreover have "finite (lockedb s \<union> dirtyb s)" by (simp add: lockedb_def dirtyb_def)
  ultimately show False using assms(2) card_mono [of "lockedb s \<union> dirtyb s" "?g ` {..<NBUF}"] by simp
qed

text \<open>
  The two outcomes of \<open>bget\<close>: the block has a buffer, or an unused clean one is recycled.
\<close>

definition bread_result :: "kernel \<Rightarrow> u32 \<Rightarrow> nat \<Rightarrow> buf \<Rightarrow> bool" where
  "bread_result s n b r \<longleftrightarrow> one_buf s b r \<and> sl_locked (b_lock r) \<and> b_dev r = 1 \<and>
     b_blockno r = n \<and> b_valid r \<and> b_data r = blk s n \<and> \<not> sl_locked (b_lock (bufs s b)) \<and>
     (b_valid (bufs s b) \<and> b_blockno (bufs s b) = n \<and> b_dirty r = b_dirty (bufs s b) \<or>
      n \<notin> dirtyb s \<and> \<not> b_dirty r \<and> \<not> b_dirty (bufs s b))"

lemma bread_hit:
  assumes inv: "bc_inv s" and b: "b < NBUF" "b_dev (bufs s b) = 1" "b_blockno (bufs s b) = n"
    and found: "ring_find (NBUF + 1) (bnext s) (\<lambda>i. b_dev (bufs s i) = 1 \<and> b_blockno (bufs s i) = n)
      (bnext s NBUF) = Ok (Some b)"
    and free: "n \<notin> lockedb s"
  shows "\<exists>b r. bread 1 n s = Ok (b, upd_buf b (\<lambda>_. r) s) \<and> bread_result s n b r"
proof -
  have ok: "buf_ok (disk s) (bufs s b)" using bc_invD(1) [OF inv b(1)] .
  have v: "b_valid (bufs s b)" using buf_okD(5) [OF ok] b(2) by simp
  have ul: "\<not> sl_locked (b_lock (bufs s b))" using free b by (auto simp: lockedb_def)
  obtain p where p: "cur s = Some p" using inv by (auto simp: bc_inv_def)
  let ?r = "(bufs s b)\<lparr>b_refcnt := b_refcnt (bufs s b) + 1,
    b_lock := (b_lock (bufs s b))\<lparr>sl_locked := True, sl_pid := pid (procs s p)\<rparr>\<rparr>"
  have "bread 1 n s = Ok (b, upd_buf b (\<lambda>_. ?r) s)"
    using found v by (simp add: bread_def bget_def lock_buf_ok [OF p] ul)
  moreover have "one_buf s b ?r"
    using inv ok b v ul bc_invD(2) [OF inv] by (auto simp: one_buf_def buf_ok_def same_block_def)
  then have "bread_result s n b ?r"
    using b v ul blk_cached [OF inv b(1) v b(3)] by (simp add: bread_result_def)
  ultimately show ?thesis by blast
qed

lemma bread_miss:
  assumes inv: "bc_inv s" and n: "unat n < disksize s"
    and b: "b < NBUF" "b_refcnt (bufs s b) = 0" "\<not> b_dirty (bufs s b)"
    and none: "\<And>i. i < NBUF \<Longrightarrow> b_dev (bufs s i) = 1 \<Longrightarrow> b_blockno (bufs s i) \<noteq> n"
    and miss: "ring_find (NBUF + 1) (bnext s) (\<lambda>i. b_dev (bufs s i) = 1 \<and> b_blockno (bufs s i) = n)
      (bnext s NBUF) = Ok None"
    and found: "ring_find (NBUF + 1) (bprev s) (\<lambda>i. b_refcnt (bufs s i) = 0 \<and> \<not> b_dirty (bufs s i))
      (bprev s NBUF) = Ok (Some b)"
  shows "\<exists>b r. bread 1 n s = Ok (b, upd_buf b (\<lambda>_. r) s) \<and> bread_result s n b r"
proof -
  have ok: "buf_ok (disk s) (bufs s b)" using bc_invD(1) [OF inv b(1)] .
  have ul: "\<not> sl_locked (b_lock (bufs s b))" using buf_okD(2) [OF ok] b(2) by auto
  obtain p where p: "cur s = Some p" using inv by (auto simp: bc_inv_def)
  let ?r = "(bufs s b)\<lparr>b_dev := 1, b_blockno := n, b_dirty := False, b_refcnt := 1,
    b_lock := (b_lock (bufs s b))\<lparr>sl_locked := True, sl_pid := pid (procs s p)\<rparr>, b_data := disk s n,
    b_valid := True\<rparr>"
  have "bread 1 n s = Ok (b, upd_buf b (\<lambda>_. ?r) s)"
    using miss found n ul
    by (simp add: bread_def bget_def lock_buf_ok [OF p] iderw_def holdingsleep_def Let_def)
  moreover have "one_buf s b ?r"
    using inv ok b ul none by (auto simp: one_buf_def buf_ok_def same_block_def bc_inv_def)
  moreover have "b_valid (bufs s i) \<Longrightarrow> b_blockno (bufs s i) \<noteq> n" if "i < NBUF" for i
    using buf_okD(5) [OF bc_invD(1) [OF inv that]] none [OF that] by blast
  then have "blk s n = disk s n" "n \<notin> dirtyb s"
    using buf_okD(4) [OF bc_invD(1) [OF inv]] by (auto intro!: blk_uncached simp: dirtyb_def)
  ultimately show ?thesis using b ul by (auto simp: bread_result_def)
qed

lemma bread_cases:
  assumes inv: "bc_inv s" and n: "unat n < disksize s" "n \<notin> lockedb s"
    and room: "n \<in> dirtyb s \<or> card (lockedb s \<union> dirtyb s) < NBUF"
  shows "\<exists>b r. bread 1 n s = Ok (b, upd_buf b (\<lambda>_. r) s) \<and> bread_result s n b r"
proof -
  obtain bs where bs: "set bs = {..<NBUF}"
    "\<And>P. ring_find (NBUF + 1) (bnext s) P (bnext s NBUF) = Ok (List.find P bs)"
    "\<And>P. ring_find (NBUF + 1) (bprev s) P (bprev s NBUF) = Ok (List.find P (rev bs))"
    using bget_find [OF inv] by blast
  show ?thesis
  proof (cases "List.find (\<lambda>i. b_dev (bufs s i) = 1 \<and> b_blockno (bufs s i) = n) bs")
    case (Some b)
    then have b: "b < NBUF" "b_dev (bufs s b) = 1" "b_blockno (bufs s b) = n"
      using bs(1) nth_mem [of _ bs] by (auto simp: find_Some_iff)
    then show ?thesis by (rule bread_hit [OF inv _ _ _ _ n(2)]) (simp only: bs(2) Some)
  next
    case None
    then have none: "b_dev (bufs s i) = 1 \<Longrightarrow> b_blockno (bufs s i) \<noteq> n" if "i < NBUF" for i
      using bs(1) that by (auto simp: find_None_iff)
    have "n \<notin> dirtyb s"
      using none buf_okD(4,5) [OF bc_invD(1) [OF inv]] by (auto simp: dirtyb_def)
    then obtain i where i: "i < NBUF" "\<not> sl_locked (b_lock (bufs s i))" "\<not> b_dirty (bufs s i)"
      using free_slot_exists [OF inv] room by blast
    moreover have "b_refcnt (bufs s i) = 0"
      using buf_okD(2) [OF bc_invD(1) [OF inv i(1)]] i(2) by simp
    ultimately have "List.find (\<lambda>i. b_refcnt (bufs s i) = 0 \<and> \<not> b_dirty (bufs s i)) (rev bs) \<noteq> None"
      using bs(1) by (auto simp: find_None_iff)
    then obtain b where b: "List.find (\<lambda>i. b_refcnt (bufs s i) = 0 \<and> \<not> b_dirty (bufs s i)) (rev bs) = Some b"
      by auto
    have b': "b < NBUF" "b_refcnt (bufs s b) = 0" "\<not> b_dirty (bufs s b)"
      using bs(1) b nth_mem [of _ "rev bs"] by (auto simp: find_Some_iff)
    show ?thesis
      by (rule bread_miss [OF inv n(1) b' none]) (simp_all only: bs(2,3) None b)
  qed
qed

text \<open>The state after a successful \<open>bread\<close> of block \<open>n\<close> into buffer \<open>b\<close>.\<close>

definition bread_post :: "kernel \<Rightarrow> u32 \<Rightarrow> nat \<Rightarrow> kernel \<Rightarrow> bool" where
  "bread_post s n b s' \<longleftrightarrow> bc_inv s' \<and> held s' b n \<and> blk s' = blk s \<and>
     lockedb s' = insert n (lockedb s) \<and> dirtyb s' = dirtyb s \<and>
     (\<forall>c. c \<noteq> b \<longrightarrow> bufs s' c = bufs s c) \<and> \<not> sl_locked (b_lock (bufs s b)) \<and>
     disk s' = disk s \<and> dwrites s' = dwrites s \<and> rest s' = rest s"

lemma bread_ok:
  assumes "bc_inv s" "unat n < disksize s" "n \<notin> lockedb s"
    "n \<in> dirtyb s \<or> card (lockedb s \<union> dirtyb s) < NBUF"
  shows "\<exists>b s'. bread 1 n s = Ok (b, s') \<and> bread_post s n b s'"
proof -
  obtain b r where br: "bread 1 n s = Ok (b, upd_buf b (\<lambda>_. r) s)" "bread_result s n b r"
    using bread_cases [OF assms] by blast
  let ?s = "upd_buf b (\<lambda>_. r) s"
  have one: "one_buf s b r" and b: "b < NBUF" using br(2) by (auto simp: bread_result_def one_buf_def)
  have ok: "buf_ok (disk s) (bufs s b)" using bc_invD(1) [OF assms(1) b] .
  have "blk ?s m = blk s m" for m
    unfolding one_buf_blk [OF one]
    using br(2) blk_cached [OF assms(1) b, of m] buf_okD(6) [OF ok] by (auto simp: bread_result_def)
  moreover have "b_dirty (bufs s b) \<Longrightarrow> b_blockno (bufs s b) \<in> dirtyb s"
    using b by (auto simp: dirtyb_def)
  then have "lockedb ?s = insert n (lockedb s)" "dirtyb ?s = dirtyb s"
    unfolding one_buf_sets [OF one]
    using br(2) by (auto simp: bread_result_def)
  moreover have "held ?s b n" using br(2) b by (simp add: held_def bread_result_def)
  ultimately have "bread_post s n b ?s"
    using one_buf_inv [OF one] br(2) by (auto simp: bread_post_def bread_result_def)
  then show ?thesis using br(1) by blast
qed

lemma held_one_buf:
  assumes "bc_inv s" "held s b n" "b_next r = b_next (bufs s b)" "b_prev r = b_prev (bufs s b)"
    "b_dev r = 1" "b_blockno r = n" "buf_ok (disk s) r"
  shows "one_buf s b r"
  using assms bc_invD(2) [OF assms(1)] by (auto simp: one_buf_def held_def same_block_def)

lemma held_dirty:
  assumes "bc_inv s" "held s b n"
  shows "n \<in> dirtyb s \<longleftrightarrow> b_dirty (bufs s b)"
proof
  assume "n \<in> dirtyb s"
  then obtain i where i: "i < NBUF" "b_dirty (bufs s i)" "b_blockno (bufs s i) = n"
    by (auto simp: dirtyb_def)
  have "b_valid (bufs s i)" using buf_okD(4) [OF bc_invD(1) [OF assms(1) i(1)]] i(2) .
  then have "i = b" using valid_unique [OF assms(1) i(1), of b] assms(2) i(3) by (simp add: held_def)
  then show "b_dirty (bufs s b)" using i(2) by simp
qed (use assms(2) in \<open>auto simp: dirtyb_def held_def\<close>)

lemma held_locked: "held s b n \<Longrightarrow> n \<in> lockedb s"
  by (auto simp: lockedb_def held_def)

lemma set_data_ok:
  assumes inv: "bc_inv s" and h: "held s b n" and d: "length d = BSIZE"
  shows "bc_inv (set_data b d s)" "held (set_data b d s) b n" "blk (set_data b d s) = (blk s)(n := d)"
    "lockedb (set_data b d s) = lockedb s" "dirtyb (set_data b d s) = dirtyb s"
proof -
  let ?r = "(bufs s b)\<lparr>b_data := d\<rparr>"
  have b: "b < NBUF" using h by (simp add: held_def)
  have eq: "set_data b d s = upd_buf b (\<lambda>_. ?r) s" by (simp add: set_data_def upd_buf_def)
  have ok: "buf_ok (disk s) (bufs s b)" using bc_invD(1) [OF inv b] .
  have one: "one_buf s b ?r"
    using h ok d by (intro held_one_buf [OF inv h]) (auto simp: held_def buf_ok_def)
  show "bc_inv (set_data b d s)" unfolding eq by (rule one_buf_inv [OF one])
  show "held (set_data b d s) b n" using h by (simp add: eq held_def)
  show "blk (set_data b d s) = (blk s)(n := d)"
    unfolding eq using h by (auto simp: one_buf_blk [OF one] held_def)
  show "lockedb (set_data b d s) = lockedb s" "dirtyb (set_data b d s) = dirtyb s"
    unfolding eq one_buf_sets [OF one] using h by (auto simp: lockedb_def dirtyb_def held_def)
qed

text \<open>A held buffer marked dirty by \<open>log_write\<close> stays in the cache until it is installed.\<close>

lemma pin_ok:
  assumes inv: "bc_inv s" and h: "held s b n"
  defines "s' \<equiv> upd_buf b (\<lambda>r. r\<lparr>b_dirty := True\<rparr>) s"
  shows "bc_inv s'" "held s' b n" "blk s' = blk s" "lockedb s' = lockedb s"
    "dirtyb s' = insert n (dirtyb s)" "b_data (bufs s' b) = b_data (bufs s b)"
proof -
  let ?r = "(bufs s b)\<lparr>b_dirty := True\<rparr>"
  have b: "b < NBUF" using h by (simp add: held_def)
  have eq: "s' = upd_buf b (\<lambda>_. ?r) s" by (simp add: s'_def upd_buf_def)
  have ok: "buf_ok (disk s) (bufs s b)" using bc_invD(1) [OF inv b] .
  have one: "one_buf s b ?r"
    using h ok by (intro held_one_buf [OF inv h]) (auto simp: held_def buf_ok_def)
  show "bc_inv s'" unfolding eq by (rule one_buf_inv [OF one])
  show "held s' b n" "b_data (bufs s' b) = b_data (bufs s b)" using h by (simp_all add: eq held_def)
  show "blk s' = blk s"
    unfolding eq using h blk_held [OF inv h] by (auto simp: fun_eq_iff one_buf_blk [OF one] held_def)
  show "lockedb s' = lockedb s" "dirtyb s' = insert n (dirtyb s)"
    unfolding eq one_buf_sets [OF one] using h by (auto simp: lockedb_def held_def)
qed

lemma disk_update_inv:
  assumes "bc_inv s" "held s b n" "length d = BSIZE"
  shows "bc_inv (s\<lparr>disk := (disk s)(n := d), dwrites := w\<rparr>)"
    and "blk (s\<lparr>disk := (disk s)(n := d), dwrites := w\<rparr>) = blk s"
    and "lockedb (s\<lparr>disk := (disk s)(n := d), dwrites := w\<rparr>) = lockedb s"
    and "dirtyb (s\<lparr>disk := (disk s)(n := d), dwrites := w\<rparr>) = dirtyb s"
    and "held (s\<lparr>disk := (disk s)(n := d), dwrites := w\<rparr>) c m = held s c m"
proof -
  let ?s = "s\<lparr>disk := (disk s)(n := d), dwrites := w\<rparr>"
  have b: "b < NBUF" "b_valid (bufs s b)" "b_blockno (bufs s b) = n" "sl_locked (b_lock (bufs s b))"
    using assms(2) by (auto simp: held_def)
  have "b_valid (bufs s i) \<Longrightarrow> b_blockno (bufs s i) = n \<Longrightarrow> i = b" if "i < NBUF" for i
    using valid_unique [OF assms(1) that b(1)] b by simp
  then have "buf_ok (disk ?s) (bufs ?s i)" if "i < NBUF" for i
    using bc_invD(1) [OF assms(1) that] that b(4) by (auto simp: buf_ok_def)
  moreover have "\<exists>bs. ring ?s bs" using assms(1) by (simp add: bc_inv_def ring_bufs [of ?s s])
  ultimately show inv: "bc_inv ?s" using assms(1,3) by (simp add: bc_inv_def)
  show "lockedb ?s = lockedb s" "dirtyb ?s = dirtyb s" "held ?s c m = held s c m"
    by (simp_all add: lockedb_def dirtyb_def held_def)
  show "blk ?s = blk s"
  proof
    fix m
    show "blk ?s m = blk s m"
    proof (cases "m = n")
      case True
      then show ?thesis using blk_cached [OF assms(1) b(1,2,3)] blk_cached [OF inv, of b n] b by simp
    next
      case False
      then show ?thesis by (simp add: blk_def cong: option.case_cong)
    qed
  qed
qed

lemma bwrite_ok:
  assumes inv: "bc_inv s" and h: "held s b n" and n: "unat n < disksize s"
  shows "\<exists>s'. bwrite b s = Ok s' \<and> bc_inv s' \<and> held s' b n \<and> blk s' = blk s \<and>
    lockedb s' = lockedb s \<and> dirtyb s' = dirtyb s - {n} \<and>
    disk s' = (disk s)(n := blk s n) \<and> dwrites s' = dwrites s @ [(n, blk s n)] \<and>
    (\<forall>c. c \<noteq> b \<longrightarrow> bufs s' c = bufs s c) \<and>
    rest s' = rest s"
proof -
  let ?d = "b_data (bufs s b)"
  let ?s = "s\<lparr>disk := (disk s)(n := ?d), dwrites := dwrites s @ [(n, ?d)]\<rparr>"
  let ?r = "(bufs s b)\<lparr>b_dirty := False, b_valid := True\<rparr>"
  have b: "b < NBUF" using h by (simp add: held_def)
  have ok: "buf_ok (disk s) (bufs s b)" using bc_invD(1) [OF inv b] .
  note du = disk_update_inv [OF inv h buf_okD(1) [OF ok], of "dwrites s @ [(n, ?d)]"]
  have hs: "held ?s b n" using h du(5) by simp
  have one: "one_buf ?s b ?r"
    using h ok by (intro held_one_buf [OF du(1) hs]) (auto simp: held_def buf_ok_def)
  have "blk (upd_buf b (\<lambda>_. ?r) ?s) = blk s"
    using h blk_held [OF inv h] by (auto simp: fun_eq_iff one_buf_blk [OF one] held_def du(2))
  moreover have "lockedb (upd_buf b (\<lambda>_. ?r) ?s) = lockedb s"
    "dirtyb (upd_buf b (\<lambda>_. ?r) ?s) = dirtyb s - {n}"
    unfolding one_buf_sets [OF one] du using h held_dirty [OF inv h] held_locked [OF h]
    by (auto simp: held_def)
  moreover have "bwrite b s = Ok (upd_buf b (\<lambda>_. ?r) ?s)"
    using h n by (simp add: bwrite_def holdingsleep_def iderw_def Let_def held_def upd_buf_def)
  moreover have "held (upd_buf b (\<lambda>_. ?r) ?s) b n" using h by (simp add: held_def)
  ultimately show ?thesis
    using one_buf_inv [OF one] blk_held [OF inv h]
    by (intro exI [of _ "upd_buf b (\<lambda>_. ?r) ?s"] conjI) simp_all
qed

lemma core_views:
  assumes "\<And>i. core (bufs s' i) = core (bufs s i)" "disk s' = disk s"
  shows "blk s' = blk s" "lockedb s' = lockedb s" "dirtyb s' = dirtyb s" "held s' b n = held s b n"
    and "cur s' = cur s \<Longrightarrow> \<exists>bs. ring s' bs \<Longrightarrow> bc_inv s \<Longrightarrow> bc_inv s'"
proof -
  note c = core_fields [OF assms(1)]
  show "blk s' = blk s"
    by (simp add: fun_eq_iff blk_def c assms(2) cong: option.case_cong)
  show "lockedb s' = lockedb s" "dirtyb s' = dirtyb s" "held s' b n = held s b n"
    by (simp_all add: lockedb_def dirtyb_def held_def c)
  have "buf_ok d (bufs s' i) = buf_ok d (bufs s i)" for d i by (rule buf_ok_core [OF assms(1)])
  then show "bc_inv s'" if "cur s' = cur s" "\<exists>bs. ring s' bs" "bc_inv s"
    using that by (simp add: bc_inv_def same_block_def c assms(2))
qed

lemma brelse_ok:
  assumes inv: "bc_inv s" and h: "held s b n" and clean: "n \<in> dirtyb s \<or> blk s n = disk s n"
  shows "\<exists>s'. brelse b s = Ok s' \<and> bc_inv s' \<and> blk s' = blk s \<and> lockedb s' = lockedb s - {n} \<and>
    dirtyb s' = dirtyb s \<and> (\<forall>c. c \<noteq> b \<longrightarrow> core (bufs s' c) = core (bufs s c)) \<and>
    disk s' = disk s \<and> dwrites s' = dwrites s \<and> rest s' = rest s"
proof -
  let ?r = "(bufs s b)\<lparr>b_lock := (b_lock (bufs s b))\<lparr>sl_locked := False, sl_pid := 0\<rparr>,
    b_refcnt := b_refcnt (bufs s b) - 1\<rparr>"
  let ?t = "upd_buf b (\<lambda>_. ?r) s"
  let ?s = "wakeup (ChBufLock b) ?t"
  have b: "b < NBUF" using h by (simp add: held_def)
  have ok: "buf_ok (disk s) (bufs s b)" using bc_invD(1) [OF inv b] .
  have one: "one_buf s b ?r"
    using h ok clean held_dirty [OF inv h] blk_held [OF inv h]
    by (intro held_one_buf [OF inv h]) (auto simp: held_def buf_ok_def)
  have rc: "b_refcnt ?r = 0" using h buf_okD(2) [OF ok] by (simp add: held_def)
  have t: "bc_inv ?t" "blk ?t = blk s" "lockedb ?t = lockedb s - {n}" "dirtyb ?t = dirtyb s"
    using one_buf_inv [OF one] one_buf_blk [OF one] h held_dirty [OF inv h] blk_held [OF inv h]
      held_locked [OF h]
    by (auto simp: fun_eq_iff one_buf_sets [OF one] held_def)
  have cw: "core (bufs ?s i) = core (bufs ?t i)" for i by simp
  have ring: "\<exists>bs. ring ?s bs" using t(1) by (simp add: bc_inv_def ring_bufs [of ?s ?t])
  note w = core_views [of ?s ?t, OF cw wakeup_simps(2)]
  have ws: "bc_inv ?s" using w(5) ring t(1) by simp
  have cm: "core (bufs (move_to_front b ?s) i) = core (bufs ?s i)" for i by simp
  note m = core_views [of "move_to_front b ?s" ?s, OF cm move_to_front_simps(2)]
  have mr: "\<exists>bs. ring (move_to_front b ?s) bs" using ring move_to_front_links [OF _ b] by blast
  have "brelse b s = Ok (move_to_front b ?s)"
    using h rc
    by (simp add: brelse_def holdingsleep_def held_def releasesleep_def Let_def upd_buf_wakeup)
      (simp add: upd_buf_def)
  then show ?thesis
    using m(5) [OF _ mr ws] m(1-3) w(1-3) t(2-4)
    by (intro exI [of _ "move_to_front b ?s"]) simp
qed

section \<open>The interface of the block layer\<close>

text \<open>
  The abstract state of the block layer, and the contract of its four operations as functions on
  it. The lemmas of the locale are the two idioms of the layers above: change a block and write it
  through, and copy one block onto another.
\<close>

record 'r bview =
  bv_blk :: "u32 \<Rightarrow> bytes"
  bv_disk :: "u32 \<Rightarrow> bytes"
  bv_writes :: "(u32 \<times> bytes) list"
  bv_locked :: "u32 set"
  bv_dirty :: "u32 set"
  bv_rest :: 'r

definition bv_room :: "'r bview \<Rightarrow> u32 \<Rightarrow> bool" where
  "bv_room v n \<longleftrightarrow> n \<notin> bv_locked v \<and>
     (n \<in> bv_dirty v \<or> card (bv_locked v \<union> bv_dirty v) < NBUF)"

text \<open>The effect of writing the contents of block \<open>m\<close> through to block \<open>n\<close>.\<close>

definition copied :: "u32 \<Rightarrow> u32 \<Rightarrow> 'r bview \<Rightarrow> 'r bview" where
  "copied n m v = v\<lparr>bv_blk := (bv_blk v)(n := bv_blk v m), bv_disk := (bv_disk v)(n := bv_blk v m),
     bv_writes := bv_writes v @ [(n, bv_blk v m)], bv_dirty := bv_dirty v - {n}\<rparr>"

locale block_layer =
  fixes read :: "u32 \<Rightarrow> 's \<Rightarrow> (nat \<times> 's) res"
    and put :: "nat \<Rightarrow> bytes \<Rightarrow> 's \<Rightarrow> 's"
    and flush :: "nat \<Rightarrow> 's \<Rightarrow> 's res"
    and release :: "nat \<Rightarrow> 's \<Rightarrow> 's res"
    and data :: "'s \<Rightarrow> nat \<Rightarrow> bytes"
    and inv :: "'s \<Rightarrow> bool"
    and held :: "'s \<Rightarrow> nat \<Rightarrow> u32 \<Rightarrow> bool"
    and view :: "'s \<Rightarrow> 'r bview"
    and on_disk :: "'r \<Rightarrow> u32 \<Rightarrow> bool"
  assumes read_ok: "inv s \<Longrightarrow> on_disk (bv_rest (view s)) n \<Longrightarrow> bv_room (view s) n \<Longrightarrow>
      \<exists>b s'. read n s = Ok (b, s') \<and> inv s' \<and> held s' b n \<and>
        (\<forall>c m. held s c m \<longrightarrow> held s' c m) \<and>
        view s' = (view s)\<lparr>bv_locked := insert n (bv_locked (view s))\<rparr>"
    and put_ok: "inv s \<Longrightarrow> held s b n \<Longrightarrow> length d = BSIZE \<Longrightarrow>
      inv (put b d s) \<and> (\<forall>c m. held s c m \<longrightarrow> held (put b d s) c m) \<and>
        view (put b d s) = (view s)\<lparr>bv_blk := (bv_blk (view s))(n := d)\<rparr>"
    and flush_ok: "inv s \<Longrightarrow> held s b n \<Longrightarrow> on_disk (bv_rest (view s)) n \<Longrightarrow>
      \<exists>s'. flush b s = Ok s' \<and> inv s' \<and> (\<forall>c m. held s c m \<longrightarrow> held s' c m) \<and>
        view s' = (view s)\<lparr>bv_disk := (bv_disk (view s))(n := bv_blk (view s) n),
          bv_writes := bv_writes (view s) @ [(n, bv_blk (view s) n)],
          bv_dirty := bv_dirty (view s) - {n}\<rparr>"
    and release_ok: "inv s \<Longrightarrow> held s b n \<Longrightarrow>
      n \<in> bv_dirty (view s) \<or> bv_blk (view s) n = bv_disk (view s) n \<Longrightarrow>
      \<exists>s'. release b s = Ok s' \<and> inv s' \<and> (\<forall>c m. c \<noteq> b \<longrightarrow> held s c m \<longrightarrow> held s' c m) \<and>
        view s' = (view s)\<lparr>bv_locked := bv_locked (view s) - {n}\<rparr>"
    and data_ok: "inv s \<Longrightarrow> held s b n \<Longrightarrow> data s b = bv_blk (view s) n"
    and data_length: "inv s \<Longrightarrow> length (bv_blk (view s) n) = BSIZE"
    and held_fun: "held s b n \<Longrightarrow> held s b m \<Longrightarrow> n = m"
    and clean: "inv s \<Longrightarrow> n \<notin> bv_dirty (view s) \<Longrightarrow> n \<notin> bv_locked (view s) \<Longrightarrow>
      bv_blk (view s) n = bv_disk (view s) n"
begin

lemma update_block:
  assumes inv: "inv s" and n: "on_disk (bv_rest (view s)) n" "bv_room (view s) n"
    and f: "\<And>d. length d = BSIZE \<Longrightarrow> length (f d) = BSIZE"
  shows "\<exists>s'. kbind (read n s) (\<lambda>(b, s). kbind (flush b (put b (f (data s b)) s)) (release b)) = Ok s' \<and>
    inv s' \<and> view s' = (view s)\<lparr>bv_blk := (bv_blk (view s))(n := f (bv_blk (view s) n)),
      bv_disk := (bv_disk (view s))(n := f (bv_blk (view s) n)),
      bv_writes := bv_writes (view s) @ [(n, f (bv_blk (view s) n))],
      bv_dirty := bv_dirty (view s) - {n}\<rparr>"
proof -
  obtain b s1 where r: "read n s = Ok (b, s1)" "inv s1" "held s1 b n"
    "view s1 = (view s)\<lparr>bv_locked := insert n (bv_locked (view s))\<rparr>"
    using read_ok [OF inv n] by blast
  have d: "data s1 b = bv_blk (view s) n" "length (f (data s1 b)) = BSIZE"
    using data_ok [OF r(2,3)] data_length [OF inv] r(4) f by simp_all
  note p = put_ok [OF r(2,3) d(2)]
  obtain s2 where w: "flush b (put b (f (data s1 b)) s1) = Ok s2" "inv s2" "held s2 b n"
    "view s2 = (view (put b (f (data s1 b)) s1))\<lparr>bv_disk := (bv_disk (view s1))(n := f (data s1 b)),
      bv_writes := bv_writes (view s1) @ [(n, f (data s1 b))], bv_dirty := bv_dirty (view s1) - {n}\<rparr>"
    using flush_ok [of "put b (f (data s1 b)) s1" b n] p r n(1) by auto
  obtain s3 where "release b s2 = Ok s3" "inv s3"
    "view s3 = (view s2)\<lparr>bv_locked := bv_locked (view s2) - {n}\<rparr>"
    using release_ok [OF w(2,3)] w(4) p by auto
  then show ?thesis using r w p d n(2) by (simp add: bv_room_def)
qed

lemma read_block:
  assumes inv: "inv s" and n: "on_disk (bv_rest (view s)) n" "bv_room (view s) n"
  shows "\<exists>b s1 s2. read n s = Ok (b, s1) \<and> data s1 b = bv_blk (view s) n \<and>
    release b s1 = Ok s2 \<and> inv s2 \<and> view s2 = view s"
proof -
  obtain b s1 where r: "read n s = Ok (b, s1)" "inv s1" "held s1 b n"
    "view s1 = (view s)\<lparr>bv_locked := insert n (bv_locked (view s))\<rparr>"
    using read_ok [OF inv n] by blast
  have "n \<in> bv_dirty (view s1) \<or> bv_blk (view s1) n = bv_disk (view s1) n"
    using clean [OF inv] n(2) r(4) by (auto simp: bv_room_def)
  then obtain s2 where "release b s1 = Ok s2" "inv s2"
    "view s2 = (view s1)\<lparr>bv_locked := bv_locked (view s1) - {n}\<rparr>"
    using release_ok [OF r(2,3)] by blast
  then show ?thesis using r n(2) data_ok [OF r(2,3)] by (auto simp: bv_room_def)
qed

lemma copy_held:
  assumes inv: "inv s" and h: "held s b n" "held s c m" and nm: "n \<noteq> m"
    and n: "on_disk (bv_rest (view s)) n"
    and m: "m \<in> bv_dirty (view s) \<or> bv_blk (view s) m = bv_disk (view s) m"
  shows "\<exists>s1 s2. flush b (put b (data s c) s) = Ok s1 \<and> release c s1 = Ok s2 \<and>
    (\<exists>s3. release b s2 = Ok s3 \<and> inv s3 \<and>
      view s3 = (copied n m (view s))\<lparr>bv_locked := bv_locked (view s) - {m} - {n}\<rparr>)"
proof -
  have d: "data s c = bv_blk (view s) m" using data_ok [OF inv h(2)] .
  have p: "inv (put b (data s c) s)" "held (put b (data s c) s) b n" "held (put b (data s c) s) c m"
    "view (put b (data s c) s) = (view s)\<lparr>bv_blk := (bv_blk (view s))(n := bv_blk (view s) m)\<rparr>"
    using put_ok [OF inv h(1), of "data s c"] data_length [OF inv] d h by auto
  obtain s1 where w: "flush b (put b (data s c) s) = Ok s1" "inv s1" "held s1 b n" "held s1 c m"
    "view s1 = copied n m (view s)"
    using flush_ok [OF p(1,2)] p(2-4) n by (auto simp: copied_def)
  have "b \<noteq> c" using held_fun h nm by blast
  then obtain s2 where r: "release c s1 = Ok s2" "inv s2" "held s2 b n"
    "view s2 = (view s1)\<lparr>bv_locked := bv_locked (view s1) - {m}\<rparr>"
    using release_ok [OF w(2,4)] w m nm by (auto simp: copied_def)
  obtain s3 where "release b s2 = Ok s3" "inv s3"
    "view s3 = (view s2)\<lparr>bv_locked := bv_locked (view s2) - {n}\<rparr>"
    using release_ok [OF r(2,3)] r(4) w(5) by (auto simp: copied_def)
  then show ?thesis using w r by (auto simp: copied_def)
qed

lemma copy_block:
  assumes inv: "inv s" and nm: "n \<noteq> m" and x: "x = n \<and> y = m \<or> x = m \<and> y = n"
    and n: "on_disk (bv_rest (view s)) n" "on_disk (bv_rest (view s)) m"
    and room: "bv_room (view s) x" "bv_room ((view s)\<lparr>bv_locked := insert x (bv_locked (view s))\<rparr>) y"
  shows "\<exists>bx s1 c s2. read x s = Ok (bx, s1) \<and> read y s1 = Ok (c, s2) \<and>
    bv_rest (view s1) = bv_rest (view s) \<and> bv_rest (view s2) = bv_rest (view s) \<and>
    (\<exists>s3 s4 s5. flush (if x = n then bx else c) (put (if x = n then bx else c)
        (data s2 (if x = n then c else bx)) s2) = Ok s3 \<and>
      release (if x = n then c else bx) s3 = Ok s4 \<and> release (if x = n then bx else c) s4 = Ok s5 \<and>
      inv s5 \<and> view s5 = copied n m (view s))"
proof -
  obtain bx s1 where r1: "read x s = Ok (bx, s1)" "inv s1" "held s1 bx x"
    "view s1 = (view s)\<lparr>bv_locked := insert x (bv_locked (view s))\<rparr>"
    using read_ok [OF inv _ room(1)] n x by blast
  have on: "on_disk (bv_rest (view s1)) y" using n x r1(4) by auto
  obtain c s2 where r2: "read y s1 = Ok (c, s2)" "inv s2" "held s2 c y" "held s2 bx x"
    "view s2 = (view s1)\<lparr>bv_locked := insert y (bv_locked (view s1))\<rparr>"
    using read_ok [OF r1(2) on] room(2) r1(3,4) by metis
  have free: "x \<notin> bv_locked (view s)" "y \<notin> bv_locked (view s)" using room by (auto simp: bv_room_def)
  then have m: "m \<in> bv_dirty (view s) \<or> bv_blk (view s) m = bv_disk (view s) m"
    using clean [OF inv, of m] x by blast
  let ?b = "if x = n then bx else c" let ?c = "if x = n then c else bx"
  have h: "held s2 ?b n" "held s2 ?c m" using r2(3,4) x nm by auto
  obtain s3 s4 s5 where "flush ?b (put ?b (data s2 ?c) s2) = Ok s3" "release ?c s3 = Ok s4"
    "release ?b s4 = Ok s5" "inv s5"
    "view s5 = (copied n m (view s2))\<lparr>bv_locked := bv_locked (view s2) - {m} - {n}\<rparr>"
    using copy_held [OF r2(2) h nm] m n r1(4) r2(5) by auto
  moreover have "bv_locked (view s2) - {m} - {n} = bv_locked (view s)"
    using free x r1(4) r2(5) by auto
  ultimately show ?thesis using r1(1,4) r2(1,5) by (auto simp: copied_def)
qed

end

definition bc_view :: "kernel \<Rightarrow> kernel bview" where
  "bc_view s = \<lparr>bv_blk = blk s, bv_disk = disk s, bv_writes = dwrites s, bv_locked = lockedb s,
     bv_dirty = dirtyb s, bv_rest = rest s\<rparr>"

lemma bc_view_simps [simp]:
  "bv_blk (bc_view s) = blk s" "bv_disk (bc_view s) = disk s" "bv_writes (bc_view s) = dwrites s"
  "bv_locked (bc_view s) = lockedb s" "bv_dirty (bc_view s) = dirtyb s" "bv_rest (bc_view s) = rest s"
  by (simp_all add: bc_view_def)

lemma disksize_rest [simp]: "disksize (rest s) = disksize s"
  by (simp add: rest_def)

lemma blk_clean:
  assumes "bc_inv s" "n \<notin> dirtyb s" "n \<notin> lockedb s"
  shows "blk s n = disk s n"
proof (cases "\<exists>i<NBUF. b_valid (bufs s i) \<and> b_blockno (bufs s i) = n")
  case True
  then obtain i where i: "i < NBUF" "b_valid (bufs s i)" "b_blockno (bufs s i) = n" by blast
  then have "\<not> b_dirty (bufs s i)" "\<not> sl_locked (b_lock (bufs s i))"
    using assms(2,3) by (auto simp: dirtyb_def lockedb_def)
  then show ?thesis
    using buf_okD(6) [OF bc_invD(1) [OF assms(1) i(1)]] i blk_cached [OF assms(1) i] by simp
qed (intro blk_uncached, blast)

lemma held_frame:
  assumes "\<And>c. c \<noteq> b \<Longrightarrow> core (bufs s' c) = core (bufs s c)" "c \<noteq> b" "held s c m"
  shows "held s' c m"
  using assms core_fields [OF assms(1)] by (auto simp: held_def)

interpretation bc: block_layer "bread 1" set_data bwrite brelse "\<lambda>s b. b_data (bufs s b)"
  bc_inv held bc_view "\<lambda>r n. unat n < disksize r"
proof (unfold_locales, goal_cases)
  case (1 s n)
  then obtain b s' where s': "bread 1 n s = Ok (b, s')" "bread_post s n b s'"
    using bread_ok [of s n] by (auto simp: bv_room_def)
  have "held s' c m" if "held s c m" for c m
    using that s'(2) held_frame [of b s' s c m] by (auto simp: bread_post_def held_def)
  then show ?case using s' by (auto simp: bread_post_def bc_view_def)
next
  case (2 s b n d)
  have "held (set_data b d s) c m" if "held s c m" for c m
    using that by (auto simp: held_def set_data_def)
  then show ?case using 2 set_data_ok [OF 2] by (auto simp: bc_view_def set_data_def)
next
  case (3 s b n)
  then obtain s' where s': "bwrite b s = Ok s'" "bc_inv s'" "held s' b n" "blk s' = blk s"
    "lockedb s' = lockedb s" "dirtyb s' = dirtyb s - {n}" "disk s' = (disk s)(n := blk s n)"
    "dwrites s' = dwrites s @ [(n, blk s n)]" "\<forall>c. c \<noteq> b \<longrightarrow> bufs s' c = bufs s c" "rest s' = rest s"
    using bwrite_ok [of s b n] by auto
  have "held s' c m" if "held s c m" for c m
    using that s'(3,9) 3(2) held_frame [of b s' s c m] by (cases "c = b") (auto simp: held_def)
  then show ?case using s' by (auto simp: bc_view_def)
next
  case (4 s b n)
  then obtain s' where s': "brelse b s = Ok s'" "bc_inv s'" "blk s' = blk s"
    "lockedb s' = lockedb s - {n}" "dirtyb s' = dirtyb s"
    "\<forall>c. c \<noteq> b \<longrightarrow> core (bufs s' c) = core (bufs s c)"
    "disk s' = disk s" "dwrites s' = dwrites s" "rest s' = rest s"
    using brelse_ok [of s b n] by auto
  then show ?case using held_frame [of b s' s] by (auto simp: bc_view_def)
next
  case (5 s b n)
  then show ?case by (simp add: blk_held)
next
  case (6 s n)
  then show ?case using blk_length by simp
next
  case (7 s b n m)
  then show ?case by (simp add: held_def)
next
  case (8 s n)
  then show ?case by (simp add: blk_clean)
qed

section \<open>Initialisation\<close>

lemma binit_one_step:
  assumes "dring (bnext s) (bprev s) bs" "b \<notin> set (NBUF # bs)"
  shows "dring (bnext (binit_one b s)) (bprev (binit_one b s)) (b # bs)"
    and "core (bufs (binit_one b s) i) = (if i = b then core ((bufs s b)\<lparr>b_lock := initsleeplock (b_lock (bufs s b))\<rparr>)
      else core (bufs s i))"
    and "disk (binit_one b s) = disk s \<and> cur (binit_one b s) = cur s"
proof -
  have l': "bnext (upd_buf b (\<lambda>r. r\<lparr>b_lock := initsleeplock (b_lock r)\<rparr>) t) = bnext t"
    "bprev (upd_buf b (\<lambda>r. r\<lparr>b_lock := initsleeplock (b_lock r)\<rparr>) t) = bprev t" for t
    by (simp_all add: fun_eq_iff bnext_def bprev_def)
  show "dring (bnext (binit_one b s)) (bprev (binit_one b s)) (b # bs)"
    using dring_push [OF assms] assms(2) by (simp add: binit_one_def Let_def l')
  show "core (bufs (binit_one b s) i) = (if i = b then core ((bufs s b)\<lparr>b_lock := initsleeplock (b_lock (bufs s b))\<rparr>)
      else core (bufs s i))"
    by (simp add: binit_one_def Let_def set_next_def set_prev_def core_def)
  show "disk (binit_one b s) = disk s \<and> cur (binit_one b s) = cur s"
    by (simp add: binit_one_def Let_def)
qed

lemma binit_fold:
  assumes "dring (bnext s) (bprev s) []" "\<forall>i. core (bufs s i) = core zero_buf" "k \<le> NBUF"
  shows "dring (bnext (fold binit_one [0..<k] s)) (bprev (fold binit_one [0..<k] s)) (rev [0..<k]) \<and>
    (\<forall>i. core (bufs (fold binit_one [0..<k] s) i) = core zero_buf) \<and>
    disk (fold binit_one [0..<k] s) = disk s \<and> cur (fold binit_one [0..<k] s) = cur s"
  using assms(3)
proof (induction k)
  case 0
  then show ?case using assms by simp
next
  case (Suc k)
  let ?t = "fold binit_one [0..<k] s"
  have d: "dring (bnext ?t) (bprev ?t) (rev [0..<k])" using Suc by simp
  have "k \<notin> set (NBUF # rev [0..<k])" using Suc.prems by auto
  note st = binit_one_step [OF d this]
  have "core (bufs ?t i) = core zero_buf" for i using Suc by simp
  then have "core ((bufs ?t k)\<lparr>b_lock := initsleeplock (b_lock (bufs ?t k))\<rparr>) = core zero_buf"
    using core_fields(5) [of "bufs ?t k" zero_buf]
    by (simp add: core_def zero_buf_def zero_sleeplock_def initsleeplock_def) (metis buf.ext_inject buf.surjective buf.update_convs(5))
  then show ?case using st Suc by simp
qed

lemma binit_ok:
  assumes "\<forall>i. bufs s i = zero_buf" "\<forall>n. length (disk s n) = BSIZE" "cur s \<noteq> None"
  shows "bc_inv (binit s)" "lockedb (binit s) = {}" "dirtyb (binit s) = {}" "blk (binit s) = disk s"
    "disk (binit s) = disk s"
proof -
  let ?t = "set_next NBUF NBUF (set_prev NBUF NBUF s)"
  have "dring (bnext ?t) (bprev ?t) []" by (simp add: dring_def)
  moreover have "\<forall>i. core (bufs ?t i) = core zero_buf" using assms(1) by simp
  ultimately have f: "dring (bnext (binit s)) (bprev (binit s)) (rev [0..<NBUF])"
    "\<And>i. core (bufs (binit s) i) = core zero_buf" "disk (binit s) = disk s" "cur (binit s) = cur s"
    using binit_fold [of ?t NBUF] by (simp_all add: binit_def)
  note c = core_fields [OF f(2)]
  have "ring (binit s) (rev [0..<NBUF])" using f(1) by (auto simp: ring_def)
  moreover have "buf_ok (disk (binit s)) (bufs (binit s) i)" for i
    by (simp add: buf_ok_def c zero_buf_def zero_sleeplock_def)
  ultimately show "bc_inv (binit s)"
    using assms(2,3) f(3,4) by (auto simp: bc_inv_def same_block_def c zero_buf_def)
  show "lockedb (binit s) = {}" "dirtyb (binit s) = {}" "disk (binit s) = disk s"
    by (simp_all add: lockedb_def dirtyb_def c f(3) zero_buf_def zero_sleeplock_def)
  show "blk (binit s) = disk s"
    using f(3) by (auto simp: fun_eq_iff c zero_buf_def intro!: blk_uncached [THEN trans])
qed

text \<open>A booted buffer cache over a disk of zeroes, with process 0 running.\<close>

definition demo_cache :: kernel where
  "demo_cache = binit (demo_kernel\<lparr>cur := Some 0\<rparr>)"

lemma fold_binit_disksize: "disksize (fold binit_one bs s) = disksize s"
proof (induction bs arbitrary: s)
  case (Cons b bs)
  have "disksize (binit_one b s) = disksize s"
    by (simp add: binit_one_def Let_def set_next_def set_prev_def)
  then show ?case using Cons by simp
qed simp

lemma demo_cache_simps [simp]:
  "bc_inv demo_cache" "lockedb demo_cache = {}" "dirtyb demo_cache = {}"
  "blk demo_cache = (\<lambda>_. replicate 512 0)" "disksize demo_cache = 1000"
  "disk demo_cache = (\<lambda>_. replicate 512 0)"
  using binit_ok [of "demo_kernel\<lparr>cur := Some 0\<rparr>"]
  by (simp_all add: demo_cache_def binit_def fold_binit_disksize set_next_def set_prev_def)

section \<open>Properties\<close>

text \<open>C10: The buffer cache implements a map from block numbers to contents: reading a block that no process holds, changing it, bwrite and brelse succeed when a buffer is free, change that block and no other, reach the disk, and keep the ring of buffers and one buffer per block.\<close>

theorem block_update_refines:
  assumes "bc_inv s" "unat n < disksize s" "n \<notin> lockedb s"
    "n \<in> dirtyb s \<or> card (lockedb s \<union> dirtyb s) < NBUF" "length d = BSIZE"
  shows "\<exists>s'. kbind (bread 1 n s) (\<lambda>(b, s). kbind (bwrite b (set_data b d s)) (brelse b)) = Ok s' \<and>
    bc_inv s' \<and> blk s' = (blk s)(n := d) \<and> disk s' = (disk s)(n := d) \<and>
    lockedb s' = lockedb s \<and> dirtyb s' = dirtyb s - {n} \<and> rest s' = rest s"
proof -
  obtain s' where s': "kbind (bread 1 n s) (\<lambda>(b, s). kbind (bwrite b (set_data b d s)) (brelse b)) = Ok s'"
    "bc_inv s'" "bc_view s' = (bc_view s)\<lparr>bv_blk := (blk s)(n := d), bv_disk := (disk s)(n := d),
      bv_writes := dwrites s @ [(n, d)], bv_dirty := dirtyb s - {n}\<rparr>"
    using bc.update_block [of s n "\<lambda>_. d"] assms by (auto simp: bv_room_def)
  then show ?thesis by (auto simp: bc_view_def)
qed

theorem block_update_refines_witness:
  "\<exists>s'. kbind (bread 1 5 demo_cache) (\<lambda>(b, s). kbind (bwrite b (set_data b (replicate 512 7) s)) (brelse b))
      = Ok s' \<and> blk s' 5 = replicate 512 7 \<and> disk s' 5 = replicate 512 7 \<and> blk s' 6 = replicate 512 0"
  using block_update_refines [of demo_cache 5 "replicate 512 7"] by auto

end
