(* ===== verification/Layout.thy ===== *)
theory Layout
  imports Kernel_State
begin

text \<open>
  The structures that live in disk blocks (\<^verbatim>\<open>fs.h\<close>, and the log header of \<^verbatim>\<open>log.c\<close>): their byte
  layouts as encoders and decoders, with the round trips, as instances of the interface \<open>codec\<close>.
\<close>

section \<open>Arrays of words\<close>

definition le32s :: "u32 list \<Rightarrow> bytes" where
  "le32s ws = concat (map le32 ws)"

definition word_at :: "bytes \<Rightarrow> nat \<Rightarrow> u32" where
  "word_at bs i = of_le32 (slice (4 * i) 4 bs)"

definition put_word :: "nat \<Rightarrow> u32 \<Rightarrow> bytes \<Rightarrow> bytes" where
  "put_word i w bs = patch bs (4 * i) (le32 w)"

lemma length_le32s [simp]: "length (le32s ws) = 4 * length ws"
  by (induction ws) (simp_all add: le32s_def)

lemma length_put_word [simp]: "4 * i + 4 \<le> length bs \<Longrightarrow> length (put_word i w bs) = length bs"
  by (simp add: put_word_def)

lemma word_at_put_word:
  assumes "4 * i + 4 \<le> length bs" "4 * j + 4 \<le> length bs"
  shows "word_at (put_word i w bs) j = (if i = j then w else word_at bs j)"
proof (cases "i = j")
  case False
  then have "4 * j + 4 \<le> 4 * i \<or> 4 * i + 4 \<le> 4 * j" by auto
  then show ?thesis using assms False by (simp add: word_at_def put_word_def slice_patch_other)
qed (use assms in \<open>simp add: word_at_def put_word_def\<close>)

lemma word_at_le32s: "i < length ws \<Longrightarrow> word_at (le32s ws @ bs) i = ws ! i"
proof (induction ws arbitrary: i)
  case (Cons w ws)
  then show ?case
    by (cases i) (simp_all add: word_at_def le32s_def slice_def)
qed simp

section \<open>The structures of \<^verbatim>\<open>fs.h\<close>\<close>

definition enc_superblock :: "superblock \<Rightarrow> bytes" where
  "enc_superblock x = le32s [sb_size x, sb_nblocks x, sb_ninodes x, sb_nlog x, sb_logstart x,
     sb_inodestart x, sb_bmapstart x]"

definition dec_superblock :: "bytes \<Rightarrow> superblock" where
  "dec_superblock bs = \<lparr>sb_size = word_at bs 0, sb_nblocks = word_at bs 1, sb_ninodes = word_at bs 2,
     sb_nlog = word_at bs 3, sb_logstart = word_at bs 4, sb_inodestart = word_at bs 5,
     sb_bmapstart = word_at bs 6\<rparr>"

definition enc_dinode :: "dinode \<Rightarrow> bytes" where
  "enc_dinode x = le16 (di_type x) @ le16 (di_major x) @ le16 (di_minor x) @ le16 (di_nlink x) @
     le32 (di_size x) @ le32s (di_addrs x)"

definition dec_dinode :: "bytes \<Rightarrow> dinode" where
  "dec_dinode bs = \<lparr>di_type = of_le16 (slice 0 2 bs), di_major = of_le16 (slice 2 2 bs),
     di_minor = of_le16 (slice 4 2 bs), di_nlink = of_le16 (slice 6 2 bs),
     di_size = of_le32 (slice 8 4 bs), di_addrs = map (word_at (drop 12 bs)) [0..<NDIRECT + 1]\<rparr>"

definition enc_dirent :: "dirent \<Rightarrow> bytes" where
  "enc_dirent x = le16 (de_inum x) @ de_name x"

definition dec_dirent :: "bytes \<Rightarrow> dirent" where
  "dec_dirent bs = \<lparr>de_inum = of_le16 (slice 0 2 bs), de_name = slice 2 DIRSIZ bs\<rparr>"

abbreviation (input) "dinode_size \<equiv> (64 :: nat)"
abbreviation (input) "dirent_size \<equiv> (16 :: nat)"

definition IBLOCK :: "u32 \<Rightarrow> superblock \<Rightarrow> u32" where
  "IBLOCK i x = i div word_of_nat IPB + sb_inodestart x"

definition BBLOCK :: "u32 \<Rightarrow> superblock \<Rightarrow> u32" where
  "BBLOCK b x = b div word_of_nat BPB + sb_bmapstart x"

interpretation sbc: codec enc_superblock dec_superblock 28 "\<lambda>_. True"
proof (unfold_locales, goal_cases)
  case (2 x)
  have "dec_superblock (enc_superblock x @ []) = x"
    unfolding dec_superblock_def enc_superblock_def by (simp add: word_at_le32s del: append_Nil2)
  then show ?case by simp
qed (simp add: enc_superblock_def)

interpretation dic: codec enc_dinode dec_dinode dinode_size "\<lambda>x. length (di_addrs x) = NDIRECT + 1"
proof (unfold_locales, goal_cases)
  case (2 x)
  have "map (word_at (le32s (di_addrs x))) [0..<13] = di_addrs x"
    using 2 word_at_le32s [of _ "di_addrs x" "[]"] by (intro nth_equalityI) simp_all
  then show ?case by (simp add: dec_dinode_def enc_dinode_def slice_def)
qed (simp add: enc_dinode_def)

interpretation dre: codec enc_dirent dec_dirent dirent_size "\<lambda>x. length (de_name x) = DIRSIZ"
  by unfold_locales (simp_all add: enc_dirent_def dec_dirent_def slice_def)


definition demo_dinode :: dinode where
  "demo_dinode = \<lparr>di_type = 2, di_major = 0, di_minor = 0, di_nlink = 1, di_size = 600,
     di_addrs = [59, 60] @ replicate 11 0\<rparr>"


end
