(* ===== verification/Log.thy ===== *)
theory Log
  imports Bio Layout
begin

text \<open>
  The write-ahead log (\<^verbatim>\<open>log.c\<close>). The in-memory header is a field of the kernel record; the
  fixed array \<^verbatim>\<open>block[LOGSIZE]\<close> is a list of that length, and an access outside it, which C
  leaves undefined, is the outcome \<open>Fault\<close>. A crash keeps the disk and loses everything else: a
  crash point is a prefix of the list of writes that reached the disk.
\<close>

section \<open>Operations\<close>

definition readsb :: "u32 \<Rightarrow> kernel \<Rightarrow> (superblock \<times> kernel) res" where
  "readsb dev s =
     kbind (bread dev 1 s) (\<lambda>(bp, s).
       let x = dec_superblock (b_data (bufs s bp)) in
       kbind (brelse bp s) (\<lambda>s. Ok (x, s)))"

definition logblk :: "logst \<Rightarrow> nat \<Rightarrow> u32" where
  "logblk l i = word_of_int (l_start l + int i)"

definition lh_block :: "nat \<Rightarrow> kernel \<Rightarrow> u32 res" where
  "lh_block i s = (if i < LOGSIZE then Ok (l_block (log s) ! i) else Fault ''log.lh.block'')"

definition upd_log :: "(logst \<Rightarrow> logst) \<Rightarrow> kernel \<Rightarrow> kernel" where
  "upd_log f s = s\<lparr>log := f (log s)\<rparr>"

definition install_one :: "nat \<Rightarrow> kernel \<Rightarrow> kernel res" where
  "install_one tail s =
     kbind (bread (l_dev (log s)) (logblk (log s) (tail + 1)) s) (\<lambda>(lbuf, s).
     kbind (lh_block tail s) (\<lambda>dst.
     kbind (bread (l_dev (log s)) dst s) (\<lambda>(dbuf, s).
     kbind (bwrite dbuf (set_data dbuf (b_data (bufs s lbuf)) s)) (\<lambda>s.
     kbind (brelse lbuf s) (\<lambda>s. brelse dbuf s)))))"

definition install_trans :: "kernel \<Rightarrow> kernel res" where
  "install_trans s = for_each install_one [0..<nat (l_n (log s))] s"

definition load_head :: "bytes \<Rightarrow> logst \<Rightarrow> logst" where
  "load_head d l =
     (let n = sint (word_at d 0) in
      l\<lparr>l_n := n, l_block :=
        map (\<lambda>i. if int i < n then word_at d (i + 1) else l_block l ! i) [0..<LOGSIZE]\<rparr>)"

definition read_head :: "kernel \<Rightarrow> kernel res" where
  "read_head s =
     kbind (bread (l_dev (log s)) (logblk (log s) 0) s) (\<lambda>(b, s).
     let d = b_data (bufs s b) in
     if sint (word_at d 0) > int LOGSIZE then Fault ''read_head: log.lh.block''
     else brelse b (upd_log (load_head d) s))"

definition head_data :: "int \<Rightarrow> u32 list \<Rightarrow> bytes \<Rightarrow> bytes" where
  "head_data n bl d =
     fold (\<lambda>i. put_word (i + 1) (bl ! i)) [0..<nat n] (put_word 0 (word_of_int n) d)"

definition write_head :: "kernel \<Rightarrow> kernel res" where
  "write_head s =
     kbind (bread (l_dev (log s)) (logblk (log s) 0) s) (\<lambda>(b, s).
     if l_n (log s) > int LOGSIZE then Fault ''write_head: log.lh.block''
     else
       kbind (bwrite b (set_data b
           (head_data (l_n (log s)) (l_block (log s)) (b_data (bufs s b))) s))
         (brelse b))"

definition recover_from_log :: "kernel \<Rightarrow> kernel res" where
  "recover_from_log s =
     kbind (read_head s) (\<lambda>s.
     kbind (install_trans s) (\<lambda>s. write_head (upd_log (\<lambda>l. l\<lparr>l_n := 0\<rparr>) s)))"

definition initlog :: "u32 \<Rightarrow> kernel \<Rightarrow> kernel res" where
  "initlog dev s =
     kbind (readsb dev s) (\<lambda>(x, s).
       recover_from_log (upd_log (\<lambda>l. l\<lparr>l_start := sint (sb_logstart x), l_size := sint (sb_nlog x),
         l_dev := dev\<rparr>) s))"

definition begin_op :: "kernel \<Rightarrow> kernel res" where
  "begin_op s =
     (if l_committing (log s) then Block ChLog
      else if l_n (log s) + (l_outstanding (log s) + 1) * int MAXOPBLOCKS > int LOGSIZE
      then Block ChLog
      else Ok (upd_log (\<lambda>l. l\<lparr>l_outstanding := l_outstanding l + 1\<rparr>) s))"

definition write_log_one :: "nat \<Rightarrow> kernel \<Rightarrow> kernel res" where
  "write_log_one tail s =
     kbind (bread (l_dev (log s)) (logblk (log s) (tail + 1)) s) (\<lambda>(dst, s).
     kbind (lh_block tail s) (\<lambda>src.
     kbind (bread (l_dev (log s)) src s) (\<lambda>(from, s).
     kbind (bwrite dst (set_data dst (b_data (bufs s from)) s)) (\<lambda>s.
     kbind (brelse from s) (\<lambda>s. brelse dst s)))))"

definition write_log :: "kernel \<Rightarrow> kernel res" where
  "write_log s = for_each write_log_one [0..<nat (l_n (log s))] s"

definition commit :: "kernel \<Rightarrow> kernel res" where
  "commit s =
     (if l_n (log s) > 0 then
        kbind (write_log s) (\<lambda>s.
        kbind (write_head s) (\<lambda>s.
        kbind (install_trans s) (\<lambda>s. write_head (upd_log (\<lambda>l. l\<lparr>l_n := 0\<rparr>) s))))
      else Ok s)"

definition end_op :: "kernel \<Rightarrow> kernel res" where
  "end_op s =
     (let s = upd_log (\<lambda>l. l\<lparr>l_outstanding := l_outstanding l - 1\<rparr>) s in
      if l_committing (log s) then Panic ''log.committing''
      else if l_outstanding (log s) = 0 then
        kbind (commit (upd_log (\<lambda>l. l\<lparr>l_committing := True\<rparr>) s))
          (\<lambda>s. Ok (wakeup ChLog (upd_log (\<lambda>l. l\<lparr>l_committing := False\<rparr>) s)))
      else Ok (wakeup ChLog s))"

text \<open>The search of \<open>log_write\<close>: the first slot below \<open>n\<close> that holds the block, else \<open>n\<close>.\<close>

definition log_slot :: "nat \<Rightarrow> u32 list \<Rightarrow> u32 \<Rightarrow> nat" where
  "log_slot n bl b = (case first_slot n (\<lambda>i. bl ! i = b) of Some i \<Rightarrow> i | None \<Rightarrow> n)"

definition log_write :: "nat \<Rightarrow> kernel \<Rightarrow> kernel res" where
  "log_write b s =
     (if l_n (log s) \<ge> int LOGSIZE \<or> l_n (log s) \<ge> l_size (log s) - 1
      then Panic ''too big a transaction''
      else if l_outstanding (log s) < 1 then Panic ''log_write outside of trans''
      else
        let n = nat (l_n (log s));
            i = log_slot n (l_block (log s)) (b_blockno (bufs s b)) in
        Ok (upd_buf b (\<lambda>r. r\<lparr>b_dirty := True\<rparr>)
          (upd_log (\<lambda>l. l\<lparr>l_block := (l_block l)[i := b_blockno (bufs s b)],
             l_n := (if i = n then l_n l + 1 else l_n l)\<rparr>) s)))"

section \<open>Copying blocks\<close>

text \<open>A run of block copies, as a function on the view of the block layer.\<close>

definition copies :: "(u32 \<times> u32) list \<Rightarrow> 'r bview \<Rightarrow> 'r bview" where
  "copies ps v = fold (\<lambda>(n, m). copied n m) ps v"

definition moved :: "(u32 \<times> u32) list \<Rightarrow> (u32 \<Rightarrow> bytes) \<Rightarrow> (u32 \<Rightarrow> bytes) \<Rightarrow> u32 \<Rightarrow> bytes" where
  "moved ps src d x = (case map_of ps x of Some m \<Rightarrow> src m | None \<Rightarrow> d x)"

lemma copies_view:
  assumes "distinct (map fst ps)" "fst ` set ps \<inter> snd ` set ps = {}"
  shows "copies ps v = v\<lparr>bv_blk := moved ps (bv_blk v) (bv_blk v),
    bv_disk := moved ps (bv_blk v) (bv_disk v),
    bv_writes := bv_writes v @ map (\<lambda>(n, m). (n, bv_blk v m)) ps,
    bv_dirty := bv_dirty v - fst ` set ps\<rparr>"
  using assms
proof (induction ps arbitrary: v)
  case Nil
  then show ?case by (simp add: copies_def moved_def)
next
  case (Cons p ps)
  obtain n m where p: "p = (n, m)" by (cases p)
  let ?v = "copied n m v"
  have n: "n \<notin> fst ` set ps" "n \<notin> snd ` set ps" "n \<noteq> m" using Cons.prems p by auto
  have src: "bv_blk ?v k = bv_blk v k" if "(x, k) \<in> set ps" for x k
    using that n(2) by (force simp: copied_def)
  have mv: "moved ps (bv_blk ?v) d = moved ps (bv_blk v) d" for d
    using src by (auto simp: fun_eq_iff moved_def split: option.splits dest!: map_of_SomeD)
  have mu: "moved ps (bv_blk v) (d(n := bv_blk v m)) = moved (p # ps) (bv_blk v) d" for d
  proof -
    have "map_of ps n = None" using n(1) by (simp add: map_of_eq_None_iff)
    then show ?thesis by (auto simp: fun_eq_iff moved_def p split: option.splits)
  qed
  have wr: "map (\<lambda>(n, m). (n, bv_blk ?v m)) ps = map (\<lambda>(n, m). (n, bv_blk v m)) ps"
    using src by auto
  have "copies (p # ps) v = copies ps ?v" by (simp add: copies_def p)
  also have "\<dots> = ?v\<lparr>bv_blk := moved ps (bv_blk v) (bv_blk ?v),
    bv_disk := moved ps (bv_blk v) (bv_disk ?v),
    bv_writes := bv_writes ?v @ map (\<lambda>(n, m). (n, bv_blk v m)) ps,
    bv_dirty := bv_dirty ?v - fst ` set ps\<rparr>"
    using Cons.IH [of ?v] Cons.prems unfolding mv wr by auto
  also have "\<dots> = v\<lparr>bv_blk := moved (p # ps) (bv_blk v) (bv_blk v),
    bv_disk := moved (p # ps) (bv_blk v) (bv_disk v),
    bv_writes := bv_writes v @ map (\<lambda>(n, m). (n, bv_blk v m)) (p # ps),
    bv_dirty := bv_dirty v - fst ` set (p # ps)\<rparr>"
  proof -
    have "bv_dirty v - {n} - fst ` set ps = bv_dirty v - insert n (fst ` set ps)" by blast
    then show ?thesis by (simp add: copied_def mu) (simp add: p)
  qed
  finally show ?case .
qed

section \<open>The shape of the log\<close>

definition logged :: "logst \<Rightarrow> u32 list" where
  "logged l = take (nat (l_n l)) (l_block l)"

definition log_area :: "logst \<Rightarrow> u32 set" where
  "log_area l = logblk l ` {..<nat (l_size l)}"

definition log_wf :: "logst \<Rightarrow> nat \<Rightarrow> bool" where
  "log_wf l dsz \<longleftrightarrow> l_dev l = 1 \<and> 0 \<le> l_start l \<and> l_start l + l_size l \<le> int dsz \<and>
     l_start l + l_size l < 2 ^ 32 \<and> length (l_block l) = LOGSIZE \<and>
     0 \<le> l_n l \<and> l_n l < l_size l \<and> l_size l \<le> int LOGSIZE \<and> distinct (logged l) \<and>
     set (logged l) \<inter> log_area l = {} \<and> (\<forall>b \<in> set (logged l). unat b < dsz)"

lemma log_wfD:
  assumes "log_wf l dsz"
  shows "l_dev l = 1" "length (l_block l) = LOGSIZE" "0 \<le> l_n l" "nat (l_n l) < LOGSIZE"
    "nat (l_n l) < nat (l_size l)" "distinct (logged l)" "set (logged l) \<inter> log_area l = {}"
    "length (logged l) = nat (l_n l)" "\<And>b. b \<in> set (logged l) \<Longrightarrow> unat b < dsz"
  using assms by (auto simp: log_wf_def logged_def)

lemma logblk_unat:
  assumes "log_wf l dsz" "i < nat (l_size l)"
  shows "unat (logblk l i) = nat (l_start l) + i" "unat (logblk l i) < dsz"
proof -
  have "0 \<le> l_start l + int i" "l_start l + int i < 2 ^ 32" "0 \<le> l_start l"
    "l_start l + l_size l \<le> int dsz" using assms by (auto simp: log_wf_def)
  then have "uint (logblk l i) = l_start l + int i"
    unfolding logblk_def uint_word_of_int by simp
  then show "unat (logblk l i) = nat (l_start l) + i"
    using \<open>0 \<le> l_start l\<close> by (simp add: unat_eq_nat_uint nat_add_distrib)
  then show "unat (logblk l i) < dsz"
    using \<open>0 \<le> l_start l\<close> \<open>l_start l + l_size l \<le> int dsz\<close> assms(2) by linarith
qed

lemma logblk_inj:
  assumes "log_wf l dsz" "i < nat (l_size l)" "j < nat (l_size l)"
  shows "logblk l i = logblk l j \<longleftrightarrow> i = j"
  by (metis add_left_cancel logblk_unat(1) assms)

lemma logblk_area: "i < nat (l_size l) \<Longrightarrow> logblk l i \<in> log_area l"
  by (simp add: log_area_def)

lemma logblk_tail:
  assumes "log_wf l dsz" "i < nat (l_n l)"
  shows "logblk l (i + 1) \<in> log_area l" "logblk l (i + 1) \<noteq> logblk l 0"
proof -
  have "i + 1 < nat (l_size l)" "0 < nat (l_size l)" using assms log_wfD(5) by fastforce+
  then show "logblk l (i + 1) \<in> log_area l" "logblk l (i + 1) \<noteq> logblk l 0"
    using logblk_area logblk_inj [OF assms(1), of "i + 1" 0] by auto
qed

lemma logged_nth: "log_wf l dsz \<Longrightarrow> i < nat (l_n l) \<Longrightarrow> l_block l ! i = logged l ! i \<and> logged l ! i \<in> set (logged l)"
  using log_wfD(8) [of l dsz] nth_mem [of i "logged l"] by (simp add: logged_def)

definition to_log :: "logst \<Rightarrow> (u32 \<times> u32) list" where
  "to_log l = map (\<lambda>i. (logblk l (i + 1), logged l ! i)) [0..<nat (l_n l)]"

definition to_home :: "logst \<Rightarrow> (u32 \<times> u32) list" where
  "to_home l = map (\<lambda>i. (logged l ! i, logblk l (i + 1))) [0..<nat (l_n l)]"

lemma log_rest [simp]: "log (rest s) = log s"
  by (simp add: rest_def)

lemma write_log_one_ok:
  assumes "bc_inv s" "log_wf (log s) (disksize s)" "lockedb s = {}" "i < nat (l_n (log s))"
    and d: "logged (log s) ! i \<in> dirtyb s" "card (dirtyb s) < NBUF"
  shows "\<exists>s'. write_log_one i s = Ok s' \<and> bc_inv s' \<and>
    bc_view s' = copied (logblk (log s) (i + 1)) (logged (log s) ! i) (bc_view s)"
proof -
  let ?l = "log s" let ?n = "logblk ?l (i + 1)" let ?m = "logged ?l ! i"
  note wf = assms(2)
  have i1: "i + 1 < nat (l_size ?l)" "i < LOGSIZE" using log_wfD(4,5) [OF wf] assms(4) by auto
  have b: "l_block ?l ! i = ?m" "?m \<in> set (logged ?l)" using logged_nth [OF wf assms(4)] by auto
  have nm: "?n \<noteq> ?m" using log_wfD(7) [OF wf] logblk_area [OF i1(1)] b(2) by auto
  have "\<exists>bx s1 c s2. bread 1 ?n s = Ok (bx, s1) \<and> bread 1 ?m s1 = Ok (c, s2) \<and>
    rest s1 = rest s \<and> rest s2 = rest s \<and>
    (\<exists>s3 s4 s5. bwrite bx (set_data bx (b_data (bufs s2 c)) s2) = Ok s3 \<and>
      brelse c s3 = Ok s4 \<and> brelse bx s4 = Ok s5 \<and>
      bc_inv s5 \<and> bc_view s5 = copied ?n ?m (bc_view s))"
    using bc.copy_block [of s ?n ?m ?n ?m] assms(1,3) d nm logblk_unat(2) [OF wf i1(1)]
      log_wfD(9) [OF wf b(2)] by (simp add: bv_room_def)
  then obtain bx s1 c s2 s3 s4 s5 where st: "bread 1 ?n s = Ok (bx, s1)" "bread 1 ?m s1 = Ok (c, s2)"
    "rest s1 = rest s" "rest s2 = rest s"
    "bwrite bx (set_data bx (b_data (bufs s2 c)) s2) = Ok s3" "brelse c s3 = Ok s4"
    "brelse bx s4 = Ok s5" "bc_inv s5" "bc_view s5 = copied ?n ?m (bc_view s)"
    by blast
  have "log s1 = log s" "log s2 = log s" using rest_fields(3) st(3,4) by blast+
  then show ?thesis
    using st i1(2) b(1) log_wfD(1) [OF wf] by (simp add: write_log_one_def lh_block_def)
qed

lemma install_one_ok:
  assumes "bc_inv s" "log_wf (log s) (disksize s)" "lockedb s = {}" "i < nat (l_n (log s))"
    and d: "logged (log s) ! i \<in> dirtyb s \<and> card (dirtyb s) < NBUF \<or> dirtyb s = {}"
      "logblk (log s) (i + 1) \<notin> dirtyb s"
  shows "\<exists>s'. install_one i s = Ok s' \<and> bc_inv s' \<and>
    bc_view s' = copied (logged (log s) ! i) (logblk (log s) (i + 1)) (bc_view s)"
proof -
  let ?l = "log s" let ?m = "logblk ?l (i + 1)" let ?n = "logged ?l ! i"
  note wf = assms(2)
  have i1: "i + 1 < nat (l_size ?l)" "i < LOGSIZE" using log_wfD(4,5) [OF wf] assms(4) by auto
  have b: "l_block ?l ! i = ?n" "?n \<in> set (logged ?l)" using logged_nth [OF wf assms(4)] by auto
  have nm: "?n \<noteq> ?m" using log_wfD(7) [OF wf] logblk_area [OF i1(1)] b(2) by auto
  have "\<exists>bx s1 c s2. bread 1 ?m s = Ok (bx, s1) \<and> bread 1 ?n s1 = Ok (c, s2) \<and>
    rest s1 = rest s \<and> rest s2 = rest s \<and>
    (\<exists>s3 s4 s5. bwrite c (set_data c (b_data (bufs s2 bx)) s2) = Ok s3 \<and>
      brelse bx s3 = Ok s4 \<and> brelse c s4 = Ok s5 \<and>
      bc_inv s5 \<and> bc_view s5 = copied ?n ?m (bc_view s))"
    using bc.copy_block [of s ?n ?m ?m ?n] assms(1,3) d nm logblk_unat(2) [OF wf i1(1)]
      log_wfD(9) [OF wf b(2)] by (auto simp: bv_room_def)
  then obtain bx s1 c s2 s3 s4 s5 where st: "bread 1 ?m s = Ok (bx, s1)" "bread 1 ?n s1 = Ok (c, s2)"
    "rest s1 = rest s" "rest s2 = rest s"
    "bwrite c (set_data c (b_data (bufs s2 bx)) s2) = Ok s3" "brelse bx s3 = Ok s4"
    "brelse c s4 = Ok s5" "bc_inv s5" "bc_view s5 = copied ?n ?m (bc_view s)"
    by blast
  have "log s1 = log s" "log s2 = log s" using rest_fields(3) st(3,4) by blast+
  then show ?thesis
    using st i1(2) b(1) log_wfD(1) [OF wf] by (simp add: install_one_def lh_block_def)
qed

lemma copied_state:
  assumes "bc_view s' = copied n m (bc_view s)"
  shows "log s' = log s" "disksize s' = disksize s" "lockedb s' = lockedb s"
    "dirtyb s' = dirtyb s - {n}"
proof -
  have "rest s' = rest s" using arg_cong [OF assms, of bv_rest] by (simp add: copied_def)
  then show "log s' = log s" "disksize s' = disksize s" using rest_fields by blast+
  show "lockedb s' = lockedb s" using arg_cong [OF assms, of bv_locked] by (simp add: copied_def)
  show "dirtyb s' = dirtyb s - {n}" using arg_cong [OF assms, of bv_dirty] by (simp add: copied_def)
qed

lemma copies_Cons: "copies ((n, m) # ps) v = copies ps (copied n m v)"
  by (simp add: copies_def)

lemma write_log_loop:
  assumes "bc_inv s" "log_wf (log s) (disksize s)" "lockedb s = {}" "set is \<subseteq> {..<nat (l_n (log s))}"
    "set (logged (log s)) \<subseteq> dirtyb s" "card (dirtyb s) < NBUF"
  shows "\<exists>s'. for_each write_log_one is s = Ok s' \<and> bc_inv s' \<and>
    bc_view s' = copies (map (\<lambda>i. (logblk (log s) (i + 1), logged (log s) ! i)) is) (bc_view s)"
  using assms
proof (induction "is" arbitrary: s)
  case Nil
  then show ?case by (simp add: copies_def)
next
  case (Cons i "is")
  note wf = Cons.prems(2)
  have i: "i < nat (l_n (log s))" using Cons.prems(4) by simp
  have lg: "logged (log s) ! i \<in> dirtyb s" using logged_nth [OF wf i] Cons.prems(5) by auto
  obtain s1 where s1: "write_log_one i s = Ok s1" "bc_inv s1"
    "bc_view s1 = copied (logblk (log s) (i + 1)) (logged (log s) ! i) (bc_view s)"
    using write_log_one_ok [OF Cons.prems(1-3) i lg Cons.prems(6)] by blast
  note eq = copied_state [OF s1(3)]
  have "logblk (log s) (i + 1) \<notin> set (logged (log s))"
    using log_wfD(5,7) [OF wf] logblk_area [of "i + 1" "log s"] i by auto
  moreover have "card (dirtyb s1) < NBUF"
    using Cons.prems(6) card_Diff1_le [of "dirtyb s"] le_less_trans unfolding eq(4) by blast
  ultimately obtain s' where "for_each write_log_one is s1 = Ok s'" "bc_inv s'"
    "bc_view s' = copies (map (\<lambda>i. (logblk (log s1) (i + 1), logged (log s1) ! i)) is) (bc_view s1)"
    using Cons.IH [of s1] s1(2) Cons.prems unfolding eq by auto
  then show ?case using s1 eq(1) by (simp add: copies_Cons)
qed

lemma install_loop:
  assumes "bc_inv s" "log_wf (log s) (disksize s)" "lockedb s = {}" "set is \<subseteq> {..<nat (l_n (log s))}"
    "distinct is" "dirtyb s = {} \<or> (\<forall>i \<in> set is. logged (log s) ! i \<in> dirtyb s) \<and> card (dirtyb s) < NBUF"
    "dirtyb s \<inter> log_area (log s) = {}"
  shows "\<exists>s'. for_each install_one is s = Ok s' \<and> bc_inv s' \<and>
    bc_view s' = copies (map (\<lambda>i. (logged (log s) ! i, logblk (log s) (i + 1))) is) (bc_view s)"
  using assms
proof (induction "is" arbitrary: s)
  case Nil
  then show ?case by (simp add: copies_def)
next
  case (Cons i "is")
  note wf = Cons.prems(2)
  have i: "i < nat (l_n (log s))" using Cons.prems(4) by simp
  have "logblk (log s) (i + 1) \<notin> dirtyb s"
    using log_wfD(5) [OF wf] logblk_area [of "i + 1" "log s"] i Cons.prems(7) by auto
  then obtain s1 where s1: "install_one i s = Ok s1" "bc_inv s1"
    "bc_view s1 = copied (logged (log s) ! i) (logblk (log s) (i + 1)) (bc_view s)"
    using install_one_ok [OF Cons.prems(1-3) i] Cons.prems(6) by auto
  note eq = copied_state [OF s1(3)]
  have "logged (log s) ! j \<noteq> logged (log s) ! i" if "j \<in> set is" for j
    using that Cons.prems(4,5) i log_wfD(6,8) [OF wf] by (auto simp: nth_eq_iff_index_eq)
  moreover have "card (dirtyb s1) \<le> card (dirtyb s)"
    unfolding eq(4) by (rule card_Diff1_le)
  ultimately have "dirtyb s1 = {} \<or> (\<forall>i \<in> set is. logged (log s1) ! i \<in> dirtyb s1) \<and> card (dirtyb s1) < NBUF"
    using Cons.prems(6) unfolding eq by auto
  then obtain s' where "for_each install_one is s1 = Ok s'" "bc_inv s'"
    "bc_view s' = copies (map (\<lambda>i. (logged (log s1) ! i, logblk (log s1) (i + 1))) is) (bc_view s1)"
    using Cons.IH [of s1] s1(2) Cons.prems unfolding eq by auto
  then show ?case using s1 eq(1) by (simp add: copies_Cons)
qed

section \<open>The header block\<close>

lemma head_data_length [simp]:
  assumes "n \<le> int LOGSIZE" "length d = BSIZE"
  shows "length (head_data n bl d) = BSIZE"
proof -
  have "length (fold (\<lambda>i. put_word (i + 1) (bl ! i)) is e) = BSIZE"
    if "length e = BSIZE" "set is \<subseteq> {..<LOGSIZE}" for "is" e
    using that by (induction "is" arbitrary: e) auto
  note len = this [of "put_word 0 (word_of_int n) d" "[0..<nat n]"]
  have "set [0..<nat n] \<subseteq> {..<LOGSIZE}" using assms(1) by auto
  then show ?thesis using len assms(2) by (simp add: head_data_def)
qed

lemma head_data_words:
  assumes "n \<le> int LOGSIZE" "length d = BSIZE"
  shows "word_at (head_data n bl d) 0 = word_of_int n"
    and "int i < n \<Longrightarrow> word_at (head_data n bl d) (i + 1) = bl ! i"
proof -
  have step: "length (fold (\<lambda>i. put_word (i + 1) (bl ! i)) [0..<k] e) = BSIZE \<and>
    word_at (fold (\<lambda>i. put_word (i + 1) (bl ! i)) [0..<k] e) 0 = word_at e 0 \<and>
    (\<forall>i<k. word_at (fold (\<lambda>i. put_word (i + 1) (bl ! i)) [0..<k] e) (i + 1) = bl ! i)"
    if "length e = BSIZE" "k \<le> LOGSIZE" for k e
    using that(2)
  proof (induction k)
    case (Suc k)
    then show ?case using that(1) by (auto simp: word_at_put_word)
  qed (use that in simp)
  have p: "length (put_word 0 (word_of_int n) d) = BSIZE" using assms by simp
  show "word_at (head_data n bl d) 0 = word_of_int n"
    using step [OF p, of "nat n"] assms by (simp add: head_data_def word_at_put_word)
  show "int i < n \<Longrightarrow> word_at (head_data n bl d) (i + 1) = bl ! i"
    using step [OF p, of "nat n"] assms by (simp add: head_data_def)
qed

lemma upd_log_simps [simp]:
  "log (upd_log f s) = f (log s)" "disksize (upd_log f s) = disksize s" "disk (upd_log f s) = disk s"
  "dwrites (upd_log f s) = dwrites s" "bufs (upd_log f s) = bufs s" "cur (upd_log f s) = cur s"
  "blk (upd_log f s) = blk s" "lockedb (upd_log f s) = lockedb s" "dirtyb (upd_log f s) = dirtyb s"
  "held (upd_log f s) b n = held s b n" "bc_inv (upd_log f s) = bc_inv s"
  by (simp_all add: upd_log_def fun_eq_iff blk_def lockedb_def dirtyb_def held_def bc_inv_def
      ring_bufs [of "s\<lparr>log := l\<rparr>" s for l] cong: option.case_cong)

lemma write_head_ok:
  assumes "bc_inv s" "log_wf (log s) (disksize s)" "lockedb s = {}" "card (dirtyb s) < NBUF"
  defines "h \<equiv> logblk (log s) 0"
  defines "x \<equiv> head_data (l_n (log s)) (l_block (log s)) (blk s h)"
  shows "\<exists>s'. write_head s = Ok s' \<and> bc_inv s' \<and> bc_view s' = (bc_view s)\<lparr>bv_blk := (blk s)(h := x),
    bv_disk := (disk s)(h := x), bv_writes := dwrites s @ [(h, x)], bv_dirty := dirtyb s - {h}\<rparr>"
proof -
  let ?f = "head_data (l_n (log s)) (l_block (log s))"
  note wf = assms(2)
  have n: "l_n (log s) \<le> int LOGSIZE" using wf by (simp add: log_wf_def)
  have h: "unat h < disksize s"
    unfolding h_def using logblk_unat(2) [OF wf, of 0] log_wfD(3,5) [OF wf] by simp
  have room: "bv_room (bc_view s) h" using assms(3,4) by (simp add: bv_room_def)
  obtain b s1 where r: "bread 1 h s = Ok (b, s1)" "bc_view s1 = (bc_view s)\<lparr>bv_locked := insert h (lockedb s)\<rparr>"
    using bc.read_ok [OF assms(1) _ room] h by auto
  have "rest s1 = rest s" using arg_cong [OF r(2), of bv_rest] by simp
  then have l: "log s1 = log s" by (rule rest_fields(3))
  obtain s' where s': "kbind (bwrite b (set_data b (?f (b_data (bufs s1 b))) s1)) (brelse b) = Ok s'"
    "bc_inv s'" "bc_view s' = (bc_view s)\<lparr>bv_blk := (blk s)(h := x), bv_disk := (disk s)(h := x),
      bv_writes := dwrites s @ [(h, x)], bv_dirty := dirtyb s - {h}\<rparr>"
    using bc.update_block [of s h ?f, OF assms(1) _ room] h n r(1) by (auto simp: x_def)
  then show ?thesis
    using r(1) l n log_wfD(1) [OF wf] by (auto simp: write_head_def h_def)
qed

section \<open>Recovery\<close>

text \<open>The log as the header on the disk describes it, and what recovery makes of a disk.\<close>

definition disk_log :: "logst \<Rightarrow> (u32 \<Rightarrow> bytes) \<Rightarrow> logst" where
  "disk_log l d = load_head (d (logblk l 0)) l"

definition recover_disk :: "logst \<Rightarrow> (u32 \<Rightarrow> bytes) \<Rightarrow> u32 \<Rightarrow> bytes" where
  "recover_disk l d =
     (let e = moved (to_home (disk_log l d)) d d; h = logblk l 0 in
      e(h := head_data 0 (l_block (disk_log l d)) (e h)))"

lemma logblk_upd [simp]:
  "logblk (l\<lparr>l_n := n\<rparr>) = logblk l" "log_area (l\<lparr>l_n := n\<rparr>) = log_area l"
  "logblk (l\<lparr>l_outstanding := i\<rparr>) = logblk l" "log_area (l\<lparr>l_outstanding := i\<rparr>) = log_area l"
  "logblk (l\<lparr>l_committing := c\<rparr>) = logblk l" "log_area (l\<lparr>l_committing := c\<rparr>) = log_area l"
  by (simp_all add: logblk_def fun_eq_iff log_area_def)

lemma load_head_simps [simp]:
  "l_n (load_head d l) = sint (word_at d 0)" "l_dev (load_head d l) = l_dev l"
  by (simp_all add: load_head_def Let_def)

lemma disk_log_simps [simp]:
  "logblk (disk_log l d) = logblk l" "l_start (disk_log l d) = l_start l"
  "l_size (disk_log l d) = l_size l" "log_area (disk_log l d) = log_area l"
  "l_dev (disk_log l d) = l_dev l" "l_n (disk_log l d) = sint (word_at (d (logblk l 0)) 0)"
  by (simp_all add: disk_log_def load_head_def Let_def logblk_def log_area_def fun_eq_iff)

lemma to_home_ok:
  assumes "log_wf l dsz"
  shows "distinct (map fst (to_home l))" "fst ` set (to_home l) = set (logged l)"
    "snd ` set (to_home l) \<subseteq> log_area l" "fst ` set (to_home l) \<inter> snd ` set (to_home l) = {}"
proof -
  have f: "map fst (to_home l) = logged l"
    using log_wfD(8) [OF assms] by (intro nth_equalityI) (simp_all add: to_home_def)
  then show "distinct (map fst (to_home l))" using log_wfD(6) [OF assms] by simp
  show g: "fst ` set (to_home l) = set (logged l)" using arg_cong [OF f, of set] by simp
  show "snd ` set (to_home l) \<subseteq> log_area l"
    using log_wfD(5) [OF assms] by (auto simp: to_home_def intro!: logblk_area)
  then show "fst ` set (to_home l) \<inter> snd ` set (to_home l) = {}"
    unfolding g using log_wfD(7) [OF assms] by blast
qed

lemma to_log_ok:
  assumes "log_wf l dsz"
  shows "distinct (map fst (to_log l))" "fst ` set (to_log l) \<subseteq> log_area l - {logblk l 0}"
    "snd ` set (to_log l) = set (logged l)" "fst ` set (to_log l) \<inter> snd ` set (to_log l) = {}"
proof -
  have f: "map snd (to_log l) = logged l"
    using log_wfD(8) [OF assms] by (intro nth_equalityI) (simp_all add: to_log_def)
  show g: "snd ` set (to_log l) = set (logged l)" using arg_cong [OF f, of set] by simp
  show "distinct (map fst (to_log l))"
    using logblk_inj [OF assms] log_wfD(5) [OF assms] by (auto simp: to_log_def distinct_map inj_on_def)
  show a: "fst ` set (to_log l) \<subseteq> log_area l - {logblk l 0}"
    using log_wfD(5) [OF assms] logblk_inj [OF assms, of _ 0] by (auto simp: to_log_def intro!: logblk_area)
  show "fst ` set (to_log l) \<inter> snd ` set (to_log l) = {}"
    unfolding g using log_wfD(7) [OF assms] a by blast
qed

lemma install_trans_ok:
  assumes "bc_inv s" "log_wf (log s) (disksize s)" "lockedb s = {}"
    "dirtyb s = {} \<or> dirtyb s = set (logged (log s))"
  shows "\<exists>s'. install_trans s = Ok s' \<and> bc_inv s' \<and> bc_view s' = (bc_view s)\<lparr>
    bv_blk := moved (to_home (log s)) (blk s) (blk s), bv_disk := moved (to_home (log s)) (blk s) (disk s),
    bv_writes := dwrites s @ map (\<lambda>(n, m). (n, blk s m)) (to_home (log s)), bv_dirty := {}\<rparr>"
proof -
  note wf = assms(2)
  have c: "card (set (logged (log s))) < NBUF"
    using card_length [of "logged (log s)"] log_wfD(4,8) [OF wf] by simp
  have m: "\<forall>i \<in> set [0..<nat (l_n (log s))]. logged (log s) ! i \<in> set (logged (log s))"
    using logged_nth [OF wf] by auto
  have "\<exists>s'. install_trans s = Ok s' \<and> bc_inv s' \<and> bc_view s' = copies (to_home (log s)) (bc_view s)"
    using install_loop [OF assms(1-3), of "[0..<nat (l_n (log s))]"] assms(4) c m log_wfD(7) [OF wf]
    unfolding install_trans_def to_home_def by (auto simp: lessThan_atLeast0)
  then show ?thesis
    unfolding copies_view [OF to_home_ok(1,4) [OF wf]]
    using assms(4) to_home_ok(2) [OF wf] by auto
qed

lemma read_head_ok:
  assumes "bc_inv s" "lockedb s = {}" "dirtyb s = {}"
    "log_wf (disk_log (log s) (disk s)) (disksize s)"
  shows "\<exists>s'. read_head s = Ok s' \<and> bc_inv s' \<and> log s' = disk_log (log s) (disk s) \<and>
    bc_view s' = (bc_view s)\<lparr>bv_rest := rest s'\<rparr> \<and> disksize s' = disksize s"
proof -
  let ?h = "logblk (log s) 0"
  let ?l = "disk_log (log s) (disk s)"
  note wf = assms(4)
  have h: "unat ?h < disksize s" using logblk_unat(2) [OF wf, of 0] log_wfD(3,5) [OF wf] by simp
  have bd: "blk s ?h = disk s ?h" using blk_clean [OF assms(1)] assms(2,3) by simp
  have room: "bv_room (bc_view s) ?h" using assms(2,3) by (simp add: bv_room_def)
  obtain b s1 where r: "bread 1 ?h s = Ok (b, s1)" "bc_inv s1" "held s1 b ?h"
    "bc_view s1 = (bc_view s)\<lparr>bv_locked := insert ?h (lockedb s)\<rparr>"
    using bc.read_ok [OF assms(1) _ room] h by auto
  have v1: "blk s1 = blk s" "disk s1 = disk s" "dwrites s1 = dwrites s" "dirtyb s1 = dirtyb s"
    "rest s1 = rest s" "lockedb s1 = {?h}"
    using arg_cong [OF r(4), of bv_blk] arg_cong [OF r(4), of bv_disk] arg_cong [OF r(4), of bv_writes]
      arg_cong [OF r(4), of bv_dirty] arg_cong [OF r(4), of bv_rest] arg_cong [OF r(4), of bv_locked]
      assms(2) by simp_all
  have l1: "log s1 = log s" "disksize s1 = disksize s" using rest_fields [OF v1(5)] by simp_all
  have d: "b_data (bufs s1 b) = disk s ?h" using blk_held [OF r(2,3)] v1(1) bd by simp
  let ?s2 = "upd_log (\<lambda>l. ?l) s1"
  obtain s3 where s3: "brelse b ?s2 = Ok s3" "bc_inv s3"
    "bc_view s3 = (bc_view ?s2)\<lparr>bv_locked := {}\<rparr>"
    using bc.release_ok [of ?s2 b ?h] r(2,3) v1 bd by auto
  have "l_n ?l \<le> int LOGSIZE" using wf by (simp add: log_wf_def)
  then have "read_head s = Ok s3"
    using r(1) l1 d s3(1) log_wfD(1) [OF wf]
    by (simp add: read_head_def Let_def upd_log_def disk_log_def)
  moreover have "rest s3 = rest ?s2" using arg_cong [OF s3(3), of bv_rest] by simp
  then have "log s3 = ?l" "disksize s3 = disksize s" using rest_fields [of s3 ?s2] l1 by simp_all
  ultimately show ?thesis using s3 v1 assms(2) by (simp add: bc_view_def)
qed

lemma recover_from_log_ok:
  assumes "bc_inv s" "lockedb s = {}" "dirtyb s = {}"
    "log_wf (disk_log (log s) (disk s)) (disksize s)"
  shows "\<exists>s'. recover_from_log s = Ok s' \<and> bc_inv s' \<and> lockedb s' = {} \<and> dirtyb s' = {} \<and>
    disk s' = recover_disk (log s) (disk s) \<and> l_n (log s') = 0"
proof -
  let ?l = "disk_log (log s) (disk s)"
  note wf = assms(4)
  have bd: "blk s = disk s" using blk_clean [OF assms(1)] assms(2,3) by auto
  obtain s1 where s1: "read_head s = Ok s1" "bc_inv s1" "log s1 = ?l" "disksize s1 = disksize s"
    "bc_view s1 = (bc_view s)\<lparr>bv_rest := rest s1\<rparr>"
    using read_head_ok [OF assms] by auto
  have v1: "blk s1 = disk s" "disk s1 = disk s" "dirtyb s1 = {}" "lockedb s1 = {}"
    using s1(5) bd assms(2,3) by (simp_all add: bc_view_def)
  have wf1: "log_wf (log s1) (disksize s1)" using wf s1(3,4) by simp
  obtain s2 where s2: "install_trans s1 = Ok s2" "bc_inv s2" "bc_view s2 = (bc_view s1)\<lparr>
      bv_blk := moved (to_home ?l) (disk s) (disk s), bv_disk := moved (to_home ?l) (disk s) (disk s),
      bv_writes := dwrites s1 @ map (\<lambda>(n, m). (n, disk s m)) (to_home ?l), bv_dirty := {}\<rparr>"
    using install_trans_ok [OF s1(2) wf1] v1 s1(3) by auto
  have v2: "blk s2 = moved (to_home ?l) (disk s) (disk s)"
    "disk s2 = moved (to_home ?l) (disk s) (disk s)" "dirtyb s2 = {}" "lockedb s2 = {}" "rest s2 = rest s1"
    using s2(3) v1(4) by (simp_all add: bc_view_def)
  have l2: "log s2 = ?l" "disksize s2 = disksize s" using rest_fields [OF v2(5)] s1(3,4) by simp_all
  let ?s2 = "upd_log (\<lambda>l. l\<lparr>l_n := 0\<rparr>) s2"
  have wf2: "log_wf (log ?s2) (disksize ?s2)"
    using wf l2 by (simp add: log_wf_def logged_def log_area_def logblk_def)
  obtain s3 where s3: "write_head ?s2 = Ok s3" "bc_inv s3" "lockedb s3 = {}" "dirtyb s3 = {}"
    "disk s3 = recover_disk (log s) (disk s)" "rest s3 = rest ?s2"
    using write_head_ok [OF _ wf2] s2(2) v2 l2
    by (auto simp: bc_view_def recover_disk_def Let_def)
  have "l_n (log s3) = 0" using rest_fields(3) [OF s3(6)] by simp
  then show ?thesis using s1(1) s2(1) s3 by (simp add: recover_from_log_def)
qed

section \<open>Commit\<close>

definition log_inv :: "kernel \<Rightarrow> bool" where
  "log_inv s \<longleftrightarrow> bc_inv s \<and> log_wf (log s) (disksize s) \<and> lockedb s = {} \<and>
     dirtyb s = set (logged (log s)) \<and> word_at (disk s (logblk (log s) 0)) 0 = 0"

text \<open>The writes of a commit, in order: the log blocks, the header, the home blocks, the empty header.\<close>

definition log_writes :: "logst \<Rightarrow> (u32 \<Rightarrow> bytes) \<Rightarrow> (u32 \<times> bytes) list" where
  "log_writes l v = map (\<lambda>i. (logblk l (i + 1), v (logged l ! i))) [0..<nat (l_n l)]"

definition home_writes :: "logst \<Rightarrow> (u32 \<Rightarrow> bytes) \<Rightarrow> (u32 \<times> bytes) list" where
  "home_writes l v = map (\<lambda>i. (logged l ! i, v (logged l ! i))) [0..<nat (l_n l)]"

definition commit_writes :: "logst \<Rightarrow> (u32 \<Rightarrow> bytes) \<Rightarrow> bytes \<Rightarrow> (u32 \<times> bytes) list" where
  "commit_writes l v x =
     (let y = head_data (l_n l) (l_block l) x in
      log_writes l v @ [(logblk l 0, y)] @ home_writes l v @ [(logblk l 0, head_data 0 (l_block l) y)])"

lemma moved_other: "x \<notin> fst ` set ps \<Longrightarrow> moved ps v d x = d x"
  by (auto simp: moved_def map_of_eq_None_iff split: option.splits dest: map_of_SomeD)
    (metis fst_conv image_eqI map_of_SomeD)

lemma moved_log:
  assumes "log_wf l dsz" "i < nat (l_n l)"
  shows "moved (to_log l) v d (logblk l (i + 1)) = v (logged l ! i)"
proof -
  have "(logblk l (i + 1), logged l ! i) \<in> set (to_log l)" using assms(2) by (auto simp: to_log_def)
  then have "map_of (to_log l) (logblk l (i + 1)) = Some (logged l ! i)"
    using to_log_ok(1) [OF assms(1)] by simp
  then show ?thesis by (simp add: moved_def)
qed

lemma moved_home:
  assumes "log_wf l dsz" "i < nat (l_n l)"
  shows "moved (to_home l) v d (logged l ! i) = v (logblk l (i + 1))"
proof -
  have "(logged l ! i, logblk l (i + 1)) \<in> set (to_home l)" using assms(2) by (auto simp: to_home_def)
  then have "map_of (to_home l) (logged l ! i) = Some (logblk l (i + 1))"
    using to_home_ok(1) [OF assms(1)] by simp
  then show ?thesis by (simp add: moved_def)
qed

lemma write_log_ok:
  assumes "bc_inv s" "log_wf (log s) (disksize s)" "lockedb s = {}" "dirtyb s = set (logged (log s))"
  shows "\<exists>s'. write_log s = Ok s' \<and> bc_inv s' \<and> bc_view s' = (bc_view s)\<lparr>
    bv_blk := moved (to_log (log s)) (blk s) (blk s), bv_disk := moved (to_log (log s)) (blk s) (disk s),
    bv_writes := dwrites s @ map (\<lambda>(n, m). (n, blk s m)) (to_log (log s))\<rparr>"
proof -
  note wf = assms(2)
  have c: "card (set (logged (log s))) < NBUF"
    using card_length [of "logged (log s)"] log_wfD(4,8) [OF wf] by simp
  have "dirtyb s - fst ` set (to_log (log s)) = dirtyb s"
    using to_log_ok(2) [OF wf] log_wfD(7) [OF wf] assms(4) by auto
  moreover have "\<exists>s'. write_log s = Ok s' \<and> bc_inv s' \<and> bc_view s' = copies (to_log (log s)) (bc_view s)"
    using write_log_loop [OF assms(1-3), of "[0..<nat (l_n (log s))]"] assms(4) c
    unfolding write_log_def to_log_def by (auto simp: lessThan_atLeast0)
  ultimately show ?thesis
    unfolding copies_view [OF to_log_ok(1,4) [OF wf]] by (auto simp: bc_view_def)
qed

lemma log_head_facts:
  assumes "log_inv s"
  shows "logblk (log s) 0 \<in> log_area (log s)" "logblk (log s) 0 \<notin> fst ` set (to_log (log s))"
    "logblk (log s) 0 \<notin> fst ` set (to_home (log s))" "logblk (log s) 0 \<notin> set (logged (log s))"
    "blk s (logblk (log s) 0) = disk s (logblk (log s) 0)" "length (disk s x) = BSIZE"
proof -
  have wf: "log_wf (log s) (disksize s)" and inv: "bc_inv s" "lockedb s = {}"
    "dirtyb s = set (logged (log s))" using assms by (simp_all add: log_inv_def)
  show a: "logblk (log s) 0 \<in> log_area (log s)" using log_wfD(5) [OF wf] by (intro logblk_area) simp
  then show h: "logblk (log s) 0 \<notin> set (logged (log s))" using log_wfD(7) [OF wf] by blast
  show "logblk (log s) 0 \<notin> fst ` set (to_log (log s))" using to_log_ok(2) [OF wf] by blast
  show "logblk (log s) 0 \<notin> fst ` set (to_home (log s))" using to_home_ok(2) [OF wf] h by simp
  show "blk s (logblk (log s) 0) = disk s (logblk (log s) 0)"
    using blk_clean [OF inv(1)] inv(2,3) h by simp
  show "length (disk s x) = BSIZE" using inv(1) by (simp add: bc_inv_def)
qed

lemma commit_ok:
  assumes "log_inv s" "l_n (log s) > 0"
  defines "l \<equiv> log s"
  defines "h \<equiv> logblk l 0"
  defines "x \<equiv> head_data (l_n l) (l_block l) (disk s h)"
  defines "v2 \<equiv> (moved (to_log l) (blk s) (blk s))(h := x)"
  defines "v3 \<equiv> moved (to_home l) v2 v2"
  shows "\<exists>s'. commit s = Ok s' \<and> bc_inv s' \<and> lockedb s' = {} \<and> dirtyb s' = {} \<and>
    blk s' = v3(h := head_data 0 (l_block l) x) \<and>
    dwrites s' = dwrites s @ commit_writes l (blk s) (disk s h) \<and>
    rest s' = rest (upd_log (\<lambda>l. l\<lparr>l_n := 0\<rparr>) s)"
proof -
  have wf: "log_wf l (disksize s)" and inv: "bc_inv s" "lockedb s = {}" "dirtyb s = set (logged l)"
    using assms(1) by (simp_all add: log_inv_def l_def)
  note hf = log_head_facts [OF assms(1), folded l_def, folded h_def]
  have c: "card (set (logged l)) < NBUF"
    using card_length [of "logged l"] log_wfD(4,8) [OF wf] by simp
  obtain s1 where s1: "write_log s = Ok s1" "bc_inv s1" "lockedb s1 = {}" "dirtyb s1 = set (logged l)"
    "blk s1 = moved (to_log l) (blk s) (blk s)"
    "dwrites s1 = dwrites s @ map (\<lambda>(n, m). (n, blk s m)) (to_log l)" "rest s1 = rest s"
    using write_log_ok [OF inv(1) _ inv(2)] wf inv by (auto simp: bc_view_def l_def)
  have l1: "log s1 = l" "disksize s1 = disksize s" using rest_fields [OF s1(7)] by (simp_all add: l_def)
  have "blk s1 h = disk s h" using hf(2,5) by (simp add: s1(5) moved_other)
  then obtain s2 where s2: "write_head s1 = Ok s2" "bc_inv s2" "lockedb s2 = {}"
    "dirtyb s2 = set (logged l)" "blk s2 = v2" "dwrites s2 = dwrites s1 @ [(h, x)]" "rest s2 = rest s1"
    using write_head_ok [of s1] s1 l1 wf c hf(4) by (auto simp: bc_view_def v2_def x_def h_def)
  have l2: "log s2 = l" "disksize s2 = disksize s" using rest_fields [OF s2(7)] l1 by simp_all
  obtain s3 where s3: "install_trans s2 = Ok s3" "bc_inv s3" "lockedb s3 = {}" "dirtyb s3 = {}"
    "blk s3 = v3" "dwrites s3 = dwrites s2 @ map (\<lambda>(n, m). (n, v2 m)) (to_home l)" "rest s3 = rest s2"
    using install_trans_ok [of s2] s2 l2 wf by (auto simp: bc_view_def v3_def)
  have l3: "log s3 = l" "disksize s3 = disksize s" using rest_fields [OF s3(7)] l2 by simp_all
  have v3h: "v3 h = x" using hf(3) by (simp add: v3_def moved_other v2_def)
  let ?s3 = "upd_log (\<lambda>l. l\<lparr>l_n := 0\<rparr>) s3"
  have wf3: "log_wf (log ?s3) (disksize ?s3)"
    using wf l3 by (simp add: log_wf_def logged_def)
  obtain s4 where s4: "write_head ?s3 = Ok s4" "bc_inv s4" "lockedb s4 = {}" "dirtyb s4 = {}"
    "blk s4 = v3(h := head_data 0 (l_block l) x)" "dwrites s4 = dwrites s3 @ [(h, head_data 0 (l_block l) x)]"
    "rest s4 = rest ?s3"
    using write_head_ok [OF _ wf3] s3 l3 v3h by (auto simp: bc_view_def h_def)
  have "rest ?s3 = rest (upd_log (\<lambda>l. l\<lparr>l_n := 0\<rparr>) s)"
    using s3(7) s2(7) s1(7) unfolding rest_def upd_log_def by (cases s; cases s3) auto
  moreover have "map (\<lambda>(n, m). (n, v2 m)) (to_home l) = map (\<lambda>i. (logged l ! i, blk s (logged l ! i))) [0..<nat (l_n l)]"
    using moved_log [OF wf] logblk_inj [OF wf, of _ 0] log_wfD(5) [OF wf]
    by (auto simp: to_home_def v2_def h_def)
  ultimately show ?thesis using s1 s2 s3 s4 assms(2)
    by (auto simp: commit_def commit_writes_def log_writes_def home_writes_def Let_def to_log_def x_def h_def)
qed

section \<open>Crashes\<close>

definition apply_writes :: "(u32 \<times> bytes) list \<Rightarrow> (u32 \<Rightarrow> bytes) \<Rightarrow> u32 \<Rightarrow> bytes" where
  "apply_writes ws d = fold (\<lambda>(n, x) d. d(n := x)) ws d"

definition home_eq :: "u32 set \<Rightarrow> (u32 \<Rightarrow> bytes) \<Rightarrow> (u32 \<Rightarrow> bytes) \<Rightarrow> bool" where
  "home_eq A d e \<longleftrightarrow> (\<forall>x. x \<notin> A \<longrightarrow> d x = e x)"

lemma apply_writes_append: "apply_writes (ws @ us) d = apply_writes us (apply_writes ws d)"
  by (simp add: apply_writes_def)

lemma apply_writes_other: "x \<notin> fst ` set ws \<Longrightarrow> apply_writes ws d x = d x"
  by (induction ws arbitrary: d) (auto simp: apply_writes_def)

lemma apply_writes_in:
  "distinct (map fst ws) \<Longrightarrow> (n, y) \<in> set ws \<Longrightarrow> apply_writes ws d n = y"
proof (induction ws arbitrary: d)
  case (Cons w ws)
  show ?case
  proof (cases "w = (n, y)")
    case True
    then show ?thesis using Cons.prems(1) apply_writes_other [of n ws "d(n := y)"]
      by (simp add: apply_writes_def)
  next
    case False
    then have "(n, y) \<in> set ws" using Cons.prems(2) by auto
    then show ?thesis using Cons.IH [of "(case w of (n, x) \<Rightarrow> \<lambda>d. d(n := x)) d"] Cons.prems(1)
      by (simp add: apply_writes_def)
  qed
qed simp

definition same_area :: "logst \<Rightarrow> logst \<Rightarrow> bool" where
  "same_area l l' \<longleftrightarrow> l_start l = l_start l' \<and> l_size l = l_size l' \<and> l_dev l = l_dev l'"

lemma same_areaD:
  assumes "same_area l l'"
  shows "logblk l = logblk l'" "log_area l = log_area l'"
  using assms by (simp_all add: same_area_def logblk_def log_area_def fun_eq_iff)

lemma clear_head:
  assumes "log_wf l dsz" "same_area l0 l" "word_at (d (logblk l 0)) 0 = 0"
  shows "log_wf (disk_log l0 d) dsz" "home_eq (log_area l) (recover_disk l0 d) d"
proof -
  have n: "l_n (disk_log l0 d) = 0" using same_areaD(1) [OF assms(2)] assms(3) by simp
  have "length (l_block (disk_log l0 d)) = LOGSIZE" by (simp add: disk_log_def load_head_def Let_def)
  then show "log_wf (disk_log l0 d) dsz"
    using n assms(1,2) by (simp add: log_wf_def same_area_def logged_def)
  have "logblk l 0 \<in> log_area l" using log_wfD(5) [OF assms(1)] by (intro logblk_area) simp
  then show "home_eq (log_area l) (recover_disk l0 d) d"
    using n same_areaD(1) [OF assms(2)]
    by (auto simp: home_eq_def recover_disk_def Let_def to_home_def moved_def)
qed

lemma full_head:
  assumes wf: "log_wf l dsz" and sa: "same_area l0 l"
    and h: "d (logblk l 0) = head_data (l_n l) (l_block l) x" "length x = BSIZE"
  shows "log_wf (disk_log l0 d) dsz" "to_home (disk_log l0 d) = to_home l"
proof -
  have n: "l_n l \<le> int LOGSIZE" "0 \<le> l_n l" using wf by (simp_all add: log_wf_def)
  have si: "sint (word_of_int (l_n l) :: u32) = l_n l"
    using n by (simp add: sint_sbintrunc' signed_take_bit_int_eq_self)
  have ln: "l_n (disk_log l0 d) = l_n l"
    using same_areaD(1) [OF sa] h head_data_words(1) [OF n(1) h(2)] si by simp
  have len: "length (l_block (disk_log l0 d)) = LOGSIZE" by (simp add: disk_log_def load_head_def Let_def)
  have "l_block (disk_log l0 d) ! i = l_block l ! i" if "i < nat (l_n l)" for i
  proof -
    have "int i < l_n l" "i < LOGSIZE" using that n by linarith+
    then show ?thesis
      using same_areaD(1) [OF sa] h head_data_words [OF n(1) h(2)] si
      by (simp add: disk_log_def load_head_def Let_def)
  qed
  then have lg: "logged (disk_log l0 d) = logged l"
    using len n log_wfD(2) [OF wf] ln by (intro nth_equalityI) (simp_all add: logged_def)
  show "log_wf (disk_log l0 d) dsz"
    using wf sa ln len lg same_areaD [OF sa] by (simp add: log_wf_def same_area_def)
  show "to_home (disk_log l0 d) = to_home l"
    using ln lg same_areaD(1) [OF sa] by (simp add: to_home_def)
qed

lemma full_recover:
  assumes wf: "log_wf l dsz" and sa: "same_area l0 l"
    and h: "d (logblk l 0) = head_data (l_n l) (l_block l) x" "length x = BSIZE"
    and lg: "\<And>i. i < nat (l_n l) \<Longrightarrow> d (logblk l (i + 1)) = v (logged l ! i)"
    and other: "\<And>y. y \<notin> log_area l \<Longrightarrow> y \<notin> set (logged l) \<Longrightarrow> d y = v y"
  shows "home_eq (log_area l) (recover_disk l0 d) v"
  unfolding home_eq_def
proof (intro allI impI)
  fix y assume y: "y \<notin> log_area l"
  then have "y \<noteq> logblk l 0" using log_wfD(5) [OF wf] logblk_area [of 0 l] by auto
  then have r: "recover_disk l0 d y = moved (to_home l) d d y"
    using full_head(2) [where d = d, OF wf sa h] same_areaD(1) [OF sa] by (simp add: recover_disk_def Let_def)
  show "recover_disk l0 d y = v y"
  proof (cases "y \<in> set (logged l)")
    case True
    then obtain i where "i < nat (l_n l)" "y = logged l ! i"
      using log_wfD(8) [OF wf] by (metis in_set_conv_nth)
    then show ?thesis unfolding r using moved_home [OF wf] lg by simp
  next
    case False
    then have "y \<notin> fst ` set (to_home l)" using to_home_ok(2) [OF wf] by simp
    then show ?thesis unfolding r using other [OF y False] by (simp add: moved_other)
  qed
qed

lemma log_writes_ok:
  assumes "log_wf l dsz"
  shows "distinct (map fst (log_writes l v))" "fst ` set (log_writes l v) \<subseteq> log_area l - {logblk l 0}"
    "length (log_writes l v) = nat (l_n l)"
proof -
  have f: "map fst (log_writes l v) = map fst (to_log l)" by (simp add: log_writes_def to_log_def)
  then show "distinct (map fst (log_writes l v))" using to_log_ok(1) [OF assms] by simp
  show "fst ` set (log_writes l v) \<subseteq> log_area l - {logblk l 0}"
    using to_log_ok(2) [OF assms] arg_cong [OF f, of set] by simp
qed (simp add: log_writes_def)

lemma home_writes_ok:
  assumes "log_wf l dsz"
  shows "distinct (map fst (home_writes l v))" "fst ` set (home_writes l v) = set (logged l)"
    "length (home_writes l v) = nat (l_n l)"
proof -
  have f: "map fst (home_writes l v) = map fst (to_home l)" by (simp add: home_writes_def to_home_def)
  then show "distinct (map fst (home_writes l v))" using to_home_ok(1) [OF assms] by simp
  show "fst ` set (home_writes l v) = set (logged l)"
    using to_home_ok(2) [OF assms] arg_cong [OF f, of set] by simp
qed (simp add: home_writes_def)

lemma set_take_image: "f ` set (take k xs) \<subseteq> f ` set xs"
  by (rule image_mono [OF set_take_subset])

lemma logblk_head:
  assumes "log_wf l dsz"
  shows "logblk l 0 \<in> log_area l" "logblk l 0 \<notin> set (logged l)"
proof -
  show "logblk l 0 \<in> log_area l" using log_wfD(5) [OF assms] by (intro logblk_area) simp
  then show "logblk l 0 \<notin> set (logged l)" using log_wfD(7) [OF assms] by blast
qed

lemma crash_before:
  assumes wf: "log_wf l dsz" and e_def: "e = apply_writes (take k (log_writes l v)) d"
  shows "e (logblk l 0) = d (logblk l 0)" "home_eq (log_area l) e d"
proof -
  have t: "fst ` set (take k (log_writes l v)) \<subseteq> log_area l - {logblk l 0}"
    using log_writes_ok(2) [OF wf] set_take_image by (rule subset_trans [rotated])
  then show "e (logblk l 0) = d (logblk l 0)" unfolding e_def by (intro apply_writes_other) blast
  show "home_eq (log_area l) e d"
    unfolding e_def home_eq_def using t by (auto intro!: apply_writes_other)
qed

lemma crash_between:
  assumes wf: "log_wf l dsz"
    and clean: "\<And>y. y \<notin> log_area l \<Longrightarrow> y \<notin> set (logged l) \<Longrightarrow> v y = d y"
    and e_def: "e = apply_writes (take k (home_writes l v)) ((apply_writes (log_writes l v) d)(logblk l 0 := x))"
  shows "e (logblk l 0) = x" "i < nat (l_n l) \<Longrightarrow> e (logblk l (i + 1)) = v (logged l ! i)"
    "y \<notin> log_area l \<Longrightarrow> y \<notin> set (logged l) \<Longrightarrow> e y = v y"
proof -
  have t: "fst ` set (take k (home_writes l v)) \<subseteq> set (logged l)"
    using home_writes_ok(2) [OF wf] set_take_image by metis
  show "e (logblk l 0) = x"
    unfolding e_def using t logblk_head(2) [OF wf] by (subst apply_writes_other) auto
  show "e (logblk l (i + 1)) = v (logged l ! i)" if i: "i < nat (l_n l)"
  proof -
    note i1 = logblk_tail [OF wf i]
    have "apply_writes (log_writes l v) d (logblk l (i + 1)) = v (logged l ! i)"
      using i log_writes_ok(1) [OF wf] by (intro apply_writes_in) (auto simp: log_writes_def)
    then show ?thesis unfolding e_def using t log_wfD(7) [OF wf] i1 by (subst apply_writes_other) auto
  qed
  show "e y = v y" if "y \<notin> log_area l" "y \<notin> set (logged l)"
  proof -
    have "y \<noteq> logblk l 0" "y \<notin> fst ` set (log_writes l v)"
      using that logblk_head(1) [OF wf] log_writes_ok(2) [OF wf, of v] by auto
    then show ?thesis
      unfolding e_def using that t clean [OF that]
      by (subst apply_writes_other, blast) (simp add: apply_writes_other)
  qed
qed

lemma crash_after:
  assumes wf: "log_wf l dsz"
    and clean: "\<And>y. y \<notin> log_area l \<Longrightarrow> y \<notin> set (logged l) \<Longrightarrow> v y = d y"
    and e_def: "e = (apply_writes (home_writes l v) ((apply_writes (log_writes l v) d)(logblk l 0 := x)))(logblk l 0 := z)"
  shows "home_eq (log_area l) e v"
  unfolding home_eq_def
proof (intro allI impI)
  fix y assume y: "y \<notin> log_area l"
  then have yh: "y \<noteq> logblk l 0" using logblk_head(1) [OF wf] by auto
  show "e y = v y"
  proof (cases "y \<in> set (logged l)")
    case True
    then obtain i where "i < nat (l_n l)" "y = logged l ! i"
      using log_wfD(8) [OF wf] by (metis in_set_conv_nth)
    then have "(y, v y) \<in> set (home_writes l v)" by (auto simp: home_writes_def)
    then show ?thesis unfolding e_def using yh apply_writes_in home_writes_ok(1) [OF wf] by simp
  next
    case False
    then show ?thesis
      using crash_between(3) [where k = "nat (l_n l)" and x = x and v = v and d = d, OF wf clean refl y False]
        yh home_writes_ok(3) [OF wf, of v]
      by (simp add: e_def)
  qed
qed

lemma commit_crash:
  assumes wf: "log_wf l dsz" and sa: "same_area l0 l"
    and hd: "word_at (d (logblk l 0)) 0 = 0" "length (d (logblk l 0)) = BSIZE"
    and clean: "\<And>y. y \<notin> log_area l \<Longrightarrow> y \<notin> set (logged l) \<Longrightarrow> v y = d y"
    and e_def: "e = apply_writes (take k (commit_writes l v (d (logblk l 0)))) d"
  shows "log_wf (disk_log l0 e) dsz \<and>
    home_eq (log_area l) (recover_disk l0 e) (if k \<le> nat (l_n l) then d else v)"
proof -
  let ?h = "logblk l 0" let ?n = "nat (l_n l)" let ?x = "head_data (l_n l) (l_block l) (d ?h)"
  let ?A = "log_writes l v" let ?C = "home_writes l v" let ?y = "head_data 0 (l_block l) ?x"
  have len: "length ?A = ?n" "length ?C = ?n" using log_writes_ok(3) [OF wf] home_writes_ok(3) [OF wf] by auto
  have xl: "length ?x = BSIZE" using wf hd(2) by (simp add: log_wf_def)
  consider "k \<le> ?n" | "?n < k" "k \<le> 2 * ?n + 1" | "2 * ?n + 1 < k" by linarith
  then show ?thesis
  proof cases
    case 1
    then have e: "e = apply_writes (take k ?A) d" by (simp add: e_def commit_writes_def Let_def len)
    then show ?thesis
      using clear_head [of l dsz l0 e, OF wf sa] crash_before [OF wf e] hd(1) 1
      by (auto simp: home_eq_def)
  next
    case 2
    then have e: "e = apply_writes (take (k - ?n - 1) ?C) ((apply_writes ?A d)(?h := ?x))"
      using len unfolding e_def commit_writes_def Let_def
      by (simp add: take_Cons' apply_writes_append) (simp add: apply_writes_def)
    then show ?thesis
      using full_head(1) [of l dsz l0 e, OF wf sa] full_recover [of l dsz l0 e _ v, OF wf sa] hd(2) 2
        crash_between [OF wf clean e]
      by auto
  next
    case 3
    then have e: "e = (apply_writes ?C ((apply_writes ?A d)(?h := ?x)))(?h := ?y)"
      using len unfolding e_def commit_writes_def Let_def
      by (simp add: take_Cons' apply_writes_append) (simp add: apply_writes_def)
    have "word_at (e ?h) 0 = 0" unfolding e using head_data_words(1) [of 0 ?x "l_block l"] xl by simp
    then show ?thesis
      using clear_head [of l dsz l0 e, OF wf sa] crash_after [OF wf clean e] 3
      by (auto simp: home_eq_def)
  qed
qed

section \<open>Transactions\<close>

lemma log_slot_logged:
  assumes "log_wf l dsz"
  shows "n \<in> set (logged l) \<Longrightarrow> log_slot (nat (l_n l)) (l_block l) n < nat (l_n l) \<and>
      l_block l ! log_slot (nat (l_n l)) (l_block l) n = n"
    and "n \<notin> set (logged l) \<Longrightarrow> log_slot (nat (l_n l)) (l_block l) n = nat (l_n l)"
proof -
  let ?f = "first_slot (nat (l_n l)) (\<lambda>i. l_block l ! i = n)"
  have mem: "n \<in> set (logged l) \<longleftrightarrow> (\<exists>i<nat (l_n l). l_block l ! i = n)"
    using log_wfD(2,4,8) [OF assms] by (auto simp: in_set_conv_nth logged_def)
  show "log_slot (nat (l_n l)) (l_block l) n < nat (l_n l) \<and>
      l_block l ! log_slot (nat (l_n l)) (l_block l) n = n" if "n \<in> set (logged l)"
  proof -
    have "?f \<noteq> None" using that mem unfolding first_slot_None_iff by blast
    then obtain i where "?f = Some i" by blast
    then show ?thesis using first_slot_SomeD [of "nat (l_n l)" "\<lambda>i. l_block l ! i = n" i]
      by (simp add: log_slot_def)
  qed
  show "log_slot (nat (l_n l)) (l_block l) n = nat (l_n l)" if "n \<notin> set (logged l)"
  proof -
    have "?f = None" unfolding first_slot_None_iff using that mem by blast
    then show ?thesis by (simp add: log_slot_def)
  qed
qed

text \<open>The log after \<open>log_write\<close> of block \<open>n\<close>.\<close>

definition log_with :: "u32 \<Rightarrow> logst \<Rightarrow> logst" where
  "log_with n l = (let i = log_slot (nat (l_n l)) (l_block l) n in
     l\<lparr>l_block := (l_block l)[i := n], l_n := (if i = nat (l_n l) then l_n l + 1 else l_n l)\<rparr>)"

lemma log_with_simps [simp]:
  "l_start (log_with n l) = l_start l" "l_size (log_with n l) = l_size l" "l_dev (log_with n l) = l_dev l"
  "l_outstanding (log_with n l) = l_outstanding l" "l_committing (log_with n l) = l_committing l"
  "logblk (log_with n l) = logblk l" "log_area (log_with n l) = log_area l"
  by (simp_all add: log_with_def Let_def logblk_def fun_eq_iff log_area_def)

lemma log_with_logged:
  assumes "log_wf l dsz"
  shows "logged (log_with n l) = (if n \<in> set (logged l) then logged l else logged l @ [n])"
    and "l_n (log_with n l) = (if n \<in> set (logged l) then l_n l else l_n l + 1)"
proof -
  have len: "nat (l_n l) < length (l_block l)" using log_wfD(2,4) [OF assms] by simp
  have n0: "0 \<le> l_n l" using log_wfD(3) [OF assms] .
  note sl = log_slot_logged [OF assms, of n]
  show "l_n (log_with n l) = (if n \<in> set (logged l) then l_n l else l_n l + 1)"
    using sl by (auto simp: log_with_def Let_def)
  show "logged (log_with n l) = (if n \<in> set (logged l) then logged l else logged l @ [n])"
  proof (cases "n \<in> set (logged l)")
    case True
    then have "(l_block l)[log_slot (nat (l_n l)) (l_block l) n := n] = l_block l"
      using sl(1) by (metis list_update_id)
    then show ?thesis using True sl(1) by (simp add: log_with_def Let_def logged_def)
  next
    case False
    then show ?thesis using sl(2) len n0
      by (simp add: log_with_def Let_def logged_def nat_add_distrib take_Suc_conv_app_nth)
  qed
qed

lemma log_with_wf:
  assumes "log_wf l dsz" "n \<notin> log_area l" "unat n < dsz" "l_n l < l_size l - 1"
  shows "log_wf (log_with n l) dsz"
proof -
  have "length (l_block (log_with n l)) = LOGSIZE"
    using assms(1) by (simp add: log_wf_def log_with_def Let_def)
  then show ?thesis using assms log_with_logged [OF assms(1), of n] by (auto simp: log_wf_def)
qed

definition txn_write :: "u32 \<times> bytes \<Rightarrow> kernel \<Rightarrow> kernel res" where
  "txn_write = (\<lambda>(n, d) s. kbind (bread 1 n s) (\<lambda>(b, s). kbind (log_write b (set_data b d s)) (brelse b)))"

definition fs_txn :: "(u32 \<times> bytes) list \<Rightarrow> kernel \<Rightarrow> kernel res" where
  "fs_txn us s = kbind (begin_op s) (\<lambda>s. kbind (for_each txn_write us s) end_op)"

lemma txn_write_ok:
  assumes inv: "log_inv s" and o: "l_outstanding (log s) \<ge> 1" "l_n (log s) < l_size (log s) - 1"
    and n: "n \<notin> log_area (log s)" "unat n < disksize s" and d: "length d = BSIZE"
  shows "\<exists>s'. txn_write (n, d) s = Ok s' \<and> log_inv s' \<and> blk s' = (blk s)(n := d) \<and> disk s' = disk s \<and>
    dwrites s' = dwrites s \<and> log s' = log_with n (log s) \<and> disksize s' = disksize s"
proof -
  have bi: "bc_inv s" and wf: "log_wf (log s) (disksize s)" and lk: "lockedb s = {}"
    and dt: "dirtyb s = set (logged (log s))" using inv by (simp_all add: log_inv_def)
  have c: "card (dirtyb s) < NBUF" unfolding dt
    using card_length [of "logged (log s)"] log_wfD(4,8) [OF wf] by simp
  obtain b s1 where r: "bread 1 n s = Ok (b, s1)" "bc_inv s1" "held s1 b n"
    "bc_view s1 = (bc_view s)\<lparr>bv_locked := insert n (lockedb s)\<rparr>"
    using bc.read_ok [OF bi, of n] n(2) lk c by (auto simp: bv_room_def)
  have v1: "blk s1 = blk s" "disk s1 = disk s" "dwrites s1 = dwrites s" "dirtyb s1 = dirtyb s"
    "rest s1 = rest s" "lockedb s1 = {n}"
    using r(4) lk by (simp_all add: bc_view_def)
  have l1: "log s1 = log s" "disksize s1 = disksize s" using rest_fields [OF v1(5)] by simp_all
  let ?s2 = "upd_log (\<lambda>_. log_with n (log s)) (set_data b d s1)"
  let ?s3 = "upd_buf b (\<lambda>r. r\<lparr>b_dirty := True\<rparr>) ?s2"
  have s2: "bc_inv ?s2" "held ?s2 b n" "blk ?s2 = (blk s)(n := d)" "lockedb ?s2 = {n}" "dirtyb ?s2 = dirtyb s"
    using set_data_ok [OF r(2,3) d] v1 by simp_all
  note s3 = pin_ok [OF s2(1,2)]
  have f3: "disk ?s3 = disk s" "dwrites ?s3 = dwrites s" "log ?s3 = log_with n (log s)"
    "disksize ?s3 = disksize s" using v1 l1 by (simp_all add: set_data_def)
  have bn: "b_blockno (bufs (set_data b d s1) b) = n" using r(3) by (simp add: held_def set_data_def)
  have lw: "log_write b (set_data b d s1) = Ok ?s3"
    using o l1 bn wf by (simp add: log_write_def log_with_def Let_def set_data_def log_wf_def upd_log_def)
  obtain s4 where s4: "brelse b ?s3 = Ok s4" "bc_inv s4" "blk s4 = blk ?s3" "lockedb s4 = {}"
    "dirtyb s4 = dirtyb ?s3" "disk s4 = disk ?s3" "dwrites s4 = dwrites ?s3" "rest s4 = rest ?s3"
    using brelse_ok [OF s3(1,2)] s3(4,5) s2(4) by auto
  have l4: "log s4 = log_with n (log s)" "disksize s4 = disksize s"
    using rest_fields [OF s4(8)] f3 by simp_all
  have "dirtyb s4 = set (logged (log s4))"
    using s4(5) s3(5) s2(5) dt log_with_logged(1) [OF wf] l4 by auto
  then have "log_inv s4"
    using s4 l4 log_with_wf [OF wf n o(2)] inv f3(1) by (simp add: log_inv_def)
  then show ?thesis
    using r(1) lw s4 s3(3) s2(3) f3 l4 by (simp add: txn_write_def)
qed

definition home_block :: "logst \<Rightarrow> nat \<Rightarrow> u32 \<times> bytes \<Rightarrow> bool" where
  "home_block l dsz = (\<lambda>(n, d). n \<notin> log_area l \<and> unat n < dsz \<and> length d = BSIZE)"

lemma home_block_area: "same_area l l' \<Longrightarrow> home_block l = home_block l'"
  by (auto simp: fun_eq_iff home_block_def dest: same_areaD(2))

definition absorb :: "u32 \<times> bytes \<Rightarrow> u32 list \<Rightarrow> u32 list" where
  "absorb = (\<lambda>(n, d) ls. if n \<in> set ls then ls else ls @ [n])"

lemma absorb_fresh:
  "distinct (ls @ map fst us) \<Longrightarrow> fold absorb us ls = ls @ map fst us"
  by (induction us arbitrary: ls) (auto simp: absorb_def)

lemma txn_loop:
  assumes "log_inv s" "l_outstanding (log s) \<ge> 1" "l_n (log s) + int (length us) < l_size (log s)"
    "list_all (home_block (log s) (disksize s)) us"
  shows "\<exists>s'. for_each txn_write us s = Ok s' \<and> log_inv s' \<and> blk s' = apply_writes us (blk s) \<and>
    disk s' = disk s \<and> dwrites s' = dwrites s \<and> disksize s' = disksize s \<and> same_area (log s') (log s) \<and>
    l_outstanding (log s') = l_outstanding (log s) \<and> l_committing (log s') = l_committing (log s) \<and>
    logged (log s') = fold absorb us (logged (log s))"
  using assms
proof (induction us arbitrary: s)
  case Nil
  then show ?case by (simp add: apply_writes_def same_area_def)
next
  case (Cons u us)
  obtain n d where u: "u = (n, d)" by (cases u)
  have wf: "log_wf (log s) (disksize s)" using Cons.prems(1) by (simp add: log_inv_def)
  obtain s1 where s1: "txn_write (n, d) s = Ok s1" "log_inv s1" "blk s1 = (blk s)(n := d)" "disk s1 = disk s"
    "dwrites s1 = dwrites s" "log s1 = log_with n (log s)" "disksize s1 = disksize s"
    using txn_write_ok [of s n d] Cons.prems by (auto simp: u home_block_def)
  have sa: "same_area (log s1) (log s)" by (simp add: s1(6) same_area_def)
  have pre: "l_outstanding (log s1) \<ge> 1" "l_n (log s1) + int (length us) < l_size (log s1)"
    "list_all (home_block (log s1) (disksize s1)) us"
    using Cons.prems(2-) log_with_logged(2) [OF wf, of n] home_block_area [OF sa] s1(6,7) by simp_all
  obtain s' where s': "for_each txn_write us s1 = Ok s'" "log_inv s'" "blk s' = apply_writes us (blk s1)"
    "disk s' = disk s1" "dwrites s' = dwrites s1" "disksize s' = disksize s1" "same_area (log s') (log s1)"
    "l_outstanding (log s') = l_outstanding (log s1)" "l_committing (log s') = l_committing (log s1)"
    "logged (log s') = fold absorb us (logged (log s1))"
    using Cons.IH [OF s1(2) pre] by blast
  then show ?case using s1 sa log_with_logged(1) [OF wf, of n]
    by (auto simp: u apply_writes_def same_area_def absorb_def)
qed

lemma log_inv_upd [simp]:
  "log_inv (upd_log (\<lambda>l. l\<lparr>l_outstanding := f l\<rparr>) s) = log_inv s"
  "log_inv (upd_log (\<lambda>l. l\<lparr>l_committing := g l\<rparr>) s) = log_inv s"
  by (simp_all add: log_inv_def log_wf_def logged_def)

lemma committed_home:
  assumes wf: "log_wf l dsz"
  shows "home_eq (log_area l)
    ((moved (to_home l) ((moved (to_log l) v v)(logblk l 0 := x)) ((moved (to_log l) v v)(logblk l 0 := x)))
      (logblk l 0 := z)) v"
  unfolding home_eq_def
proof (intro allI impI)
  fix y assume y: "y \<notin> log_area l"
  then have yh: "y \<noteq> logblk l 0" and yl: "y \<notin> fst ` set (to_log l)"
    using logblk_head(1) [OF wf] to_log_ok(2) [OF wf] by auto
  let ?v = "(moved (to_log l) v v)(logblk l 0 := x)"
  have "moved (to_home l) ?v ?v y = v y"
  proof (cases "y \<in> set (logged l)")
    case True
    then obtain i where i: "i < nat (l_n l)" "y = logged l ! i"
      using log_wfD(8) [OF wf] by (metis in_set_conv_nth)
    then show ?thesis using logblk_tail(2) [OF wf i(1)] moved_home [OF wf] moved_log [OF wf] by simp
  next
    case False
    then show ?thesis using to_home_ok(2) [OF wf] yh yl by (simp add: moved_other)
  qed
  then show "((moved (to_home l) ?v ?v)(logblk l 0 := z)) y = v y" using yh by simp
qed

definition log_idle :: "kernel \<Rightarrow> bool" where
  "log_idle s \<longleftrightarrow> log_inv s \<and> l_n (log s) = 0 \<and> l_outstanding (log s) = 0 \<and> \<not> l_committing (log s)"

text \<open>
  What the log promises for the writes \<open>w\<close> of a transaction from a disk \<open>d\<close> to contents \<open>v\<close>: a
  disk that got only some of them, in order, recovers to one of the two.
\<close>

definition crash_safe :: "logst \<Rightarrow> nat \<Rightarrow> (u32 \<times> bytes) list \<Rightarrow> (u32 \<Rightarrow> bytes) \<Rightarrow> (u32 \<Rightarrow> bytes) \<Rightarrow> bool" where
  "crash_safe l dsz w d v \<longleftrightarrow> list_all (\<lambda>(n, x). length x = BSIZE) w \<and> (\<forall>l0 k. same_area l0 l \<longrightarrow>
     log_wf (disk_log l0 (apply_writes (take k w) d)) dsz \<and>
     (home_eq (log_area l) (recover_disk l0 (apply_writes (take k w) d)) d \<or>
      home_eq (log_area l) (recover_disk l0 (apply_writes (take k w) d)) v))"

lemma commit_full:
  assumes inv: "log_inv s"
  shows "\<exists>s' w. commit s = Ok s' \<and> bc_inv s' \<and> lockedb s' = {} \<and> dirtyb s' = {} \<and>
    home_eq (log_area (log s)) (blk s') (blk s) \<and> dwrites s' = dwrites s @ w \<and>
    crash_safe (log s) (disksize s) w (disk s) (blk s) \<and>
    word_at (blk s' (logblk (log s) 0)) 0 = 0 \<and> rest s' = rest (upd_log (\<lambda>l. l\<lparr>l_n := 0\<rparr>) s)"
proof -
  let ?l = "log s" let ?h = "logblk ?l 0"
  have wf: "log_wf ?l (disksize s)" and bi: "bc_inv s" "lockedb s = {}" "dirtyb s = set (logged ?l)"
    and h0: "word_at (disk s ?h) 0 = 0" using inv by (simp_all add: log_inv_def)
  have hl: "length (disk s ?h) = BSIZE" "blk s ?h = disk s ?h" using log_head_facts [OF inv] by auto
  have clean: "blk s y = disk s y" if "y \<notin> set (logged ?l)" for y
    using blk_clean [OF bi(1)] bi(2,3) that by simp
  show ?thesis
  proof (cases "l_n ?l > 0")
    case True
    let ?x = "head_data (l_n ?l) (l_block ?l) (disk s ?h)"
    have xl: "length ?x = BSIZE" using hl(1) wf by (simp add: log_wf_def)
    obtain s' where s': "commit s = Ok s'" "bc_inv s'" "lockedb s' = {}" "dirtyb s' = {}"
      "blk s' = (moved (to_home ?l) ((moved (to_log ?l) (blk s) (blk s))(?h := ?x))
        ((moved (to_log ?l) (blk s) (blk s))(?h := ?x)))(?h := head_data 0 (l_block ?l) ?x)"
      "dwrites s' = dwrites s @ commit_writes ?l (blk s) (disk s ?h)"
      "rest s' = rest (upd_log (\<lambda>l. l\<lparr>l_n := 0\<rparr>) s)"
      using commit_ok [OF inv True] by blast
    have lw: "list_all (\<lambda>(n, x). length x = BSIZE) (commit_writes ?l (blk s) (disk s ?h))"
      using blk_length [OF bi(1)] xl
      by (auto simp: commit_writes_def Let_def log_writes_def home_writes_def list_all_iff)
    have "crash_safe ?l (disksize s) (commit_writes ?l (blk s) (disk s ?h)) (disk s) (blk s)"
      unfolding crash_safe_def
    proof (rule conjI [OF lw], intro allI impI)
      fix l0 k assume "same_area l0 ?l"
      from commit_crash [where d = "disk s" and v = "blk s" and k = k, OF wf this h0 hl(1) clean refl]
      show "log_wf (disk_log l0 (apply_writes (take k (commit_writes ?l (blk s) (disk s ?h))) (disk s))) (disksize s) \<and>
        (home_eq (log_area ?l) (recover_disk l0 (apply_writes (take k (commit_writes ?l (blk s) (disk s ?h))) (disk s))) (disk s) \<or>
         home_eq (log_area ?l) (recover_disk l0 (apply_writes (take k (commit_writes ?l (blk s) (disk s ?h))) (disk s))) (blk s))"
        by (auto split: if_splits)
    qed
    then show ?thesis
      using s' committed_home [OF wf] head_data_words(1) [of 0 ?x "l_block ?l"] xl by auto
  next
    case False
    then have n0: "l_n ?l = 0" using log_wfD(3) [OF wf] by simp
    then have lg: "logged ?l = []" by (simp add: logged_def)
    have "rest s = rest (upd_log (\<lambda>l. l\<lparr>l_n := 0\<rparr>) s)"
      using n0 by (cases s) (simp add: rest_def upd_log_def)
    moreover have "crash_safe ?l (disksize s) [] (disk s) (blk s)"
      unfolding crash_safe_def using clear_head [where d = "disk s", OF wf _ h0] by (simp add: apply_writes_def)
    ultimately show ?thesis
      using False bi lg hl h0 by (intro exI [of _ s] exI [of _ "[]"]) (simp add: commit_def home_eq_def)
  qed
qed

lemma end_op_ok:
  assumes inv: "log_inv s" and o: "l_outstanding (log s) = 1" "\<not> l_committing (log s)"
  shows "\<exists>s' w. end_op s = Ok s' \<and> log_idle s' \<and> same_area (log s') (log s) \<and>
    home_eq (log_area (log s)) (disk s') (blk s) \<and> blk s' = disk s' \<and> dwrites s' = dwrites s @ w \<and>
    crash_safe (log s) (disksize s) w (disk s) (blk s) \<and> disksize s' = disksize s"
proof -
  let ?s = "upd_log (\<lambda>l. l\<lparr>l_committing := True\<rparr>) (upd_log (\<lambda>l. l\<lparr>l_outstanding := l_outstanding l - 1\<rparr>) s)"
  have inv': "log_inv ?s" using inv by simp
  obtain t w where t: "commit ?s = Ok t" "bc_inv t" "lockedb t = {}" "dirtyb t = {}"
    "home_eq (log_area (log ?s)) (blk t) (blk ?s)" "dwrites t = dwrites ?s @ w"
    "crash_safe (log ?s) (disksize ?s) w (disk ?s) (blk ?s)" "word_at (blk t (logblk (log ?s) 0)) 0 = 0"
    "rest t = rest (upd_log (\<lambda>l. l\<lparr>l_n := 0\<rparr>) ?s)"
    using commit_full [OF inv'] by blast
  have lt: "log t = (log ?s)\<lparr>l_n := 0\<rparr>" "disksize t = disksize s" using rest_fields [OF t(9)] by simp_all
  let ?t = "upd_log (\<lambda>l. l\<lparr>l_committing := False\<rparr>) t"
  let ?s' = "wakeup ChLog ?t"
  have v: "blk ?s' = blk ?t" "lockedb ?s' = lockedb ?t" "dirtyb ?s' = dirtyb ?t" "bc_inv ?s' = bc_inv ?t"
    using core_views [of ?s' ?t] core_views [of ?t ?s'] ring_bufs [of ?s' ?t] by (auto simp: bc_inv_def)
  have bd: "blk t = disk t" using blk_clean [OF t(2)] t(3,4) by auto
  have wf: "log_wf (log s) (disksize s)" using inv by (simp add: log_inv_def)
  then have "log_wf (log ?s') (disksize ?s')" using lt by (simp add: log_wf_def logged_def)
  then have "log_idle ?s'"
    using v t lt bd o by (simp add: log_idle_def log_inv_def logged_def)
  moreover have "crash_safe (log s) (disksize s) w (disk s) (blk s)"
    using t(7) by (simp add: crash_safe_def same_area_def)
  moreover have "end_op s = Ok ?s'" using o t(1) by (simp add: end_op_def Let_def)
  ultimately show ?thesis
    using t lt v(1) bd by (intro exI [of _ ?s'] exI [of _ w]) (simp add: same_area_def)
qed

lemma fs_txn_ok:
  assumes idle: "log_idle s" and us: "list_all (home_block (log s) (disksize s)) us"
    and len: "length us \<le> MAXOPBLOCKS" "int MAXOPBLOCKS < l_size (log s)"
  shows "\<exists>s' w. fs_txn us s = Ok s' \<and> log_idle s' \<and> same_area (log s') (log s) \<and>
    home_eq (log_area (log s)) (disk s') (apply_writes us (disk s)) \<and> disksize s' = disksize s \<and>
    dwrites s' = dwrites s @ w \<and> crash_safe (log s) (disksize s) w (disk s) (apply_writes us (disk s))"
proof -
  have inv: "log_inv s" and l: "l_n (log s) = 0" "l_outstanding (log s) = 0" "\<not> l_committing (log s)"
    using idle by (simp_all add: log_idle_def)
  let ?s = "upd_log (\<lambda>l. l\<lparr>l_outstanding := l_outstanding l + 1\<rparr>) s"
  have bd: "blk s = disk s" using blk_clean [of s] inv l(1) by (auto simp: log_inv_def logged_def)
  have b: "begin_op s = Ok ?s" using l by (simp add: begin_op_def)
  have "same_area (log ?s) (log s)" by (simp add: same_area_def)
  then have pre: "log_inv ?s" "l_outstanding (log ?s) \<ge> 1" "l_n (log ?s) + int (length us) < l_size (log ?s)"
    "list_all (home_block (log ?s) (disksize ?s)) us"
    using inv l len us home_block_area by simp_all
  obtain t where t: "for_each txn_write us ?s = Ok t" "log_inv t" "blk t = apply_writes us (blk ?s)"
    "disk t = disk ?s" "dwrites t = dwrites ?s" "disksize t = disksize ?s" "same_area (log t) (log ?s)"
    "l_outstanding (log t) = l_outstanding (log ?s)" "l_committing (log t) = l_committing (log ?s)"
    using txn_loop [OF pre] by blast
  obtain s' w where s': "end_op t = Ok s'" "log_idle s'" "same_area (log s') (log t)"
    "home_eq (log_area (log t)) (disk s') (blk t)" "dwrites s' = dwrites t @ w"
    "crash_safe (log t) (disksize t) w (disk t) (blk t)" "disksize s' = disksize t"
    using end_op_ok [OF t(2)] t(8,9) l by auto
  have ar: "same_area (log t) (log s)" using t(7) by (simp add: same_area_def)
  have "crash_safe (log s) (disksize s) w (disk s) (apply_writes us (disk s))"
    using s'(6) t(3,4,6) ar same_areaD [OF ar] bd by (simp add: crash_safe_def same_area_def)
  then show ?thesis
    using b t s' bd same_areaD(2) [OF ar] ar by (auto simp: fs_txn_def same_area_def)
qed

section \<open>Properties\<close>

lemma home_eq_trans: "home_eq A d e \<Longrightarrow> home_eq A f e \<Longrightarrow> home_eq A d f"
  by (simp add: home_eq_def)

text \<open>C2: A crash in the middle of a file-system transaction is harmless: whatever prefix of its disk writes (log, header, home blocks, cleared header) has reached the disk, recover_from_log on the rebooted machine succeeds and leaves every home block as before the transaction, or every one as after it.\<close>

theorem transaction_atomic:
  assumes "log_idle s" "list_all (home_block (log s) (disksize s)) us"
    "length us \<le> MAXOPBLOCKS" "int MAXOPBLOCKS < l_size (log s)"
    and run: "fs_txn us s = Ok s'" "dwrites s' = dwrites s @ w"
    and boot: "bc_inv t" "lockedb t = {}" "dirtyb t = {}" "same_area (log t) (log s)"
      "disksize t = disksize s" "disk t = apply_writes (take k w) (disk s)"
  shows "\<exists>t'. recover_from_log t = Ok t' \<and>
    (home_eq (log_area (log s)) (disk t') (disk s) \<or> home_eq (log_area (log s)) (disk t') (disk s'))"
proof -
  have c: "crash_safe (log s) (disksize s) w (disk s) (apply_writes us (disk s))"
    "home_eq (log_area (log s)) (disk s') (apply_writes us (disk s))"
    using fs_txn_ok [OF assms(1-4)] run by auto
  then have "log_wf (disk_log (log t) (disk t)) (disksize t)"
    using boot(4-) by (simp add: crash_safe_def)
  then obtain t' where "recover_from_log t = Ok t'" "disk t' = recover_disk (log t) (disk t)"
    using recover_from_log_ok [OF boot(1-3)] by blast
  then show ?thesis using c boot(4,6) home_eq_trans by (fastforce simp: crash_safe_def)
qed

definition demo_log :: logst where
  "demo_log = \<lparr>l_start = 2, l_size = 30, l_outstanding = 0, l_committing = False, l_dev = 1, l_n = 0,
     l_block = replicate 30 0\<rparr>"

definition booted :: "(u32 \<Rightarrow> bytes) \<Rightarrow> kernel" where
  "booted d = upd_log (\<lambda>_. demo_log) (binit (demo_kernel\<lparr>cur := Some 0, disk := d\<rparr>))"

lemma booted_ok:
  assumes "\<forall>n. length (d n) = BSIZE"
  shows "bc_inv (booted d)" "lockedb (booted d) = {}" "dirtyb (booted d) = {}" "log (booted d) = demo_log"
    "disksize (booted d) = 1000" "disk (booted d) = d"
  using binit_ok [of "demo_kernel\<lparr>cur := Some 0, disk := d\<rparr>"] assms
  by (simp_all add: booted_def) (simp add: binit_def fold_binit_disksize set_next_def set_prev_def)

lemma demo_log_idle:
  assumes "\<forall>n. length (d n) = BSIZE" "word_at (d 2) 0 = 0"
  shows "log_idle (booted d)"
  using booted_ok [OF assms(1)] assms(2)
  by (simp add: log_idle_def log_inv_def log_wf_def logged_def demo_log_def logblk_def)

lemma demo_area: "n \<in> log_area demo_log \<Longrightarrow> unat n < 32"
proof -
  have "unat (logblk demo_log i) = 2 + i" if "i < 30" for i
    using that unfolding logblk_def demo_log_def unat_eq_nat_uint
    by (simp only: logst.simps uint_word_of_int) simp
  then show "n \<in> log_area demo_log \<Longrightarrow> unat n < 32"
    by (auto simp: log_area_def) (simp add: demo_log_def)
qed

lemma apply_writes_length:
  "list_all (\<lambda>(n, x). length x = BSIZE) w \<Longrightarrow> \<forall>n. length (d n) = BSIZE \<Longrightarrow>
    length (apply_writes (take k w) d m) = BSIZE"
proof (induction w arbitrary: d k)
  case (Cons u w)
  then show ?case by (cases k; cases u) (auto simp: apply_writes_def)
qed (simp add: apply_writes_def)

abbreviation (input) "zero_disk \<equiv> (\<lambda>_ :: u32. replicate 512 0 :: bytes)"
abbreviation (input) "demo_us \<equiv> [(100 :: u32, replicate 512 7 :: bytes), (101, replicate 512 8)]"

lemma demo_txn:
  "log_idle (booted zero_disk)" "list_all (home_block (log (booted zero_disk)) (disksize (booted zero_disk))) demo_us"
  "length demo_us \<le> MAXOPBLOCKS" "int MAXOPBLOCKS < l_size (log (booted zero_disk))"
proof -
  have w0: "word_at (replicate 512 0) 0 = 0" by (simp add: word_at_def slice_def of_le32_def)
  show "log_idle (booted zero_disk)" by (rule demo_log_idle) (simp_all add: w0)
  show "int MAXOPBLOCKS < l_size (log (booted zero_disk))" by (simp add: booted_ok demo_log_def)
  have "100 \<notin> log_area demo_log" "101 \<notin> log_area demo_log" using demo_area by fastforce+
  then show "list_all (home_block (log (booted zero_disk)) (disksize (booted zero_disk))) demo_us"
    by (simp add: booted_ok home_block_def)
qed simp

theorem transaction_atomic_witness:
  "\<exists>s' w t'. fs_txn demo_us (booted zero_disk) = Ok s' \<and>
    recover_from_log (booted (apply_writes (take 3 w) zero_disk)) = Ok t' \<and>
    (home_eq (log_area demo_log) (disk t') zero_disk \<or> home_eq (log_area demo_log) (disk t') (disk s'))"
proof -
  let ?s = "booted zero_disk"
  have b: "log ?s = demo_log" "disksize ?s = 1000" "disk ?s = zero_disk"
    using booted_ok [of zero_disk] by simp_all
  obtain s' w where s': "fs_txn demo_us ?s = Ok s'" "dwrites s' = dwrites ?s @ w"
    "list_all (\<lambda>(n, x). length x = BSIZE) w"
    using fs_txn_ok [OF demo_txn] by (auto simp: crash_safe_def)
  let ?t = "booted (apply_writes (take 3 w) zero_disk)"
  have "\<forall>n. length (apply_writes (take 3 w) zero_disk n) = BSIZE"
    using apply_writes_length [OF s'(3)] by simp
  note t = booted_ok [OF this]
  have "\<exists>t'. recover_from_log ?t = Ok t' \<and>
    (home_eq (log_area (log ?s)) (disk t') (disk ?s) \<or> home_eq (log_area (log ?s)) (disk t') (disk s'))"
    using transaction_atomic [OF demo_txn s'(1,2) t(1-3), of 3] t(4-) b by (simp add: same_area_def)
  then show ?thesis using s'(1) unfolding b by blast
qed

text \<open>C9: A transaction of at most MAXOPBLOCKS home blocks runs to the end on an idle log: begin_op does not sleep, no log_write panics, end_op commits, the home blocks on the disk are the written ones, the others are unchanged, and the log is idle and empty again.\<close>

theorem transaction_commits:
  assumes "log_idle s" "list_all (home_block (log s) (disksize s)) us"
    "length us \<le> MAXOPBLOCKS" "int MAXOPBLOCKS < l_size (log s)"
  shows "\<exists>s'. fs_txn us s = Ok s' \<and> log_idle s' \<and>
    home_eq (log_area (log s)) (disk s') (apply_writes us (disk s))"
  using fs_txn_ok [OF assms] by blast

theorem transaction_commits_witness:
  "\<exists>s'. fs_txn demo_us (booted zero_disk) = Ok s' \<and> log_idle s' \<and>
    disk s' 101 = replicate 512 8 \<and> disk s' 102 = replicate 512 0"
proof -
  have b: "log (booted zero_disk) = demo_log" "disk (booted zero_disk) = zero_disk"
    using booted_ok [of zero_disk] by simp_all
  have "101 \<notin> log_area demo_log" "102 \<notin> log_area demo_log" using demo_area by fastforce+
  then show ?thesis using transaction_commits [OF demo_txn] unfolding b
    by (auto simp: home_eq_def apply_writes_def)
qed

text \<open>C31: begin_op reserves LOGSIZE blocks but the log area holds LOGSIZE - 1 besides its header: with the log size that mkfs gives it, three operations of MAXOPBLOCKS blocks are admitted at once, and the last of their 30 distinct blocks makes log_write panic with too big a transaction.\<close>

theorem admitted_operations_panic:
  assumes idle: "log_idle s" and sz: "l_size (log s) = int LOGSIZE"
    and us: "list_all (home_block (log s) (disksize s)) us" "length us = 3 * MAXOPBLOCKS"
      "distinct (map fst us)"
  shows "\<exists>s3. kbind (begin_op s) (\<lambda>s. kbind (begin_op s) begin_op) = Ok s3 \<and>
    for_each txn_write us s3 = Panic ''too big a transaction''"
proof -
  have inv: "log_inv s" and l: "l_n (log s) = 0" "l_outstanding (log s) = 0" "\<not> l_committing (log s)"
    using idle by (simp_all add: log_idle_def)
  let ?s = "upd_log (\<lambda>l. l\<lparr>l_outstanding := 3\<rparr>) s"
  have b: "kbind (begin_op s) (\<lambda>s. kbind (begin_op s) begin_op) = Ok ?s"
    using l by (simp add: begin_op_def upd_log_def)
  obtain vs n d where vs: "us = vs @ [(n, d)]" using us(2) by (cases us rule: rev_cases) auto
  have len: "length vs = 29" using us(2) vs by simp
  have ar: "same_area (log ?s) (log s)" by (simp add: same_area_def)
  have "list_all (home_block (log ?s) (disksize ?s)) vs" using us(1) vs home_block_area [OF ar] by simp
  then obtain t where t: "for_each txn_write vs ?s = Ok t" "log_inv t" "disksize t = disksize s"
    "same_area (log t) (log ?s)" "l_outstanding (log t) = 3"
    "logged (log t) = fold absorb vs (logged (log s))"
    using txn_loop [of ?s vs] inv l sz len by (auto simp: logged_def)
  have "logged (log t) = map fst vs"
    using t(6) absorb_fresh [of "[]" vs] us(3) vs l(1) by (simp add: logged_def)
  moreover have wf: "log_wf (log t) (disksize t)" using t(2) by (simp add: log_inv_def)
  ultimately have ln: "l_n (log t) = 29" using log_wfD(3,8) [OF wf] len by simp
  have "\<exists>b s1. bread 1 n t = Ok (b, s1) \<and> rest s1 = rest t"
  proof -
    have c: "card (dirtyb t) < NBUF" "lockedb t = {}" "bc_inv t" "unat n < disksize t"
      using t(2,3) wf card_length [of "logged (log t)"] log_wfD(4,8) [OF wf] us(1) vs
      by (auto simp: log_inv_def home_block_def)
    then show ?thesis using bread_ok [of t n] by (auto simp: bread_post_def)
  qed
  then obtain b s1 where s1: "bread 1 n t = Ok (b, s1)" "log s1 = log t" using rest_fields(3) by blast
  have "l_size (log t) = 30" using t(4) sz by (simp add: same_area_def)
  then have "txn_write (n, d) t = Panic ''too big a transaction''"
    using s1 ln by (simp add: txn_write_def log_write_def set_data_def)
  then have "for_each txn_write us ?s = Panic ''too big a transaction''"
    using t(1) by (simp add: vs for_each_append)
  then show ?thesis using b by blast
qed

definition thirty_blocks :: "(u32 \<times> bytes) list" where
  "thirty_blocks = map (\<lambda>i. (word_of_nat (100 + i), replicate 512 1)) [0..<30]"

lemma unat_100: "i < 30 \<Longrightarrow> unat (word_of_nat (100 + i) :: u32) = 100 + i"
  by (rule unat_word_of_nat_less) simp

theorem admitted_operations_panic_witness:
  "\<exists>s3. kbind (begin_op (booted zero_disk)) (\<lambda>s. kbind (begin_op s) begin_op) = Ok s3 \<and>
    for_each txn_write thirty_blocks s3 = Panic ''too big a transaction''"
proof -
  have b: "log (booted zero_disk) = demo_log" "disksize (booted zero_disk) = 1000"
    using booted_ok [of zero_disk] by simp_all
  have "home_block demo_log 1000 (word_of_nat (100 + i), replicate 512 1)" if "i < 30" for i
    using that unat_100 [OF that] demo_area [of "word_of_nat (100 + i)"] by (auto simp: home_block_def)
  then have "list_all (home_block demo_log 1000) thirty_blocks"
    by (auto simp: thirty_blocks_def list_all_iff)
  moreover have "distinct (map fst thirty_blocks)"
    unfolding thirty_blocks_def
    by (auto simp: distinct_map comp_def intro!: inj_onI dest!: arg_cong [where f = unat] simp: unat_100 simp del: of_nat_add)
  ultimately show ?thesis
    using admitted_operations_panic [OF demo_txn(1), of thirty_blocks] b
    by (simp add: demo_log_def thirty_blocks_def)
qed

end
