(* ===== verification/Inode.thy ===== *)
theory Inode
  imports Log CString Cprintf
begin

text \<open>
  The lower half of \<^verbatim>\<open>fs.c\<close>: the block allocator, the inode cache, inode locks and the block
  map of an inode. An inode pointer is an index of the inode cache. Block contents are changed in the
  buffer that holds them (\<open>set_data\<close>) and logged, as in the code.
\<close>

section \<open>Blocks\<close>

definition bzero :: "u32 \<Rightarrow> u32 \<Rightarrow> kernel \<Rightarrow> kernel res" where
  "bzero dev bno s =
     kbind (bread dev bno s) (\<lambda>(bp, s).
     kbind (log_write bp (set_data bp (replicate BSIZE 0) s)) (\<lambda>s. brelse bp s))"

definition block_bit :: "bytes \<Rightarrow> nat \<Rightarrow> bool" where
  "block_bit d bi = bit (d ! (bi div 8)) (bi mod 8)"

definition set_block_bit :: "bytes \<Rightarrow> nat \<Rightarrow> bytes" where
  "set_block_bit d bi = d[bi div 8 := d ! (bi div 8) OR push_bit (bi mod 8) 1]"

definition clear_block_bit :: "bytes \<Rightarrow> nat \<Rightarrow> bytes" where
  "clear_block_bit d bi = d[bi div 8 := d ! (bi div 8) AND NOT (push_bit (bi mod 8) 1)]"

fun balloc_from :: "u32 \<Rightarrow> nat list \<Rightarrow> kernel \<Rightarrow> (u32 \<times> kernel) res" where
  "balloc_from dev [] s = Panic ''balloc: out of blocks''"
| "balloc_from dev (b # bs) s =
     kbind (bread dev (BBLOCK (word_of_nat b) (sb s)) s) (\<lambda>(bp, s).
       case first_slot (min BPB (unat (sb_size (sb s)) - b)) (\<lambda>bi. \<not> block_bit (b_data (bufs s bp)) bi) of
         Some bi \<Rightarrow>
           kbind (log_write bp (set_data bp (set_block_bit (b_data (bufs s bp)) bi) s)) (\<lambda>s.
           kbind (brelse bp s) (\<lambda>s.
           kbind (bzero dev (word_of_nat (b + bi)) s) (\<lambda>s. Ok (word_of_nat (b + bi), s))))
       | None \<Rightarrow> kbind (brelse bp s) (balloc_from dev bs))"

definition bitmap_starts :: "u32 \<Rightarrow> nat list" where
  "bitmap_starts n = map (\<lambda>k. k * BPB) [0..<(unat n + (BPB - 1)) div BPB]"

definition balloc :: "u32 \<Rightarrow> kernel \<Rightarrow> (u32 \<times> kernel) res" where
  "balloc dev s = balloc_from dev (bitmap_starts (sb_size (sb s))) s"

definition bfree :: "u32 \<Rightarrow> u32 \<Rightarrow> kernel \<Rightarrow> kernel res" where
  "bfree dev b s =
     kbind (readsb dev s) (\<lambda>(x, s).
     let s = s\<lparr>sb := x\<rparr> in
     kbind (bread dev (BBLOCK b (sb s)) s) (\<lambda>(bp, s).
       let bi = unat b mod BPB; d = b_data (bufs s bp) in
       if \<not> block_bit d bi then Panic ''freeing free block''
       else kbind (log_write bp (set_data bp (clear_block_bit d bi) s)) (brelse bp)))"

section \<open>Inodes\<close>

definition upd_inode :: "nat \<Rightarrow> (inode \<Rightarrow> inode) \<Rightarrow> kernel \<Rightarrow> kernel" where
  "upd_inode i f s = s\<lparr>inodes := (inodes s)(i := f (inodes s i))\<rparr>"

definition iinit :: "u32 \<Rightarrow> kernel \<Rightarrow> kernel res" where
  "iinit dev s =
     (let s = fold (\<lambda>i. upd_inode i (\<lambda>r. r\<lparr>i_lock := initsleeplock (i_lock r)\<rparr>)) [0..<NINODE] s in
      kbind (readsb dev s) (\<lambda>(x, s).
      let s = s\<lparr>sb := x\<rparr> in
      cprintf ''sb: size %d nblocks %d ninodes %d nlog %d logstart %d inodestart %d bmap start %d\<newline>''
        [PInt (sb_size x), PInt (sb_nblocks x), PInt (sb_ninodes x), PInt (sb_nlog x),
         PInt (sb_logstart x), PInt (sb_inodestart x), PInt (sb_bmapstart x)] s))"

definition iget :: "u32 \<Rightarrow> u32 \<Rightarrow> kernel \<Rightarrow> (nat \<times> kernel) res" where
  "iget dev inum s =
     (case first_slot NINODE (\<lambda>i. i_ref (inodes s i) > 0 \<and> i_dev (inodes s i) = dev \<and>
         i_inum (inodes s i) = inum) of
        Some ip \<Rightarrow> Ok (ip, upd_inode ip (\<lambda>r. r\<lparr>i_ref := i_ref r + 1\<rparr>) s)
      | None \<Rightarrow>
          (case first_slot NINODE (\<lambda>i. i_ref (inodes s i) = 0) of
             None \<Rightarrow> Panic ''iget: no inodes''
           | Some ip \<Rightarrow> Ok (ip, upd_inode ip
               (\<lambda>r. r\<lparr>i_dev := dev, i_inum := inum, i_ref := 1, i_valid := False\<rparr>) s)))"

definition idup :: "nat \<Rightarrow> kernel \<Rightarrow> nat \<times> kernel" where
  "idup ip s = (ip, upd_inode ip (\<lambda>r. r\<lparr>i_ref := i_ref r + 1\<rparr>) s)"

definition zero_dinode :: dinode where
  "zero_dinode = \<lparr>di_type = 0, di_major = 0, di_minor = 0, di_nlink = 0, di_size = 0,
     di_addrs = replicate (NDIRECT + 1) 0\<rparr>"

fun ialloc_from :: "u32 \<Rightarrow> u16 \<Rightarrow> nat list \<Rightarrow> kernel \<Rightarrow> (nat \<times> kernel) res" where
  "ialloc_from dev type [] s = Panic ''ialloc: no inodes''"
| "ialloc_from dev type (inum # ns) s =
     kbind (bread dev (IBLOCK (word_of_nat inum) (sb s)) s) (\<lambda>(bp, s).
       if di_type (rec_get dec_dinode dinode_size (inum mod IPB) (b_data (bufs s bp))) = 0 then
         kbind (log_write bp (set_data bp (rec_put enc_dinode dinode_size (inum mod IPB)
             (zero_dinode\<lparr>di_type := type\<rparr>) (b_data (bufs s bp))) s)) (\<lambda>s.
         kbind (brelse bp s) (\<lambda>s. iget dev (word_of_nat inum) s))
       else kbind (brelse bp s) (ialloc_from dev type ns))"

definition ialloc :: "u32 \<Rightarrow> u16 \<Rightarrow> kernel \<Rightarrow> (nat \<times> kernel) res" where
  "ialloc dev type s = ialloc_from dev type [1..<unat (sb_ninodes (sb s))] s"

definition dinode_of :: "inode \<Rightarrow> dinode" where
  "dinode_of r = \<lparr>di_type = i_type r, di_major = i_major r, di_minor = i_minor r,
     di_nlink = i_nlink r, di_size = i_size r, di_addrs = i_addrs r\<rparr>"

definition iupdate :: "nat \<Rightarrow> kernel \<Rightarrow> kernel res" where
  "iupdate ip s =
     (let r = inodes s ip in
      kbind (bread (i_dev r) (IBLOCK (i_inum r) (sb s)) s) (\<lambda>(bp, s).
      kbind (log_write bp (set_data bp (rec_put enc_dinode dinode_size (unat (i_inum r) mod IPB)
          (dinode_of r) (b_data (bufs s bp))) s)) (brelse bp)))"

definition load_dinode :: "dinode \<Rightarrow> inode \<Rightarrow> inode" where
  "load_dinode d r = r\<lparr>i_type := di_type d, i_major := di_major d, i_minor := di_minor d,
     i_nlink := di_nlink d, i_size := di_size d, i_addrs := di_addrs d\<rparr>"

definition ilock :: "nat \<Rightarrow> kernel \<Rightarrow> kernel res" where
  "ilock ip s =
     (if i_ref (inodes s ip) < 1 then Panic ''ilock''
      else
        kbind (acquiresleep (ChInodeLock ip) (i_lock (inodes s ip)) s) (\<lambda>lk.
        let s = upd_inode ip (\<lambda>r. r\<lparr>i_lock := lk\<rparr>) s; r = inodes s ip in
        if \<not> i_valid r then
          kbind (bread (i_dev r) (IBLOCK (i_inum r) (sb s)) s) (\<lambda>(bp, s).
          let d = rec_get dec_dinode dinode_size (unat (i_inum r) mod IPB) (b_data (bufs s bp));
              s = upd_inode ip (load_dinode d) s in
          kbind (brelse bp s) (\<lambda>s.
          let s = upd_inode ip (\<lambda>r. r\<lparr>i_valid := True\<rparr>) s in
          if i_type (inodes s ip) = 0 then Panic ''ilock: no type'' else Ok s))
        else Ok s))"

definition iunlock :: "nat \<Rightarrow> kernel \<Rightarrow> kernel res" where
  "iunlock ip s =
     (if \<not> holdingsleep (i_lock (inodes s ip)) \<or> i_ref (inodes s ip) < 1 then Panic ''iunlock''
      else let (lk, s) = releasesleep (ChInodeLock ip) (i_lock (inodes s ip)) s in
           Ok (upd_inode ip (\<lambda>r. r\<lparr>i_lock := lk\<rparr>) s))"

section \<open>The content of an inode\<close>

definition set_addr :: "nat \<Rightarrow> nat \<Rightarrow> u32 \<Rightarrow> kernel \<Rightarrow> kernel" where
  "set_addr ip i a s = upd_inode ip (\<lambda>r. r\<lparr>i_addrs := (i_addrs r)[i := a]\<rparr>) s"

text \<open>\<^verbatim>\<open>ip->addrs[i]\<close>, allocated when it is zero.\<close>

definition addr_or_alloc :: "nat \<Rightarrow> nat \<Rightarrow> kernel \<Rightarrow> (u32 \<times> kernel) res" where
  "addr_or_alloc ip i s =
     (let addr = i_addrs (inodes s ip) ! i in
      if addr = 0 then
        kbind (balloc (i_dev (inodes s ip)) s) (\<lambda>(addr, s). Ok (addr, set_addr ip i addr s))
      else Ok (addr, s))"

definition bmap :: "nat \<Rightarrow> nat \<Rightarrow> kernel \<Rightarrow> (u32 \<times> kernel) res" where
  "bmap ip bn s =
     (if bn < NDIRECT then addr_or_alloc ip bn s
      else let bn = bn - NDIRECT in
      if bn < NINDIRECT then
        kbind (addr_or_alloc ip NDIRECT s) (\<lambda>(addr, s).
        kbind (bread (i_dev (inodes s ip)) addr s) (\<lambda>(bp, s).
        let addr = word_at (b_data (bufs s bp)) bn in
        if addr = 0 then
          kbind (balloc (i_dev (inodes s ip)) s) (\<lambda>(addr, s).
          kbind (log_write bp (set_data bp (put_word bn addr (b_data (bufs s bp))) s)) (\<lambda>s.
          kbind (brelse bp s) (\<lambda>s. Ok (addr, s))))
        else kbind (brelse bp s) (\<lambda>s. Ok (addr, s))))
      else Panic ''bmap: out of range'')"

definition trunc_direct :: "nat \<Rightarrow> nat \<Rightarrow> kernel \<Rightarrow> kernel res" where
  "trunc_direct ip i s =
     (let a = i_addrs (inodes s ip) ! i in
      if a \<noteq> 0 then kbind (bfree (i_dev (inodes s ip)) a s) (\<lambda>s. Ok (set_addr ip i 0 s)) else Ok s)"

definition trunc_indirect :: "nat \<Rightarrow> nat \<Rightarrow> nat \<Rightarrow> kernel \<Rightarrow> kernel res" where
  "trunc_indirect ip bp j s =
     (let a = word_at (b_data (bufs s bp)) j in
      if a \<noteq> 0 then bfree (i_dev (inodes s ip)) a s else Ok s)"

definition itrunc :: "nat \<Rightarrow> kernel \<Rightarrow> kernel res" where
  "itrunc ip s =
     kbind (for_each (trunc_direct ip) [0..<NDIRECT] s) (\<lambda>s.
     kbind
       (let a = i_addrs (inodes s ip) ! NDIRECT in
        if a \<noteq> 0 then
          kbind (bread (i_dev (inodes s ip)) a s) (\<lambda>(bp, s).
          kbind (for_each (trunc_indirect ip bp) [0..<NINDIRECT] s) (\<lambda>s.
          kbind (brelse bp s) (\<lambda>s.
          kbind (bfree (i_dev (inodes s ip)) (i_addrs (inodes s ip) ! NDIRECT) s) (\<lambda>s.
          Ok (set_addr ip NDIRECT 0 s)))))
        else Ok s)
       (\<lambda>s. iupdate ip (upd_inode ip (\<lambda>r. r\<lparr>i_size := 0\<rparr>) s)))"

definition iput :: "nat \<Rightarrow> kernel \<Rightarrow> kernel res" where
  "iput ip s =
     kbind
       (if i_ref (inodes s ip) = 1 \<and> i_valid (inodes s ip) \<and> i_nlink (inodes s ip) = 0 then
          kbind (itrunc ip s) (\<lambda>s.
          kbind (iupdate ip (upd_inode ip (\<lambda>r. r\<lparr>i_type := 0\<rparr>) s)) (\<lambda>s.
          Ok (upd_inode ip (\<lambda>r. r\<lparr>i_valid := False\<rparr>) s)))
        else Ok s)
       (\<lambda>s. Ok (upd_inode ip (\<lambda>r. r\<lparr>i_ref := i_ref r - 1\<rparr>) s))"

definition iunlockput :: "nat \<Rightarrow> kernel \<Rightarrow> kernel res" where
  "iunlockput ip s = kbind (iunlock ip s) (iput ip)"

record stat =
  st_type :: u16
  st_dev :: u32
  st_ino :: u32
  st_nlink :: u16
  st_size :: u32

definition stati :: "inode \<Rightarrow> stat" where
  "stati r = \<lparr>st_type = i_type r, st_dev = i_dev r, st_ino = i_inum r, st_nlink = i_nlink r,
     st_size = i_size r\<rparr>"

end
