(* ===== verification/Ring.thy ===== *)
theory Ring
  imports Prelude
begin

text \<open>
  Circular buffers with free-running counters, as the pipes and the console use them: the contents
  between a read counter and a write counter, and the interface of a bounded queue with what a
  sequence of insertions and removals does to it.
\<close>

section \<open>Windows of a circular buffer\<close>

lemma mod_window:
  assumes "k < (m :: nat)" "j < m" "(a + k) mod m = (a + j) mod m"
  shows "k = j"
proof -
  have w: "(a + x) mod m = (if a mod m + x < m then a mod m + x else a mod m + x - m)" if "x < m" for x
  proof -
    have "(a mod m + x) mod m = (if a mod m + x < m then a mod m + x else a mod m + x - m)"
    proof (cases "a mod m + x < m")
      case False
      have "a mod m < m" using that by simp
      then have "a mod m + x - m < m" using that by linarith
      then show ?thesis using False le_mod_geq [of m "a mod m + x"] by simp
    qed simp
    then show ?thesis by (simp add: mod_add_left_eq)
  qed
  have "a mod m < m" using assms(1) by simp
  then show ?thesis using assms w [OF assms(1)] w [OF assms(2)] by (auto split: if_splits)
qed

definition window :: "'a list \<Rightarrow> nat \<Rightarrow> nat \<Rightarrow> 'a list" where
  "window buf r n = map (\<lambda>k. buf ! ((r + k) mod length buf)) [0..<n]"

lemma length_window [simp]: "length (window buf r n) = n"
  by (simp add: window_def)

lemma window_cong: "r mod length buf = r' mod length buf \<Longrightarrow> window buf r n = window buf r' n"
  unfolding window_def by (metis mod_add_left_eq)

lemma window_Suc: "window buf r (Suc n) = buf ! (r mod length buf) # window buf (Suc r) n"
  by (simp add: window_def map_upt_Suc del: upt_Suc)

lemma window_push:
  assumes "n < length buf"
  shows "window (buf[(r + n) mod length buf := c]) r (Suc n) = window buf r n @ [c]"
proof -
  have ne: "(r + n) mod length buf \<noteq> (r + k) mod length buf" if "k < n" for k
    using that assms mod_window [of k "length buf" n r] by auto
  then have "map (\<lambda>k. buf[(r + n) mod length buf := c] ! ((r + k) mod length buf)) [0..<n] =
    map (\<lambda>k. buf ! ((r + k) mod length buf)) [0..<n]"
    by (intro map_cong) (simp_all add: nth_list_update_neq)
  moreover have "(r + n) mod length buf < length buf" using assms by (intro mod_less_divisor) linarith
  ultimately show ?thesis by (simp add: window_def)
qed

section \<open>Bounded queues\<close>

locale bounded_queue =
  fixes inv :: "'s \<Rightarrow> bool" and contents :: "'s \<Rightarrow> 'a list" and cap :: nat
    and enq :: "'a \<Rightarrow> 's \<Rightarrow> 's" and deq :: "'s \<Rightarrow> 'a \<times> 's"
    and full :: "'s \<Rightarrow> bool" and empty :: "'s \<Rightarrow> bool"
  assumes within: "inv s \<Longrightarrow> length (contents s) \<le> cap"
    and full_iff: "inv s \<Longrightarrow> full s \<longleftrightarrow> length (contents s) = cap"
    and empty_iff: "inv s \<Longrightarrow> empty s \<longleftrightarrow> contents s = []"
    and enq_ok: "inv s \<Longrightarrow> \<not> full s \<Longrightarrow> inv (enq c s) \<and> contents (enq c s) = contents s @ [c]"
    and deq_ok: "inv s \<Longrightarrow> \<not> empty s \<Longrightarrow>
      inv (snd (deq s)) \<and> contents s = fst (deq s) # contents (snd (deq s))"
begin

text \<open>Insert as much of a list as fits; the rest is returned.\<close>

fun enq_all :: "'a list \<Rightarrow> 's \<Rightarrow> 'a list \<times> 's" where
  "enq_all [] s = ([], s)"
| "enq_all (c # cs) s = (if full s then (c # cs, s) else enq_all cs (enq c s))"

fun deq_all :: "nat \<Rightarrow> 's \<Rightarrow> 'a list \<times> 's" where
  "deq_all 0 s = ([], s)"
| "deq_all (Suc n) s =
     (if empty s then ([], s) else let (c, s) = deq s; (cs, s) = deq_all n s in (c # cs, s))"

lemma enq_all_ok:
  assumes "inv s"
  shows "inv (snd (enq_all cs s)) \<and> contents (snd (enq_all cs s)) @ fst (enq_all cs s) = contents s @ cs \<and>
    (fst (enq_all cs s) \<noteq> [] \<longrightarrow> full (snd (enq_all cs s)))"
  using assms
proof (induction cs arbitrary: s)
  case (Cons c cs)
  then show ?case using enq_ok [of s c] Cons.IH [of "enq c s"] by simp
qed simp

lemma deq_all_ok:
  assumes "inv s"
  shows "inv (snd (deq_all n s)) \<and> fst (deq_all n s) = take n (contents s) \<and>
    contents (snd (deq_all n s)) = drop n (contents s)"
  using assms
proof (induction n arbitrary: s)
  case (Suc n)
  show ?case
  proof (cases "empty s")
    case True
    then show ?thesis using Suc.prems empty_iff by simp
  next
    case False
    obtain c t where d: "deq s = (c, t)" by (cases "deq s")
    have "inv t" "contents s = c # contents t" using deq_ok [OF Suc.prems False] d by simp_all
    then show ?thesis using Suc.IH [of t] False d by (simp add: split_def)
  qed
qed simp

end

end
