(* ===== verification/Console.thy ===== *)
theory Console
  imports Inode Ring
begin

text \<open>
  Console input and screen output (\<^verbatim>\<open>console.c\<close>): the line discipline of \<open>consoleintr\<close>, the device
  operations \<open>consoleread\<close> and \<open>consolewrite\<close>, and the screen memory written by \<open>cgaputc\<close>. The
  characters sent to the screen and the serial line are appended to \<open>cons_out\<close>. The formatted output
  routines are in the theory \<open>Cprintf\<close>.
\<close>

section \<open>Input\<close>

abbreviation (input) "BACKSPACE \<equiv> (0x100 :: u32)"
abbreviation (input) "C_P \<equiv> (0x10 :: u32)"
abbreviation (input) "C_U \<equiv> (0x15 :: u32)"
abbreviation (input) "C_H \<equiv> (0x08 :: u32)"
abbreviation (input) "C_D \<equiv> (0x04 :: u32)"
abbreviation (input) "NEWLINE \<equiv> (0x0A :: u32)"
abbreviation (input) "CONSOLE \<equiv> (1 :: nat)"

definition upd_input :: "(inputst \<Rightarrow> inputst) \<Rightarrow> kernel \<Rightarrow> kernel" where
  "upd_input f s = s\<lparr>input := f (input s)\<rparr>"

definition in_char :: "inputst \<Rightarrow> u32 \<Rightarrow> u8" where
  "in_char i k = in_buf i ! unat (k mod word_of_nat INPUT_BUF)"

definition erase :: "kernel \<Rightarrow> kernel" where
  "erase s = consputc BACKSPACE (upd_input (\<lambda>i. i\<lparr>in_e := in_e i - 1\<rparr>) s)"

text \<open>The kill-line loop runs at most \<open>e - w\<close> times, since \<open>e\<close> goes down to \<open>w\<close>.\<close>

fun kill_line :: "nat \<Rightarrow> kernel \<Rightarrow> kernel" where
  "kill_line 0 s = s"
| "kill_line (Suc k) s =
     (if in_e (input s) \<noteq> in_w (input s) \<and> in_char (input s) (in_e (input s) - 1) \<noteq> ucast NEWLINE
      then kill_line k (erase s) else s)"

definition put_char :: "u32 \<Rightarrow> kernel \<Rightarrow> kernel" where
  "put_char c s =
     (if c \<noteq> 0 \<and> in_e (input s) - in_r (input s) < word_of_nat INPUT_BUF then
        let c = (if c = 0x0D then NEWLINE else c);
            s = upd_input (\<lambda>i. i\<lparr>in_buf := (in_buf i)[unat (in_e i mod word_of_nat INPUT_BUF) := ucast c],
              in_e := in_e i + 1\<rparr>) s;
            s = consputc c s in
        if c = NEWLINE \<or> c = C_D \<or> in_e (input s) = in_r (input s) + word_of_nat INPUT_BUF
        then wakeup ChInput (upd_input (\<lambda>i. i\<lparr>in_w := in_e i\<rparr>) s)
        else s
      else s)"

definition console_char :: "u32 \<Rightarrow> kernel \<Rightarrow> kernel" where
  "console_char c s =
     (if c = C_P then s
      else if c = C_U then kill_line (unat (in_e (input s) - in_w (input s))) s
      else if c = C_H \<or> c = 0x7F then (if in_e (input s) \<noteq> in_w (input s) then erase s else s)
      else put_char c s)"

text \<open>
  The characters \<open>getc\<close> delivers before it returns a negative value; the flag says that
  \<^verbatim>\<open>procdump\<close> is called at the end, which prints the process table.
\<close>

definition consoleintr :: "u32 list \<Rightarrow> kernel \<Rightarrow> bool \<times> kernel" where
  "consoleintr cs s = (C_P \<in> set cs, fold console_char cs s)"

section \<open>Device operations\<close>

datatype cread_out =
    CRead bytes
  | CKilled bytes
  | CSleep nat bytes

text \<open>
  The loop of \<open>consoleread\<close>: \<open>n\<close> characters are still wanted and \<open>acc\<close> are already delivered. It
  ends, finds the process killed, or goes to sleep and is run again from there after a wakeup.
\<close>

fun cread :: "nat \<Rightarrow> nat \<Rightarrow> bytes \<Rightarrow> kernel \<Rightarrow> cread_out \<times> kernel" where
  "cread 0 target acc s = (CRead acc, s)"
| "cread (Suc n) target acc s =
     (if in_r (input s) = in_w (input s) then
        (if (case cur s of None \<Rightarrow> False | Some p \<Rightarrow> killed (procs s p)) then (CKilled acc, s)
         else (CSleep (Suc n) acc, s))
      else
        let c = in_char (input s) (in_r (input s));
            s' = upd_input (\<lambda>i. i\<lparr>in_r := in_r i + 1\<rparr>) s in
        if c = ucast C_D then
          (CRead acc, if Suc n < target then upd_input (\<lambda>i. i\<lparr>in_r := in_r i - 1\<rparr>) s' else s')
        else if c = ucast NEWLINE then (CRead (acc @ [c]), s')
        else cread n target (acc @ [c]) s')"

definition consoleread :: "nat \<Rightarrow> int \<Rightarrow> kernel \<Rightarrow> (int \<times> bytes \<times> kernel) res" where
  "consoleread ip n s =
     kbind (iunlock ip s) (\<lambda>s.
       case cread (nat n) (nat n) [] s of
         (CRead bs, s) \<Rightarrow> kbind (ilock ip s) (\<lambda>s. Ok (int (length bs), bs, s))
       | (CKilled bs, s) \<Rightarrow> kbind (ilock ip s) (\<lambda>s. Ok (-1, bs, s))
       | (CSleep k bs, s) \<Rightarrow> Block ChInput)"

definition consolewrite :: "nat \<Rightarrow> bytes \<Rightarrow> kernel \<Rightarrow> (int \<times> kernel) res" where
  "consolewrite ip bs s =
     kbind (iunlock ip s) (\<lambda>s.
     kbind (ilock ip (fold (\<lambda>c. consputc (ucast c)) bs s)) (\<lambda>s. Ok (int (length bs), s)))"

definition consoleinit :: "kernel \<Rightarrow> kernel" where
  "consoleinit s = s\<lparr>devsw := (devsw s)(CONSOLE := Some DevConsole)\<rparr>"

section \<open>The screen\<close>

text \<open>The text screen: its cells and the cursor position held by the CRT controller.\<close>

record cga =
  crt :: "u16 list"
  cursor :: nat

definition cga_put :: "u32 \<Rightarrow> cga \<Rightarrow> cga" where
  "cga_put c g =
     (if c = NEWLINE then g\<lparr>cursor := cursor g + (80 - cursor g mod 80)\<rparr>
      else if c = BACKSPACE then (if cursor g > 0 then g\<lparr>cursor := cursor g - 1\<rparr> else g)
      else g\<lparr>crt := (crt g)[cursor g := ucast (c AND 0xFF) OR 0x0700], cursor := cursor g + 1\<rparr>)"

definition cga_scroll :: "cga \<Rightarrow> cga" where
  "cga_scroll g =
     (if cursor g div 80 \<ge> 24 then
        let d = patch (crt g) 0 (slice 80 (23 * 80) (crt g)); p = cursor g - 80 in
        g\<lparr>crt := patch d p (replicate (24 * 80 - p) 0), cursor := p\<rparr>
      else g)"

definition cgaputc :: "u32 \<Rightarrow> cga \<Rightarrow> cga res" where
  "cgaputc c g =
     (let g = cga_put c g in
      if cursor g > 25 * 80 then Panic ''pos under/overflow''
      else let g = cga_scroll g in Ok (g\<lparr>crt := (crt g)[cursor g := 0x20 OR 0x0700]\<rparr>))"

section \<open>The input buffer as a queue of lines\<close>

definition in_idx :: "inputst \<Rightarrow> nat \<Rightarrow> nat" where
  "in_idx i k = (unat (in_r i) + k) mod INPUT_BUF"

definition typed_len :: "inputst \<Rightarrow> nat" where
  "typed_len i = unat (in_e i - in_r i)"

definition ready_len :: "inputst \<Rightarrow> nat" where
  "ready_len i = unat (in_w i - in_r i)"

definition typed :: "inputst \<Rightarrow> bytes" where
  "typed i = map (\<lambda>k. in_buf i ! in_idx i k) [0..<typed_len i]"

text \<open>The committed characters, which readers get, and the line being edited.\<close>

definition in_abs :: "inputst \<Rightarrow> bytes \<times> bytes" where
  "in_abs i = (take (ready_len i) (typed i), drop (ready_len i) (typed i))"

definition in_inv :: "inputst \<Rightarrow> bool" where
  "in_inv i \<longleftrightarrow> length (in_buf i) = INPUT_BUF \<and> ready_len i \<le> typed_len i \<and> typed_len i \<le> INPUT_BUF \<and>
     ucast NEWLINE \<notin> set (snd (in_abs i))"

definition spec_char :: "u32 \<Rightarrow> bytes \<times> bytes \<Rightarrow> bytes \<times> bytes" where
  "spec_char c = (\<lambda>(q, p).
     if c = C_P then (q, p)
     else if c = C_U then (q, [])
     else if c = C_H \<or> c = 0x7F then (q, butlast p)
     else if c \<noteq> 0 \<and> length q + length p < INPUT_BUF then
       let c = (if c = 0x0D then NEWLINE else c); p = p @ [ucast c] in
       if c = NEWLINE \<or> c = C_D \<or> length q + length p = INPUT_BUF then (q @ p, []) else (q, p)
     else (q, p))"

lemma mod128_unat: "unat ((x :: u32) mod 128) = unat x mod 128"
  by (simp add: unat_mod)

lemma unat_add_mod128: "unat ((x :: u32) + y) mod 128 = (unat x + unat y) mod 128"
  by (simp add: unat_word_ariths mod_mod_cancel)

lemma in_char_at: "in_char i (in_r i + word_of_nat k) = in_buf i ! in_idx i k"
proof -
  have "unat (word_of_nat k :: u32) mod 128 = k mod 128"
    by (simp add: unat_of_nat mod_mod_cancel)
  then show ?thesis
    by (simp add: in_char_def in_idx_def mod128_unat unat_add_mod128 mod_add_right_eq [symmetric, of _ "unat _"])
      (metis mod_add_right_eq)
qed

lemma in_idx_inj: "k < 128 \<Longrightarrow> j < 128 \<Longrightarrow> in_idx i k = in_idx i j \<longleftrightarrow> k = j"
  using mod_window [of k 128 j "unat (in_r i)"] by (auto simp: in_idx_def)

lemma in_idx_less [simp]: "in_idx i k < 128"
  by (simp add: in_idx_def)

lemma typed_len_e: "in_inv i \<Longrightarrow> in_e i = in_r i + word_of_nat (typed_len i)"
  by (simp add: typed_len_def)

lemma ready_len_w: "in_w i = in_r i + word_of_nat (ready_len i)"
  by (simp add: ready_len_def)

lemma length_typed [simp]: "length (typed i) = typed_len i"
  by (simp add: typed_def)

lemma in_abs_lengths:
  "in_inv i \<Longrightarrow> length (fst (in_abs i)) = ready_len i \<and> length (snd (in_abs i)) = typed_len i - ready_len i"
  by (simp add: in_abs_def in_inv_def)

lemma edit_empty: "in_inv i \<Longrightarrow> in_e i = in_w i \<longleftrightarrow> snd (in_abs i) = []"
proof -
  assume "in_inv i"
  have "in_e i = in_w i \<longleftrightarrow> in_e i - in_r i = in_w i - in_r i" by simp
  also have "\<dots> \<longleftrightarrow> typed_len i = ready_len i" by (simp add: word_unat_eq_iff typed_len_def ready_len_def)
  also have "\<dots> \<longleftrightarrow> snd (in_abs i) = []" using \<open>in_inv i\<close> by (auto simp: in_abs_def in_inv_def)
  finally show ?thesis .
qed

lemma last_typed:
  assumes "in_inv i" "in_e i \<noteq> in_w i"
  shows "in_char i (in_e i - 1) = last (snd (in_abs i))" "typed_len i > ready_len i"
proof -
  have ne: "snd (in_abs i) \<noteq> []" using edit_empty [OF assms(1)] assms(2) by simp
  then show gt: "typed_len i > ready_len i" by (simp add: in_abs_def)
  then have "in_e i - 1 = in_r i + word_of_nat (typed_len i - 1)"
    using typed_len_e [OF assms(1)] by (simp add: of_nat_diff)
  then have "in_char i (in_e i - 1) = in_buf i ! in_idx i (typed_len i - 1)"
    by (simp only: in_char_at)
  also have "\<dots> = last (typed i)" using gt by (simp add: typed_def last_map)
  finally show "in_char i (in_e i - 1) = last (snd (in_abs i))"
    using gt by (simp add: in_abs_def last_drop)
qed

lemma unat_sub_one: "(x :: u32) \<noteq> 0 \<Longrightarrow> unat (x - 1) = unat x - 1"
  by (metis unat_minus_one)

lemma unat_add_one: "unat (x :: u32) < 128 \<Longrightarrow> unat (x + 1) = unat x + 1"
  by (simp add: unat_word_ariths)

lemma butlast_upt0: "butlast [0..<n] = [0..<n - 1]"
  by (cases n) simp_all

lemma erase_abs:
  assumes inv: "in_inv i" and ne: "in_e i \<noteq> in_w i"
  defines "i' \<equiv> i\<lparr>in_e := in_e i - 1\<rparr>"
  shows "in_inv i'" "in_abs i' = (fst (in_abs i), butlast (snd (in_abs i)))"
proof -
  note gt = last_typed(2) [OF inv ne]
  have "in_e i - in_r i \<noteq> 0" using gt by (auto simp: typed_len_def)
  then have "unat ((in_e i - in_r i) - 1) = typed_len i - 1" by (simp add: unat_sub_one typed_len_def)
  then have tl: "typed_len i' = typed_len i - 1" by (simp add: typed_len_def i'_def algebra_simps)
  have rl: "ready_len i' = ready_len i" by (simp add: ready_len_def i'_def)
  have "typed i' = butlast (typed i)"
    unfolding typed_def tl map_butlast [symmetric] butlast_upt0 by (simp add: i'_def in_idx_def)
  then show a: "in_abs i' = (fst (in_abs i), butlast (snd (in_abs i)))"
    using gt by (simp add: in_abs_def rl take_butlast butlast_drop)
  show "in_inv i'" using inv gt
    by (auto simp: in_inv_def tl rl a dest: in_set_butlastD) (simp add: i'_def)
qed

lemma put_typed:
  fixes c :: u8
  assumes inv: "in_inv i" and room: "typed_len i < INPUT_BUF"
  defines "i' \<equiv> i\<lparr>in_buf := (in_buf i)[unat (in_e i mod 128) := c], in_e := in_e i + 1\<rparr>"
  shows "typed i' = typed i @ [c]" "ready_len i' = ready_len i" "typed_len i' = typed_len i + 1"
proof -
  have "unat ((in_e i - in_r i) + 1) = typed_len i + 1"
    using room by (simp add: unat_add_one typed_len_def)
  then show tl: "typed_len i' = typed_len i + 1" by (simp add: typed_len_def i'_def algebra_simps)
  show "ready_len i' = ready_len i" by (simp add: ready_len_def i'_def)
  have ix: "in_idx i' = in_idx i" by (simp add: in_idx_def i'_def fun_eq_iff)
  have "unat (in_e i mod 128) = in_idx i (typed_len i)"
    using typed_len_e [OF inv] unat_add_mod128 [of "in_r i" "word_of_nat (typed_len i)"]
    by (simp add: mod128_unat in_idx_def typed_len_def)
  then have b: "in_buf i' = (in_buf i)[in_idx i (typed_len i) := c]" by (simp add: i'_def)
  show "typed i' = typed i @ [c]"
    using tl room inv in_idx_inj
    by (auto simp: typed_def ix b nth_list_update in_inv_def)
qed

lemma commit_abs:
  assumes "in_inv i"
  shows "in_inv (i\<lparr>in_w := in_e i\<rparr>)" "in_abs (i\<lparr>in_w := in_e i\<rparr>) = (typed i, [])"
proof -
  let ?i = "i\<lparr>in_w := in_e i\<rparr>"
  have l: "ready_len ?i = typed_len i" "typed_len ?i = typed_len i" "typed ?i = typed i"
    by (simp_all add: ready_len_def typed_len_def typed_def in_idx_def)
  then show a: "in_abs ?i = (typed i, [])" by (simp add: in_abs_def)
  show "in_inv ?i" using assms by (simp add: in_inv_def l a)
qed

lemma consputc_input [simp]: "input (consputc c s) = input s"
  by (simp add: consputc_def)

lemma upd_input_input [simp]: "input (upd_input f s) = f (input s)"
  by (simp add: upd_input_def)

lemma wakeup_input [simp]: "input (wakeup c s) = input s"
  by (simp add: wakeup_def)

lemma edit_len:
  assumes "in_inv i"
  shows "unat (in_e i - in_w i) = typed_len i - ready_len i"
proof -
  have le: "in_w i - in_r i \<le> in_e i - in_r i"
    using assms by (simp add: in_inv_def word_le_nat_alt typed_len_def ready_len_def)
  show ?thesis using unat_sub [OF le] by (simp add: typed_len_def ready_len_def)
qed

lemma kill_line_abs:
  "in_inv (input s) \<Longrightarrow> typed_len (input s) - ready_len (input s) \<le> k \<Longrightarrow>
    in_inv (input (kill_line k s)) \<and> in_abs (input (kill_line k s)) = (fst (in_abs (input s)), [])"
proof (induction k arbitrary: s)
  case 0
  then show ?case by (simp add: in_abs_def)
next
  case (Suc k)
  let ?i = "input s"
  show ?case
  proof (cases "in_e ?i = in_w ?i")
    case True
    then show ?thesis using Suc.prems edit_empty [of ?i] by (auto simp: prod_eq_iff)
  next
    case False
    then have ne: "snd (in_abs ?i) \<noteq> []" using edit_empty [OF Suc.prems(1)] by simp
    have "in_char ?i (in_e ?i - 1) \<noteq> ucast NEWLINE"
      using last_typed(1) [OF Suc.prems(1) False] Suc.prems(1) last_in_set [OF ne]
      unfolding in_inv_def by metis
    moreover note e = erase_abs [OF Suc.prems(1) False]
    have i': "input (erase s) = ?i\<lparr>in_e := in_e ?i - 1\<rparr>" by (simp add: erase_def)
    have "length (snd (in_abs (input (erase s)))) \<le> k"
      using e(2) Suc.prems in_abs_lengths [OF Suc.prems(1)] by (simp add: i')
    then have "typed_len (input (erase s)) - ready_len (input (erase s)) \<le> k"
      using in_abs_lengths [of "input (erase s)"] e(1) by (simp add: i')
    then have "in_inv (input (kill_line k (erase s))) \<and>
      in_abs (input (kill_line k (erase s))) = (fst (in_abs (input (erase s))), [])"
      using Suc.IH [of "erase s"] e(1) by (simp add: i')
    ultimately show ?thesis using False e(2) by (simp add: i')
  qed
qed

lemma ucast_newline: "(c :: u32) < 0x100 \<Longrightarrow> (ucast c :: u8) = 0x0A \<longleftrightarrow> c = 0x0A"
proof -
  assume "c < 0x100"
  then have "unat c < 256" by (simp add: word_less_nat_alt)
  then have "unat (ucast c :: u8) = unat c" by (simp add: unsigned_ucast_eq take_bit_eq_mod)
  then show ?thesis by (simp add: word_unat_eq_iff)
qed

lemma put_char_abs:
  assumes inv: "in_inv (input s)" and c: "c < 0x100" and qp: "in_abs (input s) = (q, p)"
  defines "d \<equiv> if c = 0x0D then NEWLINE else c"
  shows "in_inv (input (put_char c s)) \<and> in_abs (input (put_char c s)) =
    (if c \<noteq> 0 \<and> length q + length p < INPUT_BUF then
       if d = NEWLINE \<or> d = C_D \<or> length q + length p + 1 = INPUT_BUF then (q @ p @ [ucast d], [])
       else (q, p @ [ucast d])
     else (q, p))"
proof -
  let ?i = "input s"
  let ?j = "?i\<lparr>in_buf := (in_buf ?i)[unat (in_e ?i mod 128) := ucast d], in_e := in_e ?i + 1\<rparr>"
  have tq: "typed ?i = q @ p" using qp by (auto simp: in_abs_def)
  then have len: "length q + length p = typed_len ?i" by (metis length_append length_typed)
  have lt: "in_e ?i - in_r ?i < 128 \<longleftrightarrow> typed_len ?i < 128"
    by (simp add: word_less_nat_alt typed_len_def)
  show ?thesis
  proof (cases "c \<noteq> 0 \<and> typed_len ?i < 128")
    case False
    then show ?thesis using inv len lt qp by (auto simp: put_char_def)
  next
    case True
    have j: "typed ?j = typed ?i @ [ucast d]" "ready_len ?j = ready_len ?i" "typed_len ?j = typed_len ?i + 1"
      using put_typed [OF inv, of "ucast d"] True by auto
    have "in_e ?j = in_r ?j + 128 \<longleftrightarrow> in_e ?j - in_r ?j = 128" by (auto simp: algebra_simps)
    then have full: "in_e ?j = in_r ?j + 128 \<longleftrightarrow> typed_len ?j = 128"
      by (simp add: typed_len_def word_unat_eq_iff)
    have r: "ready_len ?i \<le> typed_len ?i" "length (in_buf ?i) = 128" using inv by (auto simp: in_inv_def)
    have ja: "in_abs ?j = (q, p @ [ucast d])" using j r qp by (simp add: in_abs_def)
    show ?thesis
    proof (cases "d = NEWLINE \<or> d = C_D \<or> typed_len ?j = 128")
      case t: True
      let ?k = "?j\<lparr>in_w := in_e ?j\<rparr>"
      have "typed ?k = typed ?j" "ready_len ?k = typed_len ?j" "typed_len ?k = typed_len ?j"
        by (simp_all add: typed_def typed_len_def ready_len_def in_idx_def)
      then have "in_abs ?k = (typed ?j, [])" "in_inv ?k"
        using True r j by (simp_all add: in_abs_def in_inv_def)
      moreover have "input (put_char c s) = ?k"
        using True t lt full unfolding put_char_def Let_def d_def by auto
      ultimately show ?thesis using True t len j tq by auto
    next
      case f: False
      have "d < 0x100" using c by (simp add: d_def)
      then have "ucast d \<noteq> (ucast NEWLINE :: u8)" using f ucast_newline by simp
      then have "in_inv ?j" using inv True j r ja qp by (auto simp: in_inv_def)
      moreover have "input (put_char c s) = ?j"
        using True f lt full unfolding put_char_def Let_def d_def by auto
      ultimately show ?thesis using True f len j ja by auto
    qed
  qed
qed

lemma pop_abs:
  assumes inv: "in_inv i" and qp: "in_abs i = (q, p)" and ne: "in_r i \<noteq> in_w i"
  defines "i' \<equiv> i\<lparr>in_r := in_r i + 1\<rparr>"
  shows "\<exists>q'. q = in_char i (in_r i) # q' \<and> in_abs i' = (q', p) \<and> in_inv i'"
proof -
  have "in_w i - in_r i \<noteq> 0" using ne by simp
  then have r0: "ready_len i > 0" by (simp add: ready_len_def unat_gt_0)
  then have t0: "typed_len i > 0" using inv by (simp add: in_inv_def)
  have nz: "in_e i - in_r i \<noteq> 0" "in_w i - in_r i \<noteq> 0"
    using r0 t0 by (auto simp: typed_len_def ready_len_def)
  have "unat (in_e i - in_r i - 1) = typed_len i - 1" "unat (in_w i - in_r i - 1) = ready_len i - 1"
    using nz by (simp_all add: unat_sub_one typed_len_def ready_len_def)
  then have l: "typed_len i' = typed_len i - 1" "ready_len i' = ready_len i - 1"
    by (simp_all add: typed_len_def ready_len_def i'_def algebra_simps)
  have ix: "in_idx i' k = in_idx i (Suc k)" for k
    using unat_add_mod128 [of "in_r i" 1] mod_add_left_eq [of "unat (in_r i + 1)" 128 k]
      mod_add_left_eq [of "unat (in_r i) + 1" 128 k]
    by (simp add: in_idx_def i'_def)
  have bi: "in_buf i' = in_buf i" by (simp add: i'_def)
  have "[0..<typed_len i] = 0 # map Suc [0..<typed_len i - 1]"
    using t0 by (simp add: map_Suc_upt upt_conv_Cons)
  then have ty: "typed i = in_buf i ! in_idx i 0 # typed i'"
    using bi by (simp add: typed_def l ix comp_def)
  have c0: "in_char i (in_r i) = in_buf i ! in_idx i 0" using in_char_at [of i 0] by simp
  have abs: "in_abs i' = (take (ready_len i - 1) (typed i'), p)" "q = in_char i (in_r i) # take (ready_len i - 1) (typed i')"
    using qp ty r0 c0 by (auto simp: in_abs_def l take_Cons' drop_Cons')
  have "in_inv i'" using inv qp abs(1) l by (auto simp: in_inv_def i'_def)
  then show ?thesis using abs by auto
qed

text \<open>What a reader that wants \<open>n\<close> more characters takes from the committed queue.\<close>

fun spec_read :: "bool \<Rightarrow> nat \<Rightarrow> nat \<Rightarrow> bytes \<Rightarrow> bytes \<Rightarrow> cread_out \<times> bytes" where
  "spec_read kill 0 t acc q = (CRead acc, q)"
| "spec_read kill (Suc n) t acc [] = (if kill then CKilled acc else CSleep (Suc n) acc, [])"
| "spec_read kill (Suc n) t acc (c # q) =
     (if c = ucast C_D then (CRead acc, if Suc n < t then c # q else q)
      else if c = ucast NEWLINE then (CRead (acc @ [c]), q)
      else spec_read kill n t (acc @ [c]) q)"

definition cur_killed :: "kernel \<Rightarrow> bool" where
  "cur_killed s = (case cur s of None \<Rightarrow> False | Some p \<Rightarrow> killed (procs s p))"

lemma upd_input_frame [simp]:
  "cur (upd_input f s) = cur s" "procs (upd_input f s) = procs s"
  "cur_killed (upd_input f s) = cur_killed s"
  by (simp_all add: upd_input_def cur_killed_def cong: option.case_cong)

lemma unread: "upd_input (\<lambda>i. i\<lparr>in_r := in_r i - 1\<rparr>) (upd_input (\<lambda>i. i\<lparr>in_r := in_r i + 1\<rparr>) s) = s"
  by (simp add: upd_input_def)

text \<open>C34: A console read takes characters off the front of the committed queue, in order, through the first newline or up to ^D or the wanted count; ^D is left for the next read exactly when something was read before it; it sleeps only on an empty queue and never touches the line being edited.\<close>

theorem console_read_queue:
  assumes "in_inv (input s)" "in_abs (input s) = (q, p)"
  shows "fst (cread n t acc s) = fst (spec_read (cur_killed s) n t acc q) \<and>
    in_abs (input (snd (cread n t acc s))) = (snd (spec_read (cur_killed s) n t acc q), p) \<and>
    in_inv (input (snd (cread n t acc s)))"
  using assms
proof (induction n arbitrary: acc s q)
  case 0
  then show ?case by simp
next
  case (Suc n)
  let ?s' = "upd_input (\<lambda>i. i\<lparr>in_r := in_r i + 1\<rparr>) s"
  show ?case
  proof (cases "in_r (input s) = in_w (input s)")
    case True
    then have "q = []" using Suc.prems(2) by (simp add: in_abs_def ready_len_def)
    then show ?thesis using True Suc.prems by (simp add: cur_killed_def)
  next
    case False
    obtain q' where q': "q = in_char (input s) (in_r (input s)) # q'" "in_abs (input ?s') = (q', p)"
      "in_inv (input ?s')"
      using pop_abs [OF Suc.prems False] by auto
    show ?thesis
      using Suc.IH [OF q'(3,2)] False q' Suc.prems by (simp add: Let_def unread)
  qed
qed

text \<open>C33: The console implements a queue of committed characters and a line being edited: every key (printable, newline, ^D, backspace, ^U, a full buffer) changes the circular buffer exactly as it changes the queue and the line, and the three indices stay consistent.\<close>

theorem console_line_discipline:
  assumes "in_inv (input s)" "c < 0x100"
  shows "in_inv (input (console_char c s)) \<and>
    in_abs (input (console_char c s)) = spec_char c (in_abs (input s))"
proof -
  obtain q p where qp: "in_abs (input s) = (q, p)" by (cases "in_abs (input s)")
  consider "c = C_P" | "c = C_U" | "c = C_H \<or> c = 0x7F" | "c \<noteq> C_P" "c \<noteq> C_U" "c \<noteq> C_H" "c \<noteq> 0x7F"
    by blast
  then show ?thesis
  proof cases
    case 2
    then show ?thesis using kill_line_abs [OF assms(1)] qp edit_len [OF assms(1)]
      by (simp add: console_char_def spec_char_def)
  next
    case 3
    have "input (erase s) = (input s)\<lparr>in_e := in_e (input s) - 1\<rparr>" by (simp add: erase_def)
    then show ?thesis
      using 3 assms(1) qp erase_abs [OF assms(1)] edit_empty [OF assms(1)]
      by (auto simp: console_char_def spec_char_def)
  next
    case 4
    then show ?thesis using put_char_abs [OF assms qp] qp by (simp add: console_char_def spec_char_def Let_def)
  qed (use assms qp in \<open>simp add: console_char_def spec_char_def\<close>)
qed

definition demo_input :: inputst where
  "demo_input = \<lparr>in_buf = replicate 128 0, in_r = 0, in_w = 0, in_e = 0\<rparr>"

lemma demo_input_inv: "in_inv demo_input" "in_abs demo_input = ([], [])"
  by (simp_all add: in_inv_def demo_input_def in_abs_def typed_def typed_len_def ready_len_def)

theorem console_line_discipline_witness:
  "in_inv (input (console_char 0x61 (demo_kernel\<lparr>input := demo_input\<rparr>))) \<and>
   in_abs (input (console_char 0x61 (demo_kernel\<lparr>input := demo_input\<rparr>))) = ([], [0x61])"
  using console_line_discipline [of "demo_kernel\<lparr>input := demo_input\<rparr>" "0x61"] demo_input_inv
  by (simp add: spec_char_def)

theorem console_read_queue_witness:
  "fst (cread 5 5 [] (demo_kernel\<lparr>input := demo_input\<rparr>)) = CSleep 5 []"
  using console_read_queue [of "demo_kernel\<lparr>input := demo_input\<rparr>" "[]" "[]" 5 5 "[]"] demo_input_inv
  by (simp add: cur_killed_def eval_nat_numeral)



end
