(* ===== verification/Fs.thy ===== *)
theory Fs
  imports Console
begin

text \<open>
  The upper half of \<^verbatim>\<open>fs.c\<close>: reading and writing the content of an inode, directories and path
  names. A transfer to or from memory is a list of bytes that the callers (system calls, \<^verbatim>\<open>exec\<close>)
  load or store. A path is the list of its characters, without the terminating NUL; the array
  \<^verbatim>\<open>name[DIRSIZ]\<close> is a list of \<^verbatim>\<open>DIRSIZ\<close> bytes.
\<close>

section \<open>File contents\<close>

definition dev_ok :: "inode \<Rightarrow> kernel \<Rightarrow> bool" where
  "dev_ok r s \<longleftrightarrow> 0 \<le> sint (i_major r) \<and> sint (i_major r) < int NDEV \<and>
     devsw s (nat (sint (i_major r))) \<noteq> None"

text \<open>
  The loops of \<open>readi\<close> and \<open>writei\<close> move at least one byte per round; \<open>n\<close> is what is left.
\<close>

function readi_loop :: "nat \<Rightarrow> u32 \<Rightarrow> nat \<Rightarrow> kernel \<Rightarrow> (bytes \<times> kernel) res" where
  "readi_loop ip off n s =
     (if n = 0 then Ok ([], s)
      else
        let o' = unat off mod BSIZE; m = min n (BSIZE - o') in
        kbind (bmap ip (unat off div BSIZE) s) (\<lambda>(addr, s).
        kbind (bread (i_dev (inodes s ip)) addr s) (\<lambda>(bp, s).
        let bs = slice o' m (b_data (bufs s bp)) in
        kbind (brelse bp s) (\<lambda>s.
        kbind (readi_loop ip (off + word_of_nat m) (n - m) s) (\<lambda>(cs, s). Ok (bs @ cs, s))))))"
  by pat_completeness auto

termination
  by (relation "measure (\<lambda>(ip, off, n, s). n)") (auto simp: Let_def)

definition readi :: "nat \<Rightarrow> u32 \<Rightarrow> u32 \<Rightarrow> kernel \<Rightarrow> (int \<times> bytes \<times> kernel) res" where
  "readi ip off n s =
     (let r = inodes s ip in
      if i_type r = T_DEV then
        if \<not> dev_ok r s then Ok (-1, [], s) else consoleread ip (sint n) s
      else if off > i_size r \<or> off + n < off then Ok (-1, [], s)
      else
        let n = (if off + n > i_size r then i_size r - off else n) in
        kbind (readi_loop ip off (unat n) s) (\<lambda>(bs, s). Ok (sint n, bs, s)))"

function writei_loop :: "nat \<Rightarrow> u32 \<Rightarrow> bytes \<Rightarrow> kernel \<Rightarrow> (u32 \<times> kernel) res" where
  "writei_loop ip off src s =
     (if src = [] then Ok (off, s)
      else
        let o' = unat off mod BSIZE; m = min (length src) (BSIZE - o') in
        kbind (bmap ip (unat off div BSIZE) s) (\<lambda>(addr, s).
        kbind (bread (i_dev (inodes s ip)) addr s) (\<lambda>(bp, s).
        kbind (log_write bp (set_data bp (patch (b_data (bufs s bp)) o' (take m src)) s)) (\<lambda>s.
        kbind (brelse bp s) (\<lambda>s.
        writei_loop ip (off + word_of_nat m) (drop m src) s)))))"
  by pat_completeness auto

termination
  by (relation "measure (\<lambda>(ip, off, src, s). length src)") (auto simp: Let_def)

definition writei :: "nat \<Rightarrow> bytes \<Rightarrow> u32 \<Rightarrow> kernel \<Rightarrow> (int \<times> kernel) res" where
  "writei ip src off s =
     (let r = inodes s ip; n = word_of_nat (length src) :: u32 in
      if i_type r = T_DEV then
        if \<not> dev_ok r s then Ok (-1, s) else consolewrite ip src s
      else if off > i_size r \<or> off + n < off then Ok (-1, s)
      else if off + n > word_of_nat (MAXFILE * BSIZE) then Ok (-1, s)
      else
        kbind (writei_loop ip off src s) (\<lambda>(off, s).
        kbind
          (if n > 0 \<and> off > i_size (inodes s ip)
           then iupdate ip (upd_inode ip (\<lambda>r. r\<lparr>i_size := off\<rparr>) s) else Ok s)
          (\<lambda>s. Ok (sint n, s))))"

declare readi_loop.simps [simp del] writei_loop.simps [simp del]

section \<open>Directories\<close>

definition namecmp :: "bytes \<Rightarrow> bytes \<Rightarrow> int" where
  "namecmp x y = strncmp DIRSIZ (cstr_of x) (cstr_of y)"

text \<open>The offsets \<^verbatim>\<open>0, sizeof(de), ...\<close> below the size of the directory.\<close>

definition dir_offsets :: "u32 \<Rightarrow> u32 list" where
  "dir_offsets n = map (\<lambda>k. word_of_nat (k * dirent_size)) [0..<(unat n + (dirent_size - 1)) div dirent_size]"

definition read_dirent :: "nat \<Rightarrow> u32 \<Rightarrow> kernel \<Rightarrow> (dirent \<times> kernel) res" where
  "read_dirent dp off s =
     kbind (readi dp off (word_of_nat dirent_size) s) (\<lambda>(r, bs, s).
       if r \<noteq> int dirent_size then Panic ''dirlink read'' else Ok (dec_dirent bs, s))"

fun dirlookup_from :: "nat \<Rightarrow> bytes \<Rightarrow> u32 list \<Rightarrow> kernel \<Rightarrow> ((nat \<times> u32) option \<times> kernel) res" where
  "dirlookup_from dp name [] s = Ok (None, s)"
| "dirlookup_from dp name (off # offs) s =
     kbind (read_dirent dp off s) (\<lambda>(de, s).
       if de_inum de = 0 then dirlookup_from dp name offs s
       else if namecmp name (de_name de) = 0 then
         kbind (iget (i_dev (inodes s dp)) (ucast (de_inum de)) s) (\<lambda>(ip, s). Ok (Some (ip, off), s))
       else dirlookup_from dp name offs s)"

definition dirlookup :: "nat \<Rightarrow> bytes \<Rightarrow> kernel \<Rightarrow> ((nat \<times> u32) option \<times> kernel) res" where
  "dirlookup dp name s =
     (if i_type (inodes s dp) \<noteq> T_DIR then Panic ''dirlookup not DIR''
      else dirlookup_from dp name (dir_offsets (i_size (inodes s dp))) s)"

fun dir_free_from :: "nat \<Rightarrow> u32 list \<Rightarrow> u32 \<Rightarrow> kernel \<Rightarrow> (u32 \<times> kernel) res" where
  "dir_free_from dp [] e s = Ok (e, s)"
| "dir_free_from dp (off # offs) e s =
     kbind (read_dirent dp off s) (\<lambda>(de, s).
       if de_inum de = 0 then Ok (off, s) else dir_free_from dp offs e s)"

definition dirlink :: "nat \<Rightarrow> bytes \<Rightarrow> u32 \<Rightarrow> kernel \<Rightarrow> (int \<times> kernel) res" where
  "dirlink dp name inum s =
     kbind (dirlookup dp name s) (\<lambda>(found, s).
       case found of
         Some (ip, _) \<Rightarrow> kbind (iput ip s) (\<lambda>s. Ok (-1, s))
       | None \<Rightarrow>
           let offs = dir_offsets (i_size (inodes s dp)) in
           kbind (dir_free_from dp offs (word_of_nat (length offs * dirent_size)) s) (\<lambda>(off, s).
           let de = \<lparr>de_inum = ucast inum, de_name = strncpy (replicate DIRSIZ 0) (cstr_of name) (int DIRSIZ)\<rparr> in
           kbind (writei dp (enc_dirent de) off s) (\<lambda>(r, s).
             if r \<noteq> int dirent_size then Panic ''dirlink'' else Ok (0, s))))"

section \<open>Paths\<close>

abbreviation (input) "SLASH \<equiv> (0x2F :: u8)"

definition skipelem :: "bytes \<Rightarrow> bytes \<Rightarrow> (bytes \<times> bytes) option" where
  "skipelem path name =
     (let p = dropWhile (\<lambda>c. c = SLASH) path in
      if p = [] then None
      else
        let e = takeWhile (\<lambda>c. c \<noteq> SLASH) p; p = dropWhile (\<lambda>c. c \<noteq> SLASH) p;
            name = (if length e \<ge> DIRSIZ then take DIRSIZ e else patch name 0 (e @ [0])) in
        Some (dropWhile (\<lambda>c. c = SLASH) p, name))"

lemma skipelem_shorter:
  assumes "skipelem path name = Some (p, name')"
  shows "length p < length path"
proof -
  let ?p = "dropWhile (\<lambda>c. c = SLASH) path"
  have ne: "?p \<noteq> []" and p: "p = dropWhile (\<lambda>c. c = SLASH) (dropWhile (\<lambda>c. c \<noteq> SLASH) ?p)"
    using assms by (auto simp: skipelem_def Let_def split: if_splits)
  have "hd ?p \<noteq> SLASH" using hd_dropWhile [OF ne] .
  then have "length (dropWhile (\<lambda>c. c \<noteq> SLASH) ?p) < length ?p"
    using ne length_dropWhile_le by (cases ?p) (auto simp: less_Suc_eq_le)
  then show ?thesis
    using length_dropWhile_le [of "\<lambda>c. c = SLASH" "dropWhile (\<lambda>c. c \<noteq> SLASH) ?p"]
      length_dropWhile_le [of "\<lambda>c. c = SLASH" path] unfolding p by linarith
qed

function namex_loop :: "bytes \<Rightarrow> bool \<Rightarrow> bytes \<Rightarrow> nat \<Rightarrow> kernel \<Rightarrow> (nat option \<times> bytes \<times> kernel) res" where
  "namex_loop path nameiparent name ip s =
     (case skipelem path name of
        None \<Rightarrow>
          if nameiparent then kbind (iput ip s) (\<lambda>s. Ok (None, name, s)) else Ok (Some ip, name, s)
      | Some (path, name) \<Rightarrow>
          kbind (ilock ip s) (\<lambda>s.
          if i_type (inodes s ip) \<noteq> T_DIR then kbind (iunlockput ip s) (\<lambda>s. Ok (None, name, s))
          else if nameiparent \<and> path = [] then kbind (iunlock ip s) (\<lambda>s. Ok (Some ip, name, s))
          else
            kbind (dirlookup ip name s) (\<lambda>(found, s).
              case found of
                None \<Rightarrow> kbind (iunlockput ip s) (\<lambda>s. Ok (None, name, s))
              | Some (next, _) \<Rightarrow>
                  kbind (iunlockput ip s) (\<lambda>s. namex_loop path nameiparent name next s))))"
  by pat_completeness auto

termination
  by (relation "measure (\<lambda>(path, _). length path)") (auto dest: skipelem_shorter)

declare namex_loop.simps [simp del]

definition namex :: "bytes \<Rightarrow> bool \<Rightarrow> bytes \<Rightarrow> kernel \<Rightarrow> (nat option \<times> bytes \<times> kernel) res" where
  "namex path nameiparent name s =
     (if path \<noteq> [] \<and> hd path = SLASH then
        kbind (iget ROOTDEV ROOTINO s) (\<lambda>(ip, s). namex_loop path nameiparent name ip s)
      else
        with_proc s (\<lambda>p. case cwd (procs s p) of
          None \<Rightarrow> Fault ''idup: null inode''
        | Some c \<Rightarrow> let (ip, s) = idup c s in namex_loop path nameiparent name ip s))"

definition namei :: "bytes \<Rightarrow> kernel \<Rightarrow> (nat option \<times> kernel) res" where
  "namei path s =
     kbind (namex path False (replicate DIRSIZ 0) s) (\<lambda>(ip, name, s). Ok (ip, s))"

definition nameiparent :: "bytes \<Rightarrow> bytes \<Rightarrow> kernel \<Rightarrow> (nat option \<times> bytes \<times> kernel) res" where
  "nameiparent path name s = namex path True name s"

end
