(* ===== verification/Pipe.thy ===== *)
theory Pipe
  imports Ring Kalloc
begin

text \<open>
  Pipes (\<^verbatim>\<open>pipe.c\<close>): a circular buffer with free-running 32-bit counters on a page of its own; a
  pipe is named by the address of that page. A reader or writer that must sleep stops its loop and is
  run again from there, so the loops return what is left to do. The lemmas show that the bytes come
  out in the order they went in, also when the counters wrap around.
\<close>

section \<open>Operations\<close>

definition upd_pipe :: "u32 \<Rightarrow> (pipest \<Rightarrow> pipest) \<Rightarrow> kernel \<Rightarrow> kernel" where
  "upd_pipe p f s = s\<lparr>pipes := (pipes s)(p := f (pipes s p))\<rparr>"

definition pipe_init :: "pipest \<Rightarrow> pipest" where
  "pipe_init r = r\<lparr>readopen := True, writeopen := True, nwrite := 0, nread := 0\<rparr>"

definition pipeclose :: "u32 \<Rightarrow> bool \<Rightarrow> kernel \<Rightarrow> kernel res" where
  "pipeclose p writable s =
     (let s = (if writable then wakeup (ChPipeRead p) (upd_pipe p (\<lambda>r. r\<lparr>writeopen := False\<rparr>) s)
               else wakeup (ChPipeWrite p) (upd_pipe p (\<lambda>r. r\<lparr>readopen := False\<rparr>) s)) in
      if \<not> readopen (pipes s p) \<and> \<not> writeopen (pipes s p) then kfree p s else Ok s)"

definition pipe_full :: "pipest \<Rightarrow> bool" where
  "pipe_full r = (nwrite r = nread r + word_of_nat PIPESIZE)"

definition pipe_empty :: "pipest \<Rightarrow> bool" where
  "pipe_empty r = (nread r = nwrite r)"

definition pipe_put :: "u8 \<Rightarrow> pipest \<Rightarrow> pipest" where
  "pipe_put c r = r\<lparr>p_data := (p_data r)[unat (nwrite r mod word_of_nat PIPESIZE) := c],
     nwrite := nwrite r + 1\<rparr>"

definition pipe_get :: "pipest \<Rightarrow> u8 \<times> pipest" where
  "pipe_get r = (p_data r ! unat (nread r mod word_of_nat PIPESIZE), r\<lparr>nread := nread r + 1\<rparr>)"

definition proc_killed :: "kernel \<Rightarrow> bool" where
  "proc_killed s = (case cur s of None \<Rightarrow> False | Some p \<Rightarrow> killed (procs s p))"

datatype pwrite_out = PWDone | PWFail | PWSleep bytes

fun pipewrite_loop :: "u32 \<Rightarrow> bytes \<Rightarrow> kernel \<Rightarrow> pwrite_out \<times> kernel" where
  "pipewrite_loop p [] s = (PWDone, wakeup (ChPipeRead p) s)"
| "pipewrite_loop p (c # cs) s =
     (if pipe_full (pipes s p) then
        (if \<not> readopen (pipes s p) \<or> proc_killed s then (PWFail, s)
         else (PWSleep (c # cs), wakeup (ChPipeRead p) s))
      else pipewrite_loop p cs (upd_pipe p (pipe_put c) s))"

text \<open>The bytes \<open>bs\<close> are \<^verbatim>\<open>addr[0 .. n-1]\<close>, none if \<open>n\<close> is negative.\<close>

definition pipewrite :: "u32 \<Rightarrow> int \<Rightarrow> bytes \<Rightarrow> kernel \<Rightarrow> (int \<times> kernel) res" where
  "pipewrite p n bs s =
     (case pipewrite_loop p bs s of
        (PWDone, s) \<Rightarrow> Ok (n, s)
      | (PWFail, s) \<Rightarrow> Ok (-1, s)
      | (PWSleep cs, s) \<Rightarrow> Block (ChPipeWrite p))"

fun pipe_take :: "nat \<Rightarrow> pipest \<Rightarrow> bytes \<times> pipest" where
  "pipe_take 0 r = ([], r)"
| "pipe_take (Suc n) r =
     (if pipe_empty r then ([], r)
      else let (c, r) = pipe_get r; (cs, r) = pipe_take n r in (c # cs, r))"

definition piperead :: "u32 \<Rightarrow> int \<Rightarrow> kernel \<Rightarrow> (int \<times> bytes \<times> kernel) res" where
  "piperead p n s =
     (if pipe_empty (pipes s p) \<and> writeopen (pipes s p) then
        if proc_killed s then Ok (-1, [], s) else Block (ChPipeRead p)
      else
        let (bs, r) = pipe_take (nat n) (pipes s p) in
        Ok (int (length bs), bs, wakeup (ChPipeWrite p) (upd_pipe p (\<lambda>_. r) s)))"

section \<open>A pipe is a bounded queue\<close>

definition pipe_len :: "pipest \<Rightarrow> nat" where
  "pipe_len r = unat (nwrite r - nread r)"

definition pipe_contents :: "pipest \<Rightarrow> bytes" where
  "pipe_contents r = window (p_data r) (unat (nread r)) (pipe_len r)"

definition pipe_inv :: "pipest \<Rightarrow> bool" where
  "pipe_inv r \<longleftrightarrow> length (p_data r) = PIPESIZE \<and> pipe_len r \<le> PIPESIZE"

lemma unat_add_mod512: "unat ((x :: u32) + y) mod 512 = (unat x + unat y) mod 512"
  by (simp add: unat_word_ariths mod_mod_cancel)

lemma pipe_put_ok:
  assumes inv: "pipe_inv r" and nf: "\<not> pipe_full r"
  shows "pipe_inv (pipe_put c r)" "pipe_contents (pipe_put c r) = pipe_contents r @ [c]"
proof -
  have d: "length (p_data r) = 512" and le: "pipe_len r \<le> 512" using inv by (auto simp: pipe_inv_def)
  have "nwrite r - nread r \<noteq> 512" using nf by (auto simp: pipe_full_def algebra_simps)
  then have "pipe_len r \<noteq> 512" by (auto simp: pipe_len_def word_unat_eq_iff)
  then have lt: "pipe_len r < 512" using le by simp
  then have "unat ((nwrite r - nread r) + 1) = pipe_len r + 1"
    by (simp add: pipe_len_def unat_word_ariths)
  then have len: "pipe_len (pipe_put c r) = Suc (pipe_len r)"
    by (simp add: pipe_len_def pipe_put_def algebra_simps)
  show "pipe_inv (pipe_put c r)" using d len lt by (simp add: pipe_inv_def) (simp add: pipe_put_def)
  have "unat (nwrite r mod 512) = (unat (nread r) + pipe_len r) mod 512"
    using unat_add_mod512 [of "nread r" "nwrite r - nread r"] by (simp add: unat_mod pipe_len_def)
  then have "p_data (pipe_put c r) = (p_data r)[(unat (nread r) + pipe_len r) mod length (p_data r) := c]"
    using d by (simp add: pipe_put_def)
  moreover have "nread (pipe_put c r) = nread r" by (simp add: pipe_put_def)
  ultimately show "pipe_contents (pipe_put c r) = pipe_contents r @ [c]"
    using window_push [of "pipe_len r" "p_data r" "unat (nread r)" c] lt d len by (simp add: pipe_contents_def)
qed

lemma pipe_get_ok:
  assumes inv: "pipe_inv r" and ne: "\<not> pipe_empty r"
  shows "pipe_inv (snd (pipe_get r))"
    "pipe_contents r = fst (pipe_get r) # pipe_contents (snd (pipe_get r))"
proof -
  let ?r = "r\<lparr>nread := nread r + 1\<rparr>"
  have d: "length (p_data r) = 512" and le: "pipe_len r \<le> 512" using inv by (auto simp: pipe_inv_def)
  have nz: "nwrite r - nread r \<noteq> 0" using ne by (auto simp: pipe_empty_def)
  then have pos: "pipe_len r > 0" by (simp add: pipe_len_def unat_gt_0)
  have "unat ((nwrite r - nread r) - 1) = pipe_len r - 1"
    using unat_minus_one [OF nz] by (simp add: pipe_len_def)
  then have len: "pipe_len ?r = pipe_len r - 1" by (simp add: pipe_len_def algebra_simps)
  show "pipe_inv (snd (pipe_get r))" using d le len by (simp add: pipe_get_def pipe_inv_def)
  have "unat (nread r + 1) mod length (p_data r) = Suc (unat (nread r)) mod length (p_data r)"
    using unat_add_mod512 [of "nread r" 1] d by simp
  then have "pipe_contents ?r = window (p_data r) (Suc (unat (nread r))) (pipe_len r - 1)"
    using window_cong len by (simp add: pipe_contents_def)
  moreover have "pipe_contents r = p_data r ! (unat (nread r) mod 512) # window (p_data r) (Suc (unat (nread r))) (pipe_len r - 1)"
    using window_Suc [of "p_data r" "unat (nread r)" "pipe_len r - 1"] pos d by (simp add: pipe_contents_def)
  ultimately show "pipe_contents r = fst (pipe_get r) # pipe_contents (snd (pipe_get r))"
    by (simp add: pipe_get_def unat_mod)
qed

interpretation pq: bounded_queue pipe_inv pipe_contents PIPESIZE pipe_put pipe_get pipe_full pipe_empty
proof (unfold_locales, goal_cases)
  case (2 r)
  have "pipe_full r \<longleftrightarrow> nwrite r - nread r = 512" by (auto simp: pipe_full_def algebra_simps)
  also have "\<dots> \<longleftrightarrow> pipe_len r = 512" by (simp add: pipe_len_def word_unat_eq_iff)
  finally show ?case by (simp add: pipe_contents_def)
next
  case (3 r)
  have "pipe_empty r \<longleftrightarrow> nwrite r - nread r = 0" by (auto simp: pipe_empty_def)
  also have "\<dots> \<longleftrightarrow> pipe_len r = 0" by (simp add: pipe_len_def unat_eq_0)
  finally show ?case by (simp add: pipe_contents_def window_def)
next
  case (4 r c)
  then show ?case using pipe_put_ok by blast
next
  case (5 r)
  then show ?case using pipe_get_ok by blast
qed (simp add: pipe_inv_def pipe_contents_def)

lemma pipes_upd_pipe [simp]:
  "pipes (upd_pipe p f s) = (pipes s)(p := f (pipes s p))" "proc_killed (upd_pipe p f s) = proc_killed s"
  by (simp_all add: upd_pipe_def proc_killed_def cong: option.case_cong)

lemma pipes_wakeup [simp]: "pipes (wakeup c s) = pipes s"
  by (simp add: wakeup_def)

lemma pipewrite_loop_enq:
  "pipes (snd (pipewrite_loop p bs s)) p = snd (pq.enq_all bs (pipes s p)) \<and>
   (case fst (pipewrite_loop p bs s) of
      PWDone \<Rightarrow> fst (pq.enq_all bs (pipes s p)) = []
    | PWSleep cs \<Rightarrow> fst (pq.enq_all bs (pipes s p)) = cs \<and> cs \<noteq> []
    | PWFail \<Rightarrow> fst (pq.enq_all bs (pipes s p)) \<noteq> [])"
proof (induction bs arbitrary: s)
  case (Cons a bs)
  show ?case using Cons.IH [of "upd_pipe p (pipe_put a) s"] by (auto split: pwrite_out.splits)
qed simp

lemma pipe_take_deq: "pipe_take n r = pq.deq_all n r"
  by (induction n arbitrary: r) (auto simp: Let_def split: prod.splits)

section \<open>Properties\<close>

text \<open>C30: A pipe is a bounded queue of bytes, also when its 32-bit counters wrap: a write appends the bytes in order and stops (sleeping or failing) only when the buffer is full, keeping exactly the unwritten rest for later; a read returns the oldest bytes, in order, and removes them.\<close>

theorem pipe_fifo:
  assumes "pipe_inv (pipes s p)"
  shows "(\<exists>rest. pipe_contents (pipes (snd (pipewrite_loop p bs s)) p) @ rest = pipe_contents (pipes s p) @ bs \<and>
      pipe_inv (pipes (snd (pipewrite_loop p bs s)) p) \<and>
      (case fst (pipewrite_loop p bs s) of
         PWDone \<Rightarrow> rest = []
       | PWSleep cs \<Rightarrow> rest = cs \<and> pipe_full (pipes (snd (pipewrite_loop p bs s)) p)
       | PWFail \<Rightarrow> rest \<noteq> [] \<and> pipe_full (pipes (snd (pipewrite_loop p bs s)) p))) \<and>
    (case piperead p n s of
       Ok (r, cs, s') \<Rightarrow> r = -1 \<or>
         cs = take (nat n) (pipe_contents (pipes s p)) \<and> r = int (length cs) \<and>
         pipe_contents (pipes s' p) = drop (nat n) (pipe_contents (pipes s p)) \<and> pipe_inv (pipes s' p)
     | Block c \<Rightarrow> c = ChPipeRead p \<and> pipe_contents (pipes s p) = [] \<and> writeopen (pipes s p)
     | _ \<Rightarrow> False)"
proof
  note e = pq.enq_all_ok [OF assms, of bs] and l = pipewrite_loop_enq [of p bs s]
  show "\<exists>rest. pipe_contents (pipes (snd (pipewrite_loop p bs s)) p) @ rest = pipe_contents (pipes s p) @ bs \<and>
      pipe_inv (pipes (snd (pipewrite_loop p bs s)) p) \<and>
      (case fst (pipewrite_loop p bs s) of
         PWDone \<Rightarrow> rest = []
       | PWSleep cs \<Rightarrow> rest = cs \<and> pipe_full (pipes (snd (pipewrite_loop p bs s)) p)
       | PWFail \<Rightarrow> rest \<noteq> [] \<and> pipe_full (pipes (snd (pipewrite_loop p bs s)) p))"
    using e l by (intro exI [of _ "fst (pq.enq_all bs (pipes s p))"]) (auto split: pwrite_out.splits)
next
  note pq.deq_all_ok [OF assms, of "nat n"] pq.empty_iff [OF assms]
  then show "case piperead p n s of
       Ok (r, cs, s') \<Rightarrow> r = -1 \<or>
         cs = take (nat n) (pipe_contents (pipes s p)) \<and> r = int (length cs) \<and>
         pipe_contents (pipes s' p) = drop (nat n) (pipe_contents (pipes s p)) \<and> pipe_inv (pipes s' p)
     | Block c \<Rightarrow> c = ChPipeRead p \<and> pipe_contents (pipes s p) = [] \<and> writeopen (pipes s p)
     | _ \<Rightarrow> False"
    by (auto simp: piperead_def pipe_take_deq split: prod.splits)
qed

definition demo_pipe :: pipest where
  "demo_pipe = \<lparr>p_data = replicate 512 5, nread = -1, nwrite = 0, readopen = True, writeopen = True\<rparr>"

lemma demo_pipe_simps:
  "pipe_inv demo_pipe" "pipe_contents demo_pipe = [5]"
  by (simp_all add: pipe_inv_def pipe_contents_def pipe_len_def window_def demo_pipe_def)

theorem pipe_fifo_witness:
  "\<exists>rest. pipe_contents (pipes (snd (pipewrite_loop 0 [7, 8] (demo_kernel\<lparr>pipes := \<lambda>_. demo_pipe\<rparr>))) 0) @ rest = [5, 7, 8]"
  using pipe_fifo [of "demo_kernel\<lparr>pipes := \<lambda>_. demo_pipe\<rparr>" 0 "[7, 8]" 2] demo_pipe_simps by auto

end
