(* ===== verification/File.thy ===== *)
theory File
  imports Fs Pipe
begin

text \<open>
  Open files (\<^verbatim>\<open>file.c\<close>) and the creation of a pipe (\<^verbatim>\<open>pipealloc\<close> of \<^verbatim>\<open>pipe.c\<close>): the table
  \<^verbatim>\<open>ftable\<close> of reference-counted files and the dispatch of reads and writes to pipes and inodes. As in
  \<^verbatim>\<open>fs.c\<close>, the bytes of a transfer are loaded and stored by the callers.
\<close>

section \<open>The file table\<close>

definition upd_file :: "nat \<Rightarrow> (filest \<Rightarrow> filest) \<Rightarrow> kernel \<Rightarrow> kernel" where
  "upd_file f g s = s\<lparr>files := (files s)(f := g (files s f))\<rparr>"

definition filealloc :: "kernel \<Rightarrow> nat option \<times> kernel" where
  "filealloc s =
     (case first_slot NFILE (\<lambda>f. f_ref (files s f) = 0) of
        Some f \<Rightarrow> (Some f, upd_file f (\<lambda>r. r\<lparr>f_ref := 1\<rparr>) s)
      | None \<Rightarrow> (None, s))"

definition filedup :: "nat \<Rightarrow> kernel \<Rightarrow> kernel res" where
  "filedup f s =
     (if f_ref (files s f) < 1 then Panic ''filedup''
      else Ok (upd_file f (\<lambda>r. r\<lparr>f_ref := f_ref r + 1\<rparr>) s))"

text \<open>\<^verbatim>\<open>begin_op(); iput(ip); end_op();\<close>\<close>

definition put_in_op :: "nat \<Rightarrow> kernel \<Rightarrow> kernel res" where
  "put_in_op ip s = kbind (begin_op s) (\<lambda>s. kbind (iput ip s) end_op)"

definition fileclose :: "nat \<Rightarrow> kernel \<Rightarrow> kernel res" where
  "fileclose f s =
     (if f_ref (files s f) < 1 then Panic ''fileclose''
      else
        let s = upd_file f (\<lambda>r. r\<lparr>f_ref := f_ref r - 1\<rparr>) s in
        if f_ref (files s f) > 0 then Ok s
        else
          let ff = files s f; s = upd_file f (\<lambda>r. r\<lparr>f_ref := 0, f_type := FD_NONE\<rparr>) s in
          case f_type ff of
            FD_PIPE \<Rightarrow> pipeclose (f_pipe ff) (f_writable ff) s
          | FD_INODE \<Rightarrow> put_in_op (f_ip ff) s
          | FD_NONE \<Rightarrow> Ok s)"

section \<open>Access\<close>

definition filestat :: "nat \<Rightarrow> kernel \<Rightarrow> (stat option \<times> kernel) res" where
  "filestat f s =
     (if f_type (files s f) = FD_INODE then
        let ip = f_ip (files s f) in
        kbind (ilock ip s) (\<lambda>s.
        let st = stati (inodes s ip) in
        kbind (iunlock ip s) (\<lambda>s. Ok (Some st, s)))
      else Ok (None, s))"

definition fileread :: "nat \<Rightarrow> int \<Rightarrow> kernel \<Rightarrow> (int \<times> bytes \<times> kernel) res" where
  "fileread f n s =
     (let ff = files s f in
      if \<not> f_readable ff then Ok (-1, [], s)
      else case f_type ff of
        FD_PIPE \<Rightarrow> piperead (f_pipe ff) n s
      | FD_INODE \<Rightarrow>
          kbind (ilock (f_ip ff) s) (\<lambda>s.
          kbind (readi (f_ip ff) (f_off (files s f)) (word_of_int n) s) (\<lambda>(r, bs, s).
          let s = (if r > 0 then upd_file f (\<lambda>g. g\<lparr>f_off := f_off g + word_of_int r\<rparr>) s else s) in
          kbind (iunlock (f_ip ff) s) (\<lambda>s. Ok (r, bs, s))))
      | FD_NONE \<Rightarrow> Panic ''fileread'')"

text \<open>\<^verbatim>\<open>((LOGSIZE-1-1-2) / 2) * 512\<close>\<close>

abbreviation (input) "write_max \<equiv> (LOGSIZE - 1 - 1 - 2) div 2 * 512"

text \<open>The loop of \<open>filewrite\<close>; it returns what is left of the bytes when a write fails.\<close>

function filewrite_loop :: "nat \<Rightarrow> bytes \<Rightarrow> kernel \<Rightarrow> (bytes \<times> kernel) res" where
  "filewrite_loop f bs s =
     (if bs = [] then Ok ([], s)
      else
        let n1 = min (length bs) write_max; ip = f_ip (files s f) in
        kbind (begin_op s) (\<lambda>s.
        kbind (ilock ip s) (\<lambda>s.
        kbind (writei ip (take n1 bs) (f_off (files s f)) s) (\<lambda>(r, s).
        let s = (if r > 0 then upd_file f (\<lambda>g. g\<lparr>f_off := f_off g + word_of_int r\<rparr>) s else s) in
        kbind (iunlock ip s) (\<lambda>s.
        kbind (end_op s) (\<lambda>s.
          if r < 0 then Ok (bs, s)
          else if r \<noteq> int n1 then Panic ''short filewrite''
          else filewrite_loop f (drop n1 bs) s))))))"
  by pat_completeness auto

termination
  by (relation "measure (\<lambda>(f, bs, s). length bs)") (auto simp: Let_def)

declare filewrite_loop.simps [simp del]

definition filewrite :: "nat \<Rightarrow> int \<Rightarrow> bytes \<Rightarrow> kernel \<Rightarrow> (int \<times> kernel) res" where
  "filewrite f n bs s =
     (let ff = files s f in
      if \<not> f_writable ff then Ok (-1, s)
      else case f_type ff of
        FD_PIPE \<Rightarrow> pipewrite (f_pipe ff) n bs s
      | FD_INODE \<Rightarrow>
          kbind (filewrite_loop f bs s) (\<lambda>(rest, s). Ok (if 0 \<le> n \<and> rest = [] then n else -1, s))
      | FD_NONE \<Rightarrow> Panic ''filewrite'')"

section \<open>Pipes\<close>

definition pipe_file :: "bool \<Rightarrow> u32 \<Rightarrow> filest \<Rightarrow> filest" where
  "pipe_file w p r = r\<lparr>f_type := FD_PIPE, f_readable := \<not> w, f_writable := w, f_pipe := p\<rparr>"

definition close_opt :: "nat option \<Rightarrow> kernel \<Rightarrow> kernel res" where
  "close_opt f s = (case f of None \<Rightarrow> Ok s | Some f \<Rightarrow> fileclose f s)"

definition pipealloc :: "kernel \<Rightarrow> ((nat \<times> nat) option \<times> kernel) res" where
  "pipealloc s =
     (let (f0, s) = filealloc s;
          (f1, s) = (if f0 = None then (None, s) else filealloc s);
          (p, s) = (if f1 = None then (0, s) else kalloc s) in
      case (f0, f1) of
        (Some f0, Some f1) \<Rightarrow>
          if p \<noteq> 0 then
            Ok (Some (f0, f1),
              upd_file f1 (pipe_file True p) (upd_file f0 (pipe_file False p) (upd_pipe p pipe_init s)))
          else kbind (fileclose f0 s) (\<lambda>s. kbind (fileclose f1 s) (\<lambda>s. Ok (None, s)))
      | _ \<Rightarrow> kbind (close_opt f0 s) (\<lambda>s. kbind (close_opt f1 s) (\<lambda>s. Ok (None, s))))"

end
