(* ===== verification/Frame.thy ===== *)
theory Frame
  imports File User_Mem
begin

text \<open>
  What the file system leaves alone. The locale \<open>fs_frame\<close> takes a property of the kernel state that is kept
  by the elementary updates of the file system (a buffer, a disk block, the log, an inode, console input
  and output, waking sleepers up) and shows that every operation of the buffer cache, the log, inodes,
  directories and paths keeps it; \<open>pipe_frame\<close> adds pipes and pages of memory, and \<open>file_frame\<close> the file
  table. Each use of the locales is an invariant of another component that survives the file system
  calls made by that component.
\<close>

section \<open>Postconditions\<close>

definition okp :: "'a res \<Rightarrow> ('a \<Rightarrow> bool) \<Rightarrow> bool" where
  "okp m P \<longleftrightarrow> (\<forall>x. m = Ok x \<longrightarrow> P x)"

lemma okp_simps [simp]:
  "okp (Ok x) P \<longleftrightarrow> P x" "okp (Panic e) P" "okp (Block c) P" "okp (Fault e) P"
  by (simp_all add: okp_def)

lemma okp_kbind: "okp (kbind m f) P \<longleftrightarrow> okp m (\<lambda>x. okp (f x) P)"
  by (cases m) (auto simp: okp_def)

lemma okp_mono: "okp m P \<Longrightarrow> (\<And>x. P x \<Longrightarrow> Q x) \<Longrightarrow> okp m Q"
  by (auto simp: okp_def)

lemma okp_any: "(\<And>x. okp (f x) P) \<Longrightarrow> okp (kbind m f) P"
  by (cases m) (auto simp: okp_def)

lemma okp_with_proc: "(\<And>p. cur s = Some p \<Longrightarrow> okp (f p) P) \<Longrightarrow> okp (with_proc s f) P"
  by (auto simp: with_proc_def split: option.splits)

lemma okp_for_each:
  "(\<And>i s. P s \<Longrightarrow> okp (f i s) P) \<Longrightarrow> P s \<Longrightarrow> okp (for_each f is s) P"
  by (induction "is" arbitrary: s) (auto simp: okp_kbind intro: okp_mono)

lemmas okp_bind_lock = okp_any [where 'a = sleeplock]
lemmas okp_bind_word = okp_any [where 'a = u32]
lemmas okp_bind_slot = okp_any [where 'a = "nat option"]

section \<open>The file system\<close>

section \<open>The file system\<close>

text \<open>
  The sizes of the arrays of the kernel: disk blocks, the buffers that hold them, the block addresses of an
  inode and the block numbers of the log. An update of the file system keeps these sizes, so an invariant
  that depends on them is kept as well.
\<close>

definition shaped :: "kernel \<Rightarrow> bool" where
  "shaped s \<longleftrightarrow> (\<forall>n. length (disk s n) = BSIZE) \<and> (\<forall>b. length (b_data (bufs s b)) = BSIZE) \<and>
     (\<forall>i. length (i_addrs (inodes s i)) = NDIRECT + 1) \<and> length (l_block (log s)) = LOGSIZE"

lemma shapedD [simp]:
  assumes "shaped s"
  shows "length (disk s n) = BSIZE" "length (b_data (bufs s b)) = BSIZE" "length (i_addrs (inodes s i)) = NDIRECT + 1"
    "length (l_block (log s)) = LOGSIZE"
  using assms by (simp_all add: shaped_def)

lemma shaped_wakeup [simp]: "shaped (wakeup c s) = shaped s"
  by (simp add: shaped_def wakeup_def del: shapedD)

lemma shaped_log:
  "shaped (upd_log g s) \<Longrightarrow> length (b_data (bufs s b)) = BSIZE"
  "shaped (upd_log g s) \<Longrightarrow> length (l_block (g (log s))) = LOGSIZE"
  using shapedD(2) [of "upd_log g s" b] shapedD(4) [of "upd_log g s"] by simp_all

lemma shaped_disk: "shaped (s\<lparr>disk := d, dwrites := w\<rparr>) \<Longrightarrow> length (b_data (bufs s b)) = BSIZE"
  using shapedD(2) [of "s\<lparr>disk := d, dwrites := w\<rparr>" b] by simp

lemma shaped_lengths [simp]:
  "length (set_block_bit d i) = length d" "length (clear_block_bit d i) = length d"
  "length (di_addrs (rec_get dec_dinode n i d)) = NDIRECT + 1" "length (i_addrs (load_dinode x r)) = length (di_addrs x)"
  "length (di_addrs zero_dinode) = NDIRECT + 1"
  by (simp_all add: zero_dinode_def set_block_bit_def clear_block_bit_def rec_get_def dec_dinode_def load_dinode_def)

lemma length_put_dinode [simp]:
  "length d = BSIZE \<Longrightarrow> length (di_addrs x) = NDIRECT + 1 \<Longrightarrow> length (rec_put enc_dinode dinode_size (i mod IPB) x d) = BSIZE"
  using dic.length_rec_put [of x "i mod IPB" IPB d] by simp

lemma bread_inodes: "okp (bread dev n s) (\<lambda>(b, t). inodes t = inodes s)"
proof -
  have l: "okp (lock_buf b s) (\<lambda>(b, t). inodes t = inodes s)" for b s
    by (auto simp: lock_buf_def intro!: okp_any)
  have "okp (lock_buf b (upd_buf b f s)) (\<lambda>(b, t). inodes t = inodes s)" for b f
    using l [of b "upd_buf b f s"] by simp
  then have "okp (bget dev n s) (\<lambda>(b, t). inodes t = inodes s)"
    by (auto simp: bget_def simp del: ring_find.simps intro!: okp_any split: option.split)
  moreover have "okp (iderw b t) (\<lambda>u. inodes u = inodes s)" if "inodes t = inodes s" for b t
    using that by (simp add: iderw_def Let_def)
  ultimately show ?thesis
    unfolding bread_def okp_kbind by (elim okp_mono) (auto simp: okp_kbind)
qed

locale fs_frame =
  fixes I :: "kernel \<Rightarrow> bool"
  assumes wakeup_I: "I s \<Longrightarrow> I (wakeup c s)"
    and buf_I: "I s \<Longrightarrow> (shaped s \<Longrightarrow> length (b_data (f (bufs s b))) = BSIZE) \<Longrightarrow> I (upd_buf b f s)"
    and disk_I: "I s \<Longrightarrow> (\<And>n. shaped s \<Longrightarrow> length (d n) = BSIZE) \<Longrightarrow> I (s\<lparr>disk := d, dwrites := w\<rparr>)"
    and log_I: "I s \<Longrightarrow> (shaped s \<Longrightarrow> length (l_block (g (log s))) = LOGSIZE) \<Longrightarrow> I (upd_log g s)"
    and inode_I: "I s \<Longrightarrow> (shaped s \<Longrightarrow> length (i_addrs (h (inodes s i))) = NDIRECT + 1) \<Longrightarrow> I (upd_inode i h s)"
    and sb_I: "I s \<Longrightarrow> I (s\<lparr>sb := x\<rparr>)"
    and out_I: "I s \<Longrightarrow> I (s\<lparr>cons_out := out\<rparr>)"
    and input_I: "I s \<Longrightarrow> I (upd_input k s)"
begin

lemma bind1: "okp m I \<Longrightarrow> (\<And>t. I t \<Longrightarrow> okp (f t) Q) \<Longrightarrow> okp (kbind m f) Q"
  unfolding okp_kbind by (erule okp_mono)

lemma bind2: "okp m (\<lambda>(x, t). I t) \<Longrightarrow> (\<And>x t. I t \<Longrightarrow> okp (f (x, t)) Q) \<Longrightarrow> okp (kbind m f) Q"
  unfolding okp_kbind by (erule okp_mono) auto

lemma bind3: "okp m (\<lambda>(x, y, t). I t) \<Longrightarrow> (\<And>x y t. I t \<Longrightarrow> okp (f (x, y, t)) Q) \<Longrightarrow> okp (kbind m f) Q"
  unfolding okp_kbind by (erule okp_mono) auto

lemmas binds = bind1 bind2 bind3 okp_bind_lock okp_bind_word okp_bind_slot okp_with_proc

lemmas basic = wakeup_I buf_I disk_I log_I inode_I sb_I out_I input_I

lemma set_link_I: "I s \<Longrightarrow> I (set_next b n s)" "I s \<Longrightarrow> I (set_prev b n s)" "I s \<Longrightarrow> (shaped s \<Longrightarrow> length d = BSIZE) \<Longrightarrow> I (set_data b d s)"
  by (simp_all add: set_next_def set_prev_def set_data_def buf_I)

lemma lock_buf_I: "I s \<Longrightarrow> okp (lock_buf b s) (\<lambda>(x, t). I t)"
  by (auto simp: lock_buf_def intro!: binds buf_I)

lemma bget_I: "I s \<Longrightarrow> okp (bget dev n s) (\<lambda>(x, t). I t)"
  by (auto simp: bget_def intro!: binds lock_buf_I buf_I split: option.splits)

lemma iderw_I: "I s \<Longrightarrow> okp (iderw b s) I"
  by (auto simp: iderw_def Let_def dest: shaped_disk intro!: buf_I disk_I)

lemma bread_I: "I s \<Longrightarrow> okp (bread dev n s) (\<lambda>(x, t). I t)"
  by (auto simp: bread_def intro!: binds bget_I iderw_I)

lemma bwrite_I: "I s \<Longrightarrow> okp (bwrite b s) I"
  by (auto simp: bwrite_def intro!: iderw_I buf_I)

lemma brelse_I: "I s \<Longrightarrow> okp (brelse b s) I"
  by (auto simp: brelse_def releasesleep_def move_to_front_def Let_def intro!: buf_I wakeup_I set_link_I)

lemmas bio_rules = bread_I bwrite_I brelse_I set_link_I

lemma log_write_I: "I s \<Longrightarrow> okp (log_write b s) I"
  by (auto simp: log_write_def Let_def dest: shaped_log(1) intro!: buf_I log_I)

lemma readsb_I: "I s \<Longrightarrow> okp (readsb dev s) (\<lambda>(x, t). I t)"
  by (auto simp: readsb_def Let_def intro!: binds bio_rules)

lemma install_trans_I: "I s \<Longrightarrow> okp (install_trans s) I"
  by (auto simp: install_trans_def install_one_def lh_block_def Let_def intro!: okp_for_each binds bio_rules)

lemma head_I: "I s \<Longrightarrow> okp (read_head s) I" "I s \<Longrightarrow> okp (write_head s) I"
  by (auto simp: read_head_def write_head_def load_head_def Let_def intro!: binds bio_rules log_I)

lemma write_log_I: "I s \<Longrightarrow> okp (write_log s) I"
  by (auto simp: write_log_def write_log_one_def lh_block_def Let_def intro!: okp_for_each binds bio_rules)

lemma commit_I: "I s \<Longrightarrow> okp (commit s) I"
  by (auto simp: commit_def intro!: binds write_log_I head_I install_trans_I log_I)

lemma begin_op_I: "I s \<Longrightarrow> okp (begin_op s) I"
  by (auto simp: begin_op_def intro!: log_I)

lemma end_op_I: "I s \<Longrightarrow> okp (end_op s) I"
  by (auto simp: end_op_def Let_def dest: shaped_log(2) intro!: binds commit_I log_I wakeup_I)

lemma initlog_I: "I s \<Longrightarrow> okp (initlog dev s) I"
  by (auto simp: initlog_def recover_from_log_def intro!: binds readsb_I head_I install_trans_I log_I)

lemmas log_rules = bio_rules log_write_I readsb_I begin_op_I end_op_I

lemma bzero_I: "I s \<Longrightarrow> okp (bzero dev n s) I"
  by (auto simp: bzero_def intro!: binds log_rules)

lemma balloc_I: "I s \<Longrightarrow> okp (balloc dev s) (\<lambda>(x, t). I t)"
proof -
  have "I s \<Longrightarrow> okp (balloc_from dev bs s) (\<lambda>(x, t). I t)" for bs
    by (induction bs arbitrary: s) (auto intro!: binds log_rules bzero_I split: option.splits)
  then show "I s \<Longrightarrow> ?thesis" by (simp add: balloc_def)
qed

lemma bfree_I: "I s \<Longrightarrow> okp (bfree dev b s) I"
  by (auto simp: bfree_def Let_def intro!: binds log_rules sb_I)

lemma consputs_I: "I s \<Longrightarrow> I (consputs bs s)"
  by (induction bs arbitrary: s) (auto simp: consputc_def out_I)

lemma cprintf_I: "I s \<Longrightarrow> okp (cprintf fmt args s) I"
  by (auto simp: cprintf_def okp_kbind okp_def consputs_I)

lemma iinit_I: "I s \<Longrightarrow> okp (iinit dev s) I"
proof -
  have "I s \<Longrightarrow> I (fold (\<lambda>i. upd_inode i (\<lambda>r. r\<lparr>i_lock := initsleeplock (i_lock r)\<rparr>)) is s)" for "is"
    by (induction "is" arbitrary: s) (simp_all add: inode_I)
  then show "I s \<Longrightarrow> ?thesis"
    by (auto simp: iinit_def Let_def intro!: binds log_rules sb_I cprintf_I)
qed

lemma iget_I: "I s \<Longrightarrow> okp (iget dev n s) (\<lambda>(x, t). I t)"
  by (auto simp: iget_def intro!: inode_I split: option.splits)

lemma ialloc_I: "I s \<Longrightarrow> okp (ialloc dev type s) (\<lambda>(x, t). I t)"
proof -
  have "I s \<Longrightarrow> okp (ialloc_from dev type ns s) (\<lambda>(x, t). I t)" for ns
    by (induction ns arbitrary: s) (auto intro!: binds log_rules iget_I)
  then show "I s \<Longrightarrow> ?thesis" by (simp add: ialloc_def)
qed

lemma iupdate_I: "I s \<Longrightarrow> okp (iupdate ip s) I"
proof -
  assume s: "I s"
  let ?r = "inodes s ip"
  have "okp (bread (i_dev ?r) (IBLOCK (i_inum ?r) (sb s)) s) (\<lambda>(b, t). I t \<and> inodes t = inodes s)"
    using bread_I [OF s] bread_inodes by (simp add: okp_def)
  moreover have "length (rec_put enc_dinode dinode_size (k mod IPB) (dinode_of ?r) (b_data (bufs t b))) = BSIZE"
    if "inodes t = inodes s" "shaped t" for t k b
    using shapedD(3) [OF that(2), of ip] that by (simp add: dinode_of_def)
  ultimately show ?thesis
    unfolding iupdate_def Let_def okp_kbind [of "bread _ _ _"]
    by (elim okp_mono) (auto intro!: binds log_rules)
qed

lemma ilock_I: "I s \<Longrightarrow> okp (ilock ip s) I"
  by (auto simp: ilock_def Let_def intro!: binds log_rules inode_I)

lemma iunlock_I: "I s \<Longrightarrow> okp (iunlock ip s) I"
  by (auto simp: iunlock_def releasesleep_def intro!: inode_I wakeup_I)

lemma bmap_I: "I s \<Longrightarrow> okp (bmap ip bn s) (\<lambda>(x, t). I t)"
  by (auto simp: bmap_def addr_or_alloc_def set_addr_def Let_def intro!: binds log_rules balloc_I inode_I)

lemma itrunc_I: "I s \<Longrightarrow> okp (itrunc ip s) I"
  by (auto simp: itrunc_def trunc_direct_def trunc_indirect_def set_addr_def Let_def
      intro!: okp_for_each binds log_rules bfree_I iupdate_I inode_I)

lemma iput_I: "I s \<Longrightarrow> okp (iput ip s) I"
  by (auto simp: iput_def intro!: binds itrunc_I iupdate_I inode_I)

lemma iunlockput_I: "I s \<Longrightarrow> okp (iunlockput ip s) I"
  by (auto simp: iunlockput_def intro!: binds iunlock_I iput_I)

lemmas inode_rules = log_rules ilock_I iunlock_I iput_I iunlockput_I iupdate_I iget_I ialloc_I bmap_I

lemma cread_I: "I s \<Longrightarrow> I (snd (cread n target acc s))"
  by (induction n target acc s rule: cread.induct) (auto simp: Let_def intro!: input_I)

lemma consoleread_I: "I s \<Longrightarrow> okp (consoleread ip n s) (\<lambda>(x, y, t). I t)"
proof -
  have "I t \<Longrightarrow> okp (case cread k k [] t of
         (CRead bs, s) \<Rightarrow> kbind (ilock ip s) (\<lambda>s. Ok (int (length bs), bs, s))
       | (CKilled bs, s) \<Rightarrow> kbind (ilock ip s) (\<lambda>s. Ok (-1, bs, s))
       | (CSleep k bs, s) \<Rightarrow> Block ChInput) (\<lambda>(x, y, t). I t)" for t k
    using cread_I [of t k k "[]"]
    by (auto split: prod.splits cread_out.splits intro!: binds inode_rules)
  then show "I s \<Longrightarrow> ?thesis" by (auto simp: consoleread_def intro!: binds inode_rules)
qed

lemma put_chars_I: "I s \<Longrightarrow> I (fold (\<lambda>c. consputc (ucast c)) bs s)"
  by (induction bs arbitrary: s) (auto simp: consputc_def out_I)

lemma consolewrite_I: "I s \<Longrightarrow> okp (consolewrite ip bs s) (\<lambda>(x, t). I t)"
  by (auto simp: consolewrite_def intro!: binds inode_rules put_chars_I)

lemma readi_loop_I: "I s \<Longrightarrow> okp (readi_loop ip off n s) (\<lambda>(x, t). I t)"
proof (induction n arbitrary: off s rule: less_induct)
  case (less n)
  then show ?case
    by (subst readi_loop.simps) (auto simp: Let_def intro!: binds inode_rules less.IH)
qed

lemma readi_I: "I s \<Longrightarrow> okp (readi ip off n s) (\<lambda>(x, y, t). I t)"
  by (auto simp: readi_def Let_def intro!: binds readi_loop_I consoleread_I)

lemma writei_loop_I: "I s \<Longrightarrow> okp (writei_loop ip off bs s) (\<lambda>(x, t). I t)"
proof (induction bs arbitrary: off s rule: measure_induct_rule [of length])
  case (less bs)
  then show ?case
    by (subst writei_loop.simps) (auto simp: Let_def intro!: binds inode_rules less.IH)
qed

lemma writei_I: "I s \<Longrightarrow> okp (writei ip bs off s) (\<lambda>(x, t). I t)"
  by (auto simp: writei_def Let_def intro!: binds writei_loop_I consolewrite_I inode_rules inode_I)

lemmas content_rules = inode_rules readi_I writei_I

lemma read_dirent_I: "I s \<Longrightarrow> okp (read_dirent dp off s) (\<lambda>(x, t). I t)"
  by (auto simp: read_dirent_def intro!: binds content_rules)

lemma dirlookup_I: "I s \<Longrightarrow> okp (dirlookup dp name s) (\<lambda>(x, t). I t)"
proof -
  have "I s \<Longrightarrow> okp (dirlookup_from dp name offs s) (\<lambda>(x, t). I t)" for offs
    by (induction offs arbitrary: s) (auto intro!: binds read_dirent_I content_rules)
  then show "I s \<Longrightarrow> ?thesis" by (simp add: dirlookup_def)
qed

lemma dir_free_I: "I s \<Longrightarrow> okp (dir_free_from dp offs e s) (\<lambda>(x, t). I t)"
  by (induction offs arbitrary: s) (auto intro!: binds read_dirent_I)

lemma dirlink_I: "I s \<Longrightarrow> okp (dirlink dp name n s) (\<lambda>(x, t). I t)"
  by (auto simp: dirlink_def Let_def intro!: binds dirlookup_I dir_free_I content_rules split: option.splits)

lemma namex_loop_I: "I s \<Longrightarrow> okp (namex_loop path par name ip s) (\<lambda>(x, y, t). I t)"
proof (induction path arbitrary: name ip s rule: measure_induct_rule [of length])
  case (less path)
  have "okp (namex_loop p par n i t) (\<lambda>(x, y, t). I t)" if "skipelem path name = Some (p, n)" "I t" for p n i t
    using less.IH [of p] skipelem_shorter [OF that(1)] that(2) by blast
  with less.prems show ?case
    by (subst namex_loop.simps)
      (auto intro!: binds dirlookup_I content_rules split: option.splits)
qed

lemma namex_I: "I s \<Longrightarrow> okp (namex path par name s) (\<lambda>(x, y, t). I t)"
  by (auto simp: namex_def idup_def intro!: binds content_rules namex_loop_I inode_I split: option.splits)

lemma namei_I: "I s \<Longrightarrow> okp (namei path s) (\<lambda>(x, t). I t)"
  by (auto simp: namei_def intro!: binds namex_I)

lemma nameiparent_I: "I s \<Longrightarrow> okp (nameiparent path name s) (\<lambda>(x, y, t). I t)"
  by (simp add: nameiparent_def namex_I)

lemma put_in_op_I: "I s \<Longrightarrow> okp (put_in_op ip s) I"
  by (auto simp: put_in_op_def intro!: binds content_rules)

lemmas fs_rules = content_rules namei_I nameiparent_I dirlookup_I dirlink_I put_in_op_I

end

section \<open>Pipes, pages and files\<close>

locale pipe_frame = fs_frame +
  assumes pipe_I: "I s \<Longrightarrow> I (upd_pipe p1 p2 s)"
    and page_I: "I s \<Longrightarrow> I (s\<lparr>mem := m, freelist := l\<rparr>)"
begin

lemma mem_I: "I s \<Longrightarrow> I (s\<lparr>mem := m\<rparr>)"
  using page_I [where s = s and m = m and l = "freelist s"] by (cases s) simp

lemma kfree_I: "I s \<Longrightarrow> okp (kfree p s) I"
  using page_I by (auto simp: kfree_def Let_def)

lemma kalloc_I: "I s \<Longrightarrow> kalloc s = (p, t) \<Longrightarrow> I t"
  using page_I [where s = s and m = "mem s" and l = "read32 (mem s) (freelist s)"] by (cases s) (auto simp: kalloc_def Let_def split: if_splits)

lemma walkpgdir_I: "I s \<Longrightarrow> walkpgdir d va al s = (p, t) \<Longrightarrow> I t"
  by (auto simp: walkpgdir_def Let_def intro!: mem_I dest: kalloc_I split: if_splits prod.splits)

lemma mappages_I: "I s \<Longrightarrow> okp (mappages d va n pa perm s) (\<lambda>(x, t). I t)"
proof -
  have "I s \<Longrightarrow> okp (mappages_loop k d a l pa perm s) (\<lambda>(x, t). I t)" for k a l pa
  proof (induction k arbitrary: a pa s)
    case (Suc k)
    obtain p t where w: "walkpgdir d a True s = (p, t)" by fastforce
    with walkpgdir_I [OF Suc.prems w] show ?case by (auto simp: Let_def intro!: Suc.IH mem_I)
  qed simp
  then show "I s \<Longrightarrow> ?thesis" by (simp add: mappages_def Let_def del: mappages_loop.simps)
qed

lemma setupkvm_I: "I s \<Longrightarrow> okp (setupkvm s) (\<lambda>(x, t). I t)"
proof -
  have "I s \<Longrightarrow> okp (setupkvm_loop d ks s) (\<lambda>(x, t). I t)" for d ks s
  proof (induction ks arbitrary: s)
    case (Cons k ks)
    then show ?case by (cases k) (auto intro!: bind2 mappages_I)
  qed simp
  moreover obtain p t where k: "kalloc s = (p, t)" by fastforce
  ultimately show "I s \<Longrightarrow> ?thesis"
    using kalloc_I [OF _ k] by (auto simp: setupkvm_def Let_def mem_I)
qed

lemma deallocuvm_I: "I s \<Longrightarrow> okp (deallocuvm d a b s) (\<lambda>(x, t). I t)"
proof -
  have "I s \<Longrightarrow> okp (deallocuvm_loop k d a b s) I" for k a b s
  proof (induction k arbitrary: a s)
    case (Suc k)
    obtain p t where w: "walkpgdir d a False s = (p, t)" by fastforce
    with walkpgdir_I [OF Suc.prems w] Suc.prems show ?case
      by (auto simp: Let_def intro!: Suc.IH bind1 kfree_I mem_I)
  qed simp
  then show "I s \<Longrightarrow> ?thesis" by (auto simp: deallocuvm_def simp del: deallocuvm_loop.simps intro!: bind1)
qed

lemma cprint_I: "I s \<Longrightarrow> I (cprint msg s)"
  by (simp add: cprint_def consputs_I)

lemma allocuvm_I: "I s \<Longrightarrow> okp (allocuvm d a b s) (\<lambda>(x, t). I t)"
proof -
  have "I s \<Longrightarrow> okp (allocuvm_loop k d a b c s) (\<lambda>(x, t). I t)" for k c
  proof (induction k arbitrary: c s)
    case (Suc k)
    obtain p t where w: "kalloc s = (p, t)" by fastforce
    with kalloc_I [OF Suc.prems w] Suc.prems show ?case
      by (auto simp: Let_def intro!: Suc.IH binds cprint_I kfree_I mem_I mappages_I deallocuvm_I)
  qed simp
  then show "I s \<Longrightarrow> ?thesis" by (auto simp: allocuvm_def simp del: allocuvm_loop.simps)
qed

lemma freevm_I: "I s \<Longrightarrow> okp (freevm d s) I"
  by (auto simp: freevm_def Let_def intro!: binds deallocuvm_I okp_for_each kfree_I)

lemma copyuvm_I: "I s \<Longrightarrow> okp (copyuvm d n s) (\<lambda>(x, t). I t)"
proof -
  have "I s \<Longrightarrow> okp (copyuvm_loop k d e i n s) (\<lambda>(x, t). I t)" for k e i s
  proof (induction k arbitrary: i s)
    case (Suc k)
    obtain p t where w: "walkpgdir d i False s = (p, t)" by fastforce
    obtain q u where k: "kalloc t = (q, u)" by fastforce
    have "I t" "I u" using walkpgdir_I [OF Suc.prems w] kalloc_I [OF _ k] by blast+
    with w k Suc.prems show ?case by (auto simp: Let_def intro!: Suc.IH binds mem_I mappages_I)
  qed simp
  then show "I s \<Longrightarrow> ?thesis"
    by (auto simp: copyuvm_def simp del: copyuvm_loop.simps intro!: binds setupkvm_I freevm_I)
qed

lemma pipeclose_I: "I s \<Longrightarrow> okp (pipeclose p w s) I"
  by (auto simp: pipeclose_def Let_def intro!: wakeup_I pipe_I kfree_I)

lemma ustore_I: "I s \<Longrightarrow> okp (ustore va bs s) I"
proof (induction bs arbitrary: va s)
  case (Cons b bs)
  then show ?case by (auto intro!: Cons.IH mem_I split: option.splits)
qed simp

lemma piperead_I: "I s \<Longrightarrow> okp (piperead p n s) (\<lambda>(x, y, t). I t)"
proof -
  obtain bs r where "pipe_take (nat n) (pipes s p) = (bs, r)" by fastforce
  then show "I s \<Longrightarrow> ?thesis" by (auto simp: piperead_def intro!: wakeup_I pipe_I)
qed

lemma pipewrite_I: "I s \<Longrightarrow> okp (pipewrite p n bs s) (\<lambda>(x, t). I t)"
proof -
  have "I s \<Longrightarrow> I (snd (pipewrite_loop p bs s))"
    by (induction bs arbitrary: s) (auto intro!: wakeup_I pipe_I)
  moreover obtain r t where "pipewrite_loop p bs s = (r, t)" by fastforce
  ultimately show "I s \<Longrightarrow> ?thesis" by (auto simp: pipewrite_def split: pwrite_out.splits)
qed

end

locale file_frame = pipe_frame +
  assumes file_I: "I s \<Longrightarrow> I (upd_file f1 f2 s)"
begin

lemma fileclose_I: "I s \<Longrightarrow> okp (fileclose f s) I"
  by (auto simp: fileclose_def Let_def intro!: file_I pipeclose_I put_in_op_I split: ftype.splits)

end

end
