(* ===== verification/Proc.thy ===== *)
theory Proc
  imports Sched Frame
begin

text \<open>
  The life of a process (\<^verbatim>\<open>proc.c\<close>): \<open>allocproc\<close>, \<open>userinit\<close>, \<open>growproc\<close>, \<open>fork\<close>, \<open>exit\<close>, \<open>wait\<close> and
  \<open>forkret\<close>. The context switches they end in are those of the theory \<open>Sched\<close>. The trap frame at the
  top of the kernel stack is the field \<open>tf\<close> of the process; the return address and the context below it
  are written to memory as in the source.
\<close>

section \<open>Creating a process\<close>

text \<open>\<^verbatim>\<open>sizeof(struct trapframe)\<close> and \<^verbatim>\<open>sizeof(struct context)\<close>\<close>

abbreviation (input) "tf_size \<equiv> (76 :: u32)"
abbreviation (input) "context_size \<equiv> (20 :: u32)"

definition init_signals :: "proc \<Rightarrow> proc" where
  "init_signals r = r\<lparr>pending := (\<lambda>i. if i < NUMSIG then 0 else pending r i),
     sighandlers := (\<lambda>i. if i < NUMSIG then defualtHandlerAdd else sighandlers r i),
     alarm_ticks_num := 0\<rparr>"

definition allocproc :: "kernel \<Rightarrow> (nat option \<times> kernel) res" where
  "allocproc s =
     (case first_slot NPROC (\<lambda>i. state (procs s i) = UNUSED) of
        None \<Rightarrow> Ok (None, s)
      | Some p \<Rightarrow>
          if nextpid s \<ge> 2 ^ 31 - 1 then Fault ''allocproc: nextpid overflows''
          else
            let s = upd_proc p (\<lambda>r. init_signals (r\<lparr>state := EMBRYO, pid := nextpid s\<rparr>))
                      (s\<lparr>nextpid := nextpid s + 1\<rparr>);
                (k, s) = kalloc s;
                s = upd_proc p (\<lambda>r. r\<lparr>kstack := k\<rparr>) s in
            if k = 0 then Ok (None, upd_proc p (\<lambda>r. r\<lparr>state := UNUSED\<rparr>) s)
            else
              let tfa = k + KSTACKSIZE - tf_size; sp = tfa - 4; ctx = sp - context_size;
                  m = write32 (mem s) sp (lk_trapret (lnk s));
                  m = write32 (memset ctx 0 context_size m) (ctx + 16) (lk_forkret (lnk s)) in
              Ok (Some p, upd_proc p (\<lambda>r. r\<lparr>tfp := tfa, ctxp := ctx, kont := AtForkret\<rparr>) (s\<lparr>mem := m\<rparr>)))"

text \<open>\<^verbatim>\<open>(SEG_UCODE << 3) | DPL_USER\<close>, \<^verbatim>\<open>(SEG_UDATA << 3) | DPL_USER\<close> and \<^verbatim>\<open>FL_IF\<close>\<close>

abbreviation (input) "user_cs \<equiv> (0x23 :: u16)"
abbreviation (input) "user_ds \<equiv> (0x2B :: u16)"
abbreviation (input) "FL_IF \<equiv> (0x200 :: u32)"

text \<open>\<open>initcode\<close> is the program that the build links into the kernel.\<close>

definition userinit :: "bytes \<Rightarrow> kernel \<Rightarrow> kernel res" where
  "userinit initcode s =
     kbind (allocproc s) (\<lambda>(p, s).
     let s = s\<lparr>initproc := p\<rparr> in
     case p of
       None \<Rightarrow> Fault ''userinit: null proc''
     | Some p \<Rightarrow>
         kbind (setupkvm s) (\<lambda>(d, s).
         let s = upd_proc p (\<lambda>r. r\<lparr>pgdir := d\<rparr>) s in
         if d = 0 then Panic ''userinit: out of memory?''
         else
           kbind (inituvm d initcode s) (\<lambda>s.
           let s = upd_proc p (\<lambda>r. r\<lparr>sz := PGSIZE,
                 tf := zero_tf\<lparr>tf_cs := user_cs, tf_ds := user_ds, tf_es := user_ds, tf_ss := user_ds,
                   tf_eflags := FL_IF, tf_esp := PGSIZE, tf_eip := 0\<rparr>,
                 pname := safestrcpy (pname r) (cstr_of (str ''initcode'')) 16\<rparr>) s in
           kbind (namei (str ''/'') s) (\<lambda>(c, s).
             Ok (upd_proc p (\<lambda>r. r\<lparr>cwd := c, state := RUNNABLE\<rparr>) s)))))"

section \<open>Memory of a process\<close>

definition growproc :: "int \<Rightarrow> kernel \<Rightarrow> (int \<times> kernel) res" where
  "growproc n s =
     with_proc s (\<lambda>p.
       let r = procs s p; osz = sz r; finish = (\<lambda>nsz s.
             kbind (switchuvm p (upd_proc p (\<lambda>r. r\<lparr>sz := nsz\<rparr>) s)) (\<lambda>s. Ok (0, s))) in
       if n > 0 then
         kbind (allocuvm (pgdir r) osz (osz + word_of_int n) s) (\<lambda>(nsz, s).
           if nsz = 0 then Ok (-1, s) else finish nsz s)
       else if n < 0 then
         kbind (deallocuvm (pgdir r) osz (osz + word_of_int n) s) (\<lambda>(nsz, s).
           if nsz = 0 then Ok (-1, s) else finish nsz s)
       else finish osz s)"

section \<open>Fork\<close>

definition fork_file :: "nat \<Rightarrow> nat \<Rightarrow> nat \<Rightarrow> kernel \<Rightarrow> kernel res" where
  "fork_file c np i s =
     (case ofile (procs s c) i of
        None \<Rightarrow> Ok s
      | Some f \<Rightarrow>
          kbind (filedup f s) (\<lambda>s. Ok (upd_proc np (\<lambda>r. r\<lparr>ofile := (ofile r)(i := Some f)\<rparr>) s)))"

definition fork :: "kernel \<Rightarrow> (int \<times> kernel) res" where
  "fork s =
     with_proc s (\<lambda>c.
     kbind (allocproc s) (\<lambda>(np, s).
     case np of
       None \<Rightarrow> Ok (-1, s)
     | Some np \<Rightarrow>
         kbind (copyuvm (pgdir (procs s c)) (sz (procs s c)) s) (\<lambda>(d, s).
         let s = upd_proc np (\<lambda>r. r\<lparr>pgdir := d\<rparr>) s in
         if d = 0 then
           kbind (kfree (kstack (procs s np)) s) (\<lambda>s.
             Ok (-1, upd_proc np (\<lambda>r. r\<lparr>kstack := 0, state := UNUSED\<rparr>) s))
         else
           let q = procs s c;
               s = upd_proc np (\<lambda>r. r\<lparr>sz := sz q, parent := Some c, tf := (tf q)\<lparr>tf_eax := 0\<rparr>,
                 alarm_ticks_num := alarm_ticks_num q\<rparr>) s in
           kbind (for_each (fork_file c np) [0..<NOFILE] s) (\<lambda>s.
           case cwd (procs s c) of
             None \<Rightarrow> Fault ''idup: null inode''
           | Some ip \<Rightarrow>
               let (ip, s) = idup ip s;
                   s = upd_proc np (\<lambda>r. r\<lparr>cwd := Some ip,
                     pname := safestrcpy (pname r) (cstr_of (pname (procs s c))) 16\<rparr>) s in
               Ok (pid (procs s np), upd_proc np (\<lambda>r. r\<lparr>state := RUNNABLE\<rparr>) s)))))"

section \<open>Exit and wait\<close>

definition proc_chan :: "nat option \<Rightarrow> chan" where
  "proc_chan p = (case p of None \<Rightarrow> ChNull | Some p \<Rightarrow> ChProc p)"

definition exit_file :: "nat \<Rightarrow> nat \<Rightarrow> kernel \<Rightarrow> kernel res" where
  "exit_file c fd s =
     (case ofile (procs s c) fd of
        None \<Rightarrow> Ok s
      | Some f \<Rightarrow>
          kbind (fileclose f s) (\<lambda>s. Ok (upd_proc c (\<lambda>r. r\<lparr>ofile := (ofile r)(fd := None)\<rparr>) s)))"

text \<open>Pass the child in slot \<open>i\<close> of \<open>c\<close> to \<^verbatim>\<open>init\<close>.\<close>

definition adopt :: "nat option \<Rightarrow> nat \<Rightarrow> nat \<Rightarrow> (nat \<Rightarrow> proc) \<Rightarrow> nat \<Rightarrow> proc" where
  "adopt init c i ps =
     (if parent (ps i) = Some c then
        let ps = ps(i := (ps i)\<lparr>parent := init\<rparr>) in
        if state (ps i) = ZOMBIE then wakeup1 (proc_chan init) ps else ps
      else ps)"

definition exit :: "kernel \<Rightarrow> kernel res" where
  "exit s =
     with_proc s (\<lambda>c.
       if initproc s = Some c then Panic ''init exiting''
       else
         kbind (for_each (exit_file c) [0..<NOFILE] s) (\<lambda>s.
         case cwd (procs s c) of
           None \<Rightarrow> Fault ''iput: null inode''
         | Some ip \<Rightarrow>
             kbind (put_in_op ip s) (\<lambda>s.
             kbind (acquire_lk LPtable (upd_proc c (\<lambda>r. r\<lparr>cwd := None\<rparr>) s)) (\<lambda>s.
             let ps = wakeup1 (proc_chan (parent (procs s c))) (procs s);
                 ps = fold (adopt (initproc s) c) [0..<NPROC] ps;
                 ps = ps(c := (ps c)\<lparr>state := ZOMBIE\<rparr>) in
             sched InExit (s\<lparr>procs := ps\<rparr>)))))"

definition clear_proc :: "proc \<Rightarrow> proc" where
  "clear_proc r = r\<lparr>pid := 0, parent := None, pname := (pname r)[0 := 0], killed := False,
     state := UNUSED\<rparr>"

text \<open>
  One round of the loop of \<open>wait\<close>, with \<^verbatim>\<open>ptable.lock\<close> held: \<open>Some r\<close> when the call returns \<open>r\<close>, and
  \<open>None\<close> when the process has gone to sleep; it runs \<open>wait_loop\<close> again when it is resumed.
\<close>

definition wait_loop :: "kernel \<Rightarrow> (int option \<times> kernel) res" where
  "wait_loop s =
     with_proc s (\<lambda>c.
       case first_slot NPROC (\<lambda>i. parent (procs s i) = Some c \<and> state (procs s i) = ZOMBIE) of
         Some p \<Rightarrow>
           let n = pid (procs s p) in
           kbind (kfree (kstack (procs s p)) s) (\<lambda>s.
           kbind (freevm (pgdir (procs s p)) (upd_proc p (\<lambda>r. r\<lparr>kstack := 0\<rparr>) s)) (\<lambda>s.
           kbind (release_lk LPtable (upd_proc p clear_proc s)) (\<lambda>s. Ok (Some n, s))))
       | None \<Rightarrow>
           if first_slot NPROC (\<lambda>i. parent (procs s i) = Some c) = None \<or> killed (procs s c)
           then kbind (release_lk LPtable s) (\<lambda>s. Ok (Some (-1), s))
           else kbind (sleep (ChProc c) LPtable s) (\<lambda>s. Ok (None, s)))"

definition wait :: "kernel \<Rightarrow> (int option \<times> kernel) res" where
  "wait s = kbind (acquire_lk LPtable s) wait_loop"

text \<open>
  A new process starts in \<open>forkret\<close>, with \<^verbatim>\<open>ptable.lock\<close> held by the scheduler; the first one also
  starts the file system.
\<close>

definition forkret :: "kernel \<Rightarrow> kernel res" where
  "forkret s =
     kbind (release_lk LPtable s) (\<lambda>s.
       if forkret_first s then
         kbind (iinit ROOTDEV (s\<lparr>forkret_first := False\<rparr>)) (initlog ROOTDEV)
       else Ok s)"

end
