(* ===== verification/Syscall.thy ===== *)
theory Syscall
  imports Proc
begin

text \<open>
  Arguments of system calls (\<^verbatim>\<open>syscall.c\<close>) and the process system calls (\<^verbatim>\<open>sysproc.c\<close> and \<open>sys_alarm\<close> of
  \<^verbatim>\<open>trap.c\<close>). A fetch returns \<open>None\<close> where the source returns -1; the memory it reads is that of the
  current process, through the page table in use. A system call returns \<open>Some v\<close> with the value for
  \<^verbatim>\<open>%eax\<close>, or \<open>None\<close> when the process has left the processor, asleep or as a zombie.
\<close>

section \<open>Arguments\<close>

definition fetchint :: "u32 \<Rightarrow> kernel \<Rightarrow> u32 option res" where
  "fetchint addr s =
     with_proc s (\<lambda>p.
       if addr \<ge> sz (procs s p) \<or> addr + 4 > sz (procs s p) then Ok None
       else kbind (uload32 addr s) (\<lambda>v. Ok (Some v)))"

text \<open>The characters from \<open>a\<close> up to a NUL among the next \<open>n\<close> bytes.\<close>

fun fetchstr_loop :: "nat \<Rightarrow> u32 \<Rightarrow> kernel \<Rightarrow> bytes option res" where
  "fetchstr_loop 0 a s = Ok None"
| "fetchstr_loop (Suc n) a s =
     kbind (uload a 1 s) (\<lambda>c.
       if hd c = 0 then Ok (Some [])
       else kbind (fetchstr_loop n (a + 1) s) (\<lambda>r. Ok (map_option (\<lambda>cs. hd c # cs) r)))"

definition fetchstr :: "u32 \<Rightarrow> kernel \<Rightarrow> bytes option res" where
  "fetchstr addr s =
     with_proc s (\<lambda>p.
       if addr \<ge> sz (procs s p) then Ok None
       else fetchstr_loop (unat (sz (procs s p)) - unat addr) addr s)"

definition argint :: "nat \<Rightarrow> kernel \<Rightarrow> u32 option res" where
  "argint n s =
     with_proc s (\<lambda>p. fetchint (tf_esp (tf (procs s p)) + 4 + 4 * word_of_nat n) s)"

definition argptr :: "nat \<Rightarrow> int \<Rightarrow> kernel \<Rightarrow> u32 option res" where
  "argptr n sze s =
     kbind (argint n s) (\<lambda>r.
       case r of
         None \<Rightarrow> Ok None
       | Some i \<Rightarrow> with_proc s (\<lambda>p.
           if sze < 0 \<or> i \<ge> sz (procs s p) \<or> i + word_of_int sze > sz (procs s p) then Ok None
           else Ok (Some i)))"

definition argstr :: "nat \<Rightarrow> kernel \<Rightarrow> bytes option res" where
  "argstr n s =
     kbind (argint n s) (\<lambda>r. case r of None \<Rightarrow> Ok None | Some addr \<Rightarrow> fetchstr addr s)"

section \<open>System calls\<close>

type_synonym syscall = "kernel \<Rightarrow> (u32 option \<times> kernel) res"

text \<open>\<^verbatim>\<open>if(m < 0) return -1;\<close> and then the rest with the value fetched.\<close>

definition with_arg :: "'a option res \<Rightarrow> kernel \<Rightarrow> ('a \<Rightarrow> (u32 option \<times> kernel) res) \<Rightarrow> (u32 option \<times> kernel) res" where
  "with_arg m s f = kbind m (\<lambda>r. case r of None \<Rightarrow> Ok (Some (-1), s) | Some v \<Rightarrow> f v)"

definition ret :: "(int \<times> kernel) res \<Rightarrow> (u32 option \<times> kernel) res" where
  "ret m = kbind m (\<lambda>(r, s). Ok (Some (word_of_int r), s))"

definition sys_fork :: syscall where
  "sys_fork s = ret (fork s)"

definition sys_exit :: syscall where
  "sys_exit s = kbind (exit s) (\<lambda>s. Ok (None, s))"

definition sys_wait :: syscall where
  "sys_wait s = kbind (wait s) (\<lambda>(r, s). Ok (map_option word_of_int r, s))"

definition sys_kill :: syscall where
  "sys_kill s = with_arg (argint 0 s) s (\<lambda>n. ret (Ok (kill (sint n) s)))"

definition sys_getpid :: syscall where
  "sys_getpid s = with_proc s (\<lambda>p. ret (Ok (pid (procs s p), s)))"

definition sys_sbrk :: syscall where
  "sys_sbrk s =
     with_arg (argint 0 s) s (\<lambda>n.
       with_proc s (\<lambda>p.
         kbind (growproc (sint n) s) (\<lambda>(r, s').
           Ok (Some (if r < 0 then -1 else sz (procs s p)), s'))))"

text \<open>
  The loop of \<open>sys_sleep\<close>, with \<^verbatim>\<open>tickslock\<close> held; \<open>n\<close> is compared as an unsigned number. A process
  that has slept runs it again.
\<close>

definition sys_sleep_loop :: "u32 \<Rightarrow> u32 \<Rightarrow> syscall" where
  "sys_sleep_loop ticks0 n s =
     (if ticks s - ticks0 < n then
        with_proc s (\<lambda>p.
          if killed (procs s p) then kbind (release_lk LTicks s) (\<lambda>s. Ok (Some (-1), s))
          else kbind (sleep ChTicks LTicks s) (\<lambda>s. Ok (None, s)))
      else kbind (release_lk LTicks s) (\<lambda>s. Ok (Some 0, s)))"

definition sys_sleep :: syscall where
  "sys_sleep s =
     with_arg (argint 0 s) s (\<lambda>n.
       kbind (acquire_lk LTicks s) (\<lambda>s. sys_sleep_loop (ticks s) n s))"

definition sys_uptime :: syscall where
  "sys_uptime s = Ok (Some (ticks s), s)"

definition sys_signal :: syscall where
  "sys_signal s =
     with_proc s (\<lambda>p.
     kbind (cprintf ''sysproc.c : sys_signal nom  for process %d \<newline>''
         [PInt (word_of_int (pid (procs s p)))] s) (\<lambda>s.
       with_arg (argint 0 s) s (\<lambda>sig_Num.
       with_arg (argint 1 s) s (\<lambda>handler.
         kbind (signal (sint sig_Num) handler s) (\<lambda>(h, s). Ok (Some h, s))))))"

text \<open>
  The third test of \<open>sys_sigsend\<close> compares the return code of \<open>argint\<close>, which is never positive, with
  \<^verbatim>\<open>NUMSIG\<close>: it never holds.
\<close>

definition sys_sigsend :: syscall where
  "sys_sigsend s =
     with_proc s (\<lambda>p.
     kbind (cprintf ''sysproc.c : sys_sigsend nom.  for process %d \<newline>''
         [PInt (word_of_int (pid (procs s p)))] s) (\<lambda>s.
       with_arg (argint 0 s) s (\<lambda>Pid.
       with_arg (argint 1 s) s (\<lambda>sig_Num.
         ret (Ok (sigsend (sint Pid) (sint sig_Num) s))))))"

definition sys_sigreturn :: syscall where
  "sys_sigreturn s =
     with_proc s (\<lambda>p.
     kbind (cprintf ''sysproc.c : sys_sigreturn for process %d \<newline>''
         [PInt (word_of_int (pid (procs s p)))] s) (\<lambda>s. ret (sigreturn s)))"

text \<open>
  \<open>sys_alarm\<close> is a \<^verbatim>\<open>void\<close> function that \<open>syscall\<close> calls as one that returns a value: the value is what
  the compiled code happens to leave in \<^verbatim>\<open>%eax\<close>, here the argument \<open>eax\<close>.
\<close>

definition sys_alarm :: "u32 \<Rightarrow> syscall" where
  "sys_alarm eax s =
     kbind (argint 0 s) (\<lambda>r.
       case r of
         None \<Rightarrow> Ok (Some eax, s)
       | Some n \<Rightarrow> with_proc s (\<lambda>p.
           Ok (Some eax, upd_proc p (\<lambda>r. r\<lparr>alarm_ticks_num := sint n\<rparr>) s)))"

section \<open>Pointers of the user\<close>

lemma uload_Suc_iff: "uload a (Suc n) s = Ok bs \<longleftrightarrow> (\<exists>c cs. uload a 1 s = Ok [c] \<and> uload (a + 1) n s = Ok cs \<and> bs = c # cs)"
  by (auto simp: split: option.splits)

lemma fetchstr_loop_ok:
  "fetchstr_loop n a s = Ok (Some cs) \<Longrightarrow>
    length cs < n \<and> 0 \<notin> set cs \<and> uload a (Suc (length cs)) s = Ok (cs @ [0])"
proof (induction n arbitrary: a cs)
  case (Suc n)
  then obtain d where d: "uload a 1 s = Ok d" by auto
  then obtain c where c: "d = [c]" by (auto split: option.splits)
  show ?case
  proof (cases "c = 0")
    case True
    then show ?thesis using Suc.prems d c by simp
  next
    case False
    then obtain ds where ds: "fetchstr_loop n (a + 1) s = Ok (Some ds)" "cs = c # ds"
      using Suc.prems d c by auto
    from Suc.IH [OF ds(1)] have ih: "length ds < n" "0 \<notin> set ds"
      "uload (a + 1) (Suc (length ds)) s = Ok (ds @ [0])" by blast+
    have "uload a (Suc (Suc (length ds))) s = Ok (c # ds @ [0])"
      unfolding uload_Suc_iff [of a "Suc (length ds)"] using d c ih(3) by blast
    then show ?thesis using False ih(1,2) ds(2) by (simp del: uload.simps)
  qed
qed simp

lemma u32_range:
  assumes "(a :: u32) < z" "z \<le> KERNBASE" "n < 2147483648" "\<not> z < a + word_of_nat n"
  shows "unat a + n \<le> unat z"
proof -
  have "unat a < 2147483648" using assms(1,2) by (simp add: word_less_nat_alt word_le_nat_alt)
  then have "unat (a + word_of_nat n) = unat a + n"
    using assms(3) by (simp add: unat_word_ariths unat_of_nat take_bit_nat_eq_self)
  then show ?thesis using assms(4) by (simp add: word_less_nat_alt)
qed

lemma argptr_range:
  assumes "argptr n len s = Ok (Some a)" "cur s = Some c" "sz (procs s c) \<le> KERNBASE" "len < 2 ^ 31"
  shows "0 \<le> len \<and> a < sz (procs s c) \<and> unat a + nat len \<le> unat (sz (procs s c))"
proof -
  define z where "z = sz (procs s c)"
  have "\<not> (len < 0 \<or> a \<ge> z \<or> a + word_of_int len > z)"
  proof
    assume "len < 0 \<or> a \<ge> z \<or> a + word_of_int len > z"
    moreover obtain i where "(if len < 0 \<or> i \<ge> z \<or> i + word_of_int len > z then Ok None else Ok (Some i)) = Ok (Some a)"
      using assms(1,2) unfolding z_def argptr_def kbind_Ok_iff with_proc_def by (force split: option.split_asm)
    ultimately show False by (metis option.distinct(1) option.inject res.inject(1))
  qed
  then have h: "0 \<le> len" "a < z" "\<not> z < a + word_of_int len" by auto
  then have "\<not> z < a + word_of_nat (nat len)" by simp
  moreover have "nat len < 2147483648" using assms(4) h(1) by simp
  ultimately have "unat a + nat len \<le> unat z" using u32_range [OF h(2)] assms(3) by (simp add: z_def)
  then show ?thesis using h(1,2) by (simp add: z_def)
qed

section \<open>Properties\<close>

text \<open>C17: No pointer taken from a system call leaves the process: when argptr accepts a buffer, when fetchint reads a word and when fetchstr finds a string, every byte of it lies below the size of the process, without wrap-around, and the string returned is exactly the bytes up to the first NUL.\<close>

theorem user_pointers_checked:
  assumes "cur s = Some c" and "sz (procs s c) \<le> KERNBASE" and "len < 2 ^ 31"
  shows "(argptr n len s = Ok (Some a) \<longrightarrow>
      0 \<le> len \<and> a < sz (procs s c) \<and> unat a + nat len \<le> unat (sz (procs s c))) \<and>
    (fetchint b s = Ok (Some v) \<longrightarrow> unat b + 4 \<le> unat (sz (procs s c)) \<and> uload32 b s = Ok v) \<and>
    (fetchstr b s = Ok (Some cs) \<longrightarrow> unat b + length cs < unat (sz (procs s c)) \<and> 0 \<notin> set cs \<and>
      uload b (Suc (length cs)) s = Ok (cs @ [0]))"
proof (intro conjI impI)
  assume "fetchint b s = Ok (Some v)"
  then have "b < sz (procs s c)" "\<not> sz (procs s c) < b + word_of_nat 4" "uload32 b s = Ok v"
    using assms(1) by (auto simp: fetchint_def split: if_splits)
  then show "unat b + 4 \<le> unat (sz (procs s c))" "uload32 b s = Ok v"
    using u32_range [of b _ 4] assms(2) by auto
next
  assume f: "fetchstr b s = Ok (Some cs)"
  then have lt: "b < sz (procs s c)"
    and l: "fetchstr_loop (unat (sz (procs s c)) - unat b) b s = Ok (Some cs)"
    using assms(1) by (auto simp: fetchstr_def split: if_splits)
  show "unat b + length cs < unat (sz (procs s c))" "0 \<notin> set cs"
    "uload b (Suc (length cs)) s = Ok (cs @ [0])"
    using fetchstr_loop_ok [OF l] lt by (auto simp: word_less_nat_alt simp del: uload.simps)
qed (use argptr_range [OF _ assms] in blast)+

definition demo_caller :: kernel where
  "demo_caller = demo_user (zero_proc\<lparr>sz := 0x3000, tf := zero_tf\<lparr>tf_esp := 0x2F80\<rparr>\<rparr>)"

lemma demo_caller_arg: "argint 0 demo_caller = Ok (Some 0)"
proof -
  have "uload32 (0x2000 + word_of_nat 0xF84) demo_caller = Ok (uword demo_caller 0x80202000 0xF84)"
    unfolding demo_caller_def by (rule uword_load [OF demo_user_page]) (simp_all add: pga_def)
  moreover have "uword demo_caller 0x80202000 0xF84 = 0"
    by (simp add: uword_def demo_caller_def demo_mem_def read32_write32_apart apart_def)
      (simp add: read32_def load_bytes_def of_le32_def eval_nat_numeral)
  ultimately show ?thesis
    by (simp add: argint_def fetchint_def with_proc_def) (simp add: demo_caller_def)
qed

theorem user_pointers_checked_witness:
  "argptr 0 8 demo_caller = Ok (Some 0) \<and> cur demo_caller = Some 0 \<and>
    unat (0 :: u32) + nat 8 \<le> unat (sz (procs demo_caller 0))"
proof -
  have a: "argptr 0 8 demo_caller = Ok (Some 0)" "cur demo_caller = Some 0" "sz (procs demo_caller 0) = 0x3000"
    using demo_caller_arg by (simp_all add: argptr_def with_proc_def demo_caller_def)
  with user_pointers_checked [of demo_caller 0 8 0 0 0 0 "[]"] show ?thesis by simp
qed

end
