(* ===== verification/Exec.thy ===== *)
theory Exec
  imports Syscall
begin

text \<open>
  Running a program: the structures of \<^verbatim>\<open>elf.h\<close>, \<open>loaduvm\<close> of \<^verbatim>\<open>vm.c\<close> and \<^verbatim>\<open>exec.c\<close>. The path and the
  arguments are strings that \<open>sys_exec\<close> has fetched; \<open>None\<close> stands for the jump to \<^verbatim>\<open>bad\<close>.
\<close>

section \<open>ELF files\<close>

record elfhdr =
  e_magic :: u32
  e_elf :: bytes
  e_type :: u16
  e_machine :: u16
  e_version :: u32
  e_entry :: u32
  e_phoff :: u32
  e_shoff :: u32
  e_flags :: u32
  e_ehsize :: u16
  e_phentsize :: u16
  e_phnum :: u16
  e_shentsize :: u16
  e_shnum :: u16
  e_shstrndx :: u16

record proghdr =
  ph_type :: u32
  ph_off :: u32
  ph_vaddr :: u32
  ph_paddr :: u32
  ph_filesz :: u32
  ph_memsz :: u32
  ph_flags :: u32
  ph_align :: u32

abbreviation (input) "ELF_MAGIC \<equiv> (0x464C457F :: u32)"
abbreviation (input) "ELF_PROG_LOAD \<equiv> (1 :: u32)"
abbreviation (input) "elfhdr_size \<equiv> (52 :: u32)"
abbreviation (input) "proghdr_size \<equiv> (32 :: u32)"

definition dec_elfhdr :: "bytes \<Rightarrow> elfhdr" where
  "dec_elfhdr b = (let w = (\<lambda>k. of_le32 (slice k 4 b)); h = (\<lambda>k. of_le16 (slice k 2 b)) in
     \<lparr>e_magic = w 0, e_elf = slice 4 12 b, e_type = h 16, e_machine = h 18, e_version = w 20, e_entry = w 24, e_phoff = w 28,
      e_shoff = w 32, e_flags = w 36, e_ehsize = h 40, e_phentsize = h 42, e_phnum = h 44,
      e_shentsize = h 46, e_shnum = h 48, e_shstrndx = h 50\<rparr>)"

definition dec_proghdr :: "bytes \<Rightarrow> proghdr" where
  "dec_proghdr b = (let w = (\<lambda>k. of_le32 (slice k 4 b)) in
     \<lparr>ph_type = w 0, ph_off = w 4, ph_vaddr = w 8, ph_paddr = w 12, ph_filesz = w 16, ph_memsz = w 20,
      ph_flags = w 24, ph_align = w 28\<rparr>)"

section \<open>Loading a segment\<close>

text \<open>
  The pages of the segment by number; \<^verbatim>\<open>exec\<close> only calls \<open>loaduvm\<close> with \<open>sz\<close> below \<^verbatim>\<open>KERNBASE\<close>, where
  the offset \<^verbatim>\<open>i\<close> does not wrap around.
\<close>

fun loaduvm_loop :: "u32 \<Rightarrow> u32 \<Rightarrow> nat \<Rightarrow> u32 \<Rightarrow> u32 \<Rightarrow> nat list \<Rightarrow> kernel \<Rightarrow> (int \<times> kernel) res" where
  "loaduvm_loop pgd addr ip off sze [] s = Ok (0, s)"
| "loaduvm_loop pgd addr ip off sze (k # ks) s =
     (let i = word_of_nat (k * 4096); (pte, s) = walkpgdir pgd (addr + i) False s in
      if pte = 0 then Panic ''loaduvm: address should exist''
      else
        let pa = PTE_ADDR (read32 (mem s) pte); n = (if sze - i < PGSIZE then sze - i else PGSIZE) in
        kbind (readi ip (off + i) n s) (\<lambda>(r, bs, s).
        let s = s\<lparr>mem := store_bytes (mem s) (P2V pa) bs\<rparr> in
        if word_of_int r \<noteq> n then Ok (-1, s) else loaduvm_loop pgd addr ip off sze ks s))"

definition loaduvm :: "u32 \<Rightarrow> u32 \<Rightarrow> nat \<Rightarrow> u32 \<Rightarrow> u32 \<Rightarrow> kernel \<Rightarrow> (int \<times> kernel) res" where
  "loaduvm pgd addr ip off sze s =
     (if addr mod PGSIZE \<noteq> 0 then Panic ''loaduvm: addr must be page aligned''
      else loaduvm_loop pgd addr ip off sze [0..<(unat sze + 4095) div 4096] s)"

fun exec_load :: "nat \<Rightarrow> u32 \<Rightarrow> nat \<Rightarrow> u32 \<Rightarrow> u32 \<Rightarrow> kernel \<Rightarrow> (u32 option \<times> kernel) res" where
  "exec_load 0 off ip pgd sze s = Ok (Some sze, s)"
| "exec_load (Suc n) off ip pgd sze s =
     kbind (readi ip off proghdr_size s) (\<lambda>(r, bs, s).
     let ph = dec_proghdr bs in
     if r \<noteq> uint proghdr_size then Ok (None, s)
     else if ph_type ph \<noteq> ELF_PROG_LOAD then exec_load n (off + proghdr_size) ip pgd sze s
     else if ph_memsz ph < ph_filesz ph then Ok (None, s)
     else if ph_vaddr ph + ph_memsz ph < ph_vaddr ph then Ok (None, s)
     else
       kbind (allocuvm pgd sze (ph_vaddr ph + ph_memsz ph) s) (\<lambda>(sze, s).
       if sze = 0 then Ok (None, s)
       else if ph_vaddr ph mod PGSIZE \<noteq> 0 then Ok (None, s)
       else
         kbind (loaduvm pgd (ph_vaddr ph) ip (ph_off ph) (ph_filesz ph) s) (\<lambda>(r, s).
         if r < 0 then Ok (None, s) else exec_load n (off + proghdr_size) ip pgd sze s)))"

section \<open>Building the stack\<close>

text \<open>The code between \<^verbatim>\<open>sigretimplicit\<close> and \<^verbatim>\<open>alltraps\<close> in \<^verbatim>\<open>trapasm.S\<close>: \<^verbatim>\<open>addl $4,%esp; ret\<close>.\<close>

definition sigretimplicit :: bytes where
  "sigretimplicit = [0x83, 0xC4, 0x04, 0xC3]"

text \<open>Push the argument strings; \<open>us\<close> is what is in \<^verbatim>\<open>ustack\<close> from index 3 on.\<close>

fun exec_args :: "bytes list \<Rightarrow> u32 \<Rightarrow> u32 list \<Rightarrow> u32 \<Rightarrow> kernel \<Rightarrow> ((u32 \<times> u32 list) option \<times> kernel) res" where
  "exec_args [] sp us pgd s = Ok (Some (sp, us), s)"
| "exec_args (a # argv) sp us pgd s =
     (if length us \<ge> MAXARG then Ok (None, s)
      else
        let sp = (sp - word_of_nat (length a + 1)) AND NOT 3 in
        kbind (copyout pgd sp (a @ [0]) s) (\<lambda>(r, s).
          if r < 0 then Ok (None, s) else exec_args argv sp (us @ [sp]) pgd s))"

definition exec_ustack :: "u32 \<Rightarrow> u32 list \<Rightarrow> u32 list" where
  "exec_ustack sp us =
     [0xFFFFFFFF, word_of_nat (length us), sp - word_of_nat ((length us + 1) * 4)] @ us @ [0]"

definition last_name :: "bytes \<Rightarrow> bytes" where
  "last_name path = rev (takeWhile (\<lambda>c. c \<noteq> SLASH) (rev path))"

section \<open>Exec\<close>

definition exec_bad :: "u32 \<Rightarrow> nat option \<Rightarrow> kernel \<Rightarrow> (int \<times> kernel) res" where
  "exec_bad pgd ip s =
     kbind (if pgd \<noteq> 0 then freevm pgd s else Ok s) (\<lambda>s.
       case ip of
         None \<Rightarrow> Ok (-1, s)
       | Some ip \<Rightarrow> kbind (iunlockput ip s) (\<lambda>s. kbind (end_op s) (\<lambda>s. Ok (-1, s))))"

text \<open>
  The second half of \<open>exec\<close>, after the inode has been released: the stack, and the switch to the new
  image. \<open>sze\<close> is the size of the loaded segments.
\<close>

definition exec_image :: "bytes \<Rightarrow> bytes list \<Rightarrow> u32 \<Rightarrow> u32 \<Rightarrow> u32 \<Rightarrow> kernel \<Rightarrow> (int \<times> kernel) res" where
  "exec_image path argv pgd sze entry s =
     with_proc s (\<lambda>p.
     kbind (allocuvm pgd (PGROUNDUP sze) (PGROUNDUP sze + 2 * PGSIZE) s) (\<lambda>(sze, s).
     if sze = 0 then exec_bad pgd None s
     else
       kbind (clearpteu pgd (sze - 2 * PGSIZE) s) (\<lambda>s.
       let sp = sze - word_of_nat (length sigretimplicit) in
       kbind (copyout pgd sp sigretimplicit s) (\<lambda>(_, s).
       let s = upd_proc p (\<lambda>r. r\<lparr>sigretAdd := sp, procHandlingSigNow := 0\<rparr>) s in
       kbind (exec_args argv sp [] pgd s) (\<lambda>(r, s).
       case r of
         None \<Rightarrow> exec_bad pgd None s
       | Some (sp, us) \<Rightarrow>
           let st = exec_ustack sp us; sp = sp - word_of_nat ((3 + length us + 1) * 4) in
           kbind (copyout pgd sp (concat (map le32 st)) s) (\<lambda>(r, s).
           if r < 0 then exec_bad pgd None s
           else
             let oldpgdir = pgdir (procs s p);
                 s = upd_proc p (\<lambda>r. r\<lparr>pname := safestrcpy (pname r) (cstr_of (last_name path)) 16,
                   pgdir := pgd, sz := sze, tf := (tf r)\<lparr>tf_eip := entry, tf_esp := sp\<rparr>\<rparr>) s in
             kbind (switchuvm p s) (\<lambda>s.
             kbind (freevm oldpgdir s) (\<lambda>s. Ok (0, s)))))))))"

text \<open>
  The first comparison is between an unsigned and a signed number: a failing \<open>readi\<close> (-1) passes it
  and the header is used uninitialised.
\<close>

definition exec :: "bytes \<Rightarrow> bytes list \<Rightarrow> kernel \<Rightarrow> (int \<times> kernel) res" where
  "exec path argv s =
     kbind (begin_op s) (\<lambda>s.
     kbind (namei path s) (\<lambda>(ip, s).
     case ip of
       None \<Rightarrow> kbind (end_op s) (\<lambda>s. Ok (-1, s))
     | Some ip \<Rightarrow>
         kbind (ilock ip s) (\<lambda>s.
         kbind (readi ip 0 elfhdr_size s) (\<lambda>(r, bs, s).
         if word_of_int r < elfhdr_size then exec_bad 0 (Some ip) s
         else if r < 0 then Fault ''exec: uninitialised header''
         else
           let elf = dec_elfhdr bs in
           if e_magic elf \<noteq> ELF_MAGIC then exec_bad 0 (Some ip) s
           else
             kbind (setupkvm s) (\<lambda>(pgd, s).
             if pgd = 0 then exec_bad 0 (Some ip) s
             else
               kbind (exec_load (unat (e_phnum elf)) (e_phoff elf) ip pgd 0 s) (\<lambda>(r, s).
               case r of
                 None \<Rightarrow> exec_bad pgd (Some ip) s
               | Some sze \<Rightarrow>
                   kbind (iunlockput ip s) (\<lambda>s.
                   kbind (end_op s) (exec_image path argv pgd sze (e_entry elf)))))))))"

end
