(* ===== verification/Sysfile.thy ===== *)
theory Sysfile
  imports Exec
begin

text \<open>
  The file system calls (\<^verbatim>\<open>sysfile.c\<close>). Buffers of the user are loaded before a write and stored after a
  read; the paths are fetched once. The labels \<^verbatim>\<open>bad\<close> of the source are definitions of their own.
\<close>

section \<open>File descriptors\<close>

definition argfd :: "nat \<Rightarrow> kernel \<Rightarrow> (nat \<times> nat) option res" where
  "argfd n s =
     kbind (argint n s) (\<lambda>r.
       case r of
         None \<Rightarrow> Ok None
       | Some w \<Rightarrow> with_proc s (\<lambda>p.
           let fd = sint w in
           if fd < 0 \<or> fd \<ge> int NOFILE then Ok None
           else Ok (map_option (\<lambda>f. (nat fd, f)) (ofile (procs s p) (nat fd)))))"

definition set_ofile :: "nat \<Rightarrow> nat \<Rightarrow> nat option \<Rightarrow> kernel \<Rightarrow> kernel" where
  "set_ofile p fd f s = upd_proc p (\<lambda>r. r\<lparr>ofile := (ofile r)(fd := f)\<rparr>) s"

definition fdalloc :: "nat \<Rightarrow> kernel \<Rightarrow> (nat option \<times> kernel) res" where
  "fdalloc f s =
     with_proc s (\<lambda>p.
       case first_slot NOFILE (\<lambda>fd. ofile (procs s p) fd = None) of
         Some fd \<Rightarrow> Ok (Some fd, set_ofile p fd (Some f) s)
       | None \<Rightarrow> Ok (None, s))"

definition sys_dup :: syscall where
  "sys_dup s =
     with_arg (argfd 0 s) s (\<lambda>(_, f).
       kbind (fdalloc f s) (\<lambda>(fd, s).
         case fd of
           None \<Rightarrow> Ok (Some (-1), s)
         | Some fd \<Rightarrow> kbind (filedup f s) (\<lambda>s. Ok (Some (word_of_nat fd), s))))"

definition sys_read :: syscall where
  "sys_read s =
     with_arg (argfd 0 s) s (\<lambda>(_, f).
     with_arg (argint 2 s) s (\<lambda>n.
     with_arg (argptr 1 (sint n) s) s (\<lambda>p.
       kbind (fileread f (sint n) s) (\<lambda>(r, bs, s).
       kbind (ustore p bs s) (\<lambda>s. Ok (Some (word_of_int r), s))))))"

definition sys_write :: syscall where
  "sys_write s =
     with_arg (argfd 0 s) s (\<lambda>(_, f).
     with_arg (argint 2 s) s (\<lambda>n.
     with_arg (argptr 1 (sint n) s) s (\<lambda>p.
       kbind (uload p (nat (sint n)) s) (\<lambda>bs. ret (filewrite f (sint n) bs s)))))"

definition sys_close :: syscall where
  "sys_close s =
     with_arg (argfd 0 s) s (\<lambda>(fd, f).
     with_proc s (\<lambda>p.
       kbind (fileclose f (set_ofile p fd None s)) (\<lambda>s. Ok (Some 0, s))))"

text \<open>The fields of \<^verbatim>\<open>struct stat\<close>, which has 20 bytes.\<close>

definition store_stat :: "u32 \<Rightarrow> stat \<Rightarrow> kernel \<Rightarrow> kernel res" where
  "store_stat p st s =
     kbind (ustore (p + 4) (le32 (st_dev st)) s) (\<lambda>s.
     kbind (ustore (p + 8) (le32 (st_ino st)) s) (\<lambda>s.
     kbind (ustore p (le16 (st_type st)) s) (\<lambda>s.
     kbind (ustore (p + 12) (le16 (st_nlink st)) s) (\<lambda>s.
     ustore (p + 16) (le32 (st_size st)) s))))"

definition sys_fstat :: syscall where
  "sys_fstat s =
     with_arg (argfd 0 s) s (\<lambda>(_, f).
     with_arg (argptr 1 20 s) s (\<lambda>p.
       kbind (filestat f s) (\<lambda>(r, s).
         case r of
           None \<Rightarrow> Ok (Some (-1), s)
         | Some st \<Rightarrow> kbind (store_stat p st s) (\<lambda>s. Ok (Some 0, s)))))"

section \<open>Links\<close>

text \<open>\<^verbatim>\<open>end_op(); return v;\<close>\<close>

definition end_with :: "u32 \<Rightarrow> kernel \<Rightarrow> (u32 option \<times> kernel) res" where
  "end_with v s = kbind (end_op s) (\<lambda>s. Ok (Some v, s))"

definition add_nlink :: "nat \<Rightarrow> u16 \<Rightarrow> kernel \<Rightarrow> kernel res" where
  "add_nlink ip d s = iupdate ip (upd_inode ip (\<lambda>r. r\<lparr>i_nlink := i_nlink r + d\<rparr>) s)"

definition link_bad :: "nat \<Rightarrow> kernel \<Rightarrow> (u32 option \<times> kernel) res" where
  "link_bad ip s =
     kbind (ilock ip s) (\<lambda>s.
     kbind (add_nlink ip (-1) s) (\<lambda>s.
     kbind (iunlockput ip s) (end_with (-1))))"

definition sys_link :: syscall where
  "sys_link s =
     with_arg (argstr 0 s) s (\<lambda>old.
     with_arg (argstr 1 s) s (\<lambda>new.
       kbind (begin_op s) (\<lambda>s.
       kbind (namei old s) (\<lambda>(ip, s).
       case ip of
         None \<Rightarrow> end_with (-1) s
       | Some ip \<Rightarrow>
           kbind (ilock ip s) (\<lambda>s.
           if i_type (inodes s ip) = T_DIR then kbind (iunlockput ip s) (end_with (-1))
           else
             kbind (add_nlink ip 1 s) (\<lambda>s.
             kbind (iunlock ip s) (\<lambda>s.
             kbind (nameiparent new (replicate DIRSIZ 0) s) (\<lambda>(dp, name, s).
             case dp of
               None \<Rightarrow> link_bad ip s
             | Some dp \<Rightarrow>
                 kbind (ilock dp s) (\<lambda>s.
                 kbind
                   (if i_dev (inodes s dp) \<noteq> i_dev (inodes s ip) then Ok (-1, s)
                    else dirlink dp name (i_inum (inodes s ip)) s) (\<lambda>(r, s).
                 kbind (iunlockput dp s) (\<lambda>s.
                 if r < 0 then link_bad ip s
                 else kbind (iput ip s) (end_with 0))))))))))))"

fun isdirempty_from :: "nat \<Rightarrow> u32 list \<Rightarrow> kernel \<Rightarrow> (bool \<times> kernel) res" where
  "isdirempty_from dp [] s = Ok (True, s)"
| "isdirempty_from dp (off # offs) s =
     kbind (readi dp off (word_of_nat dirent_size) s) (\<lambda>(r, bs, s).
       if r \<noteq> int dirent_size then Panic ''isdirempty: readi''
       else if de_inum (dec_dirent bs) \<noteq> 0 then Ok (False, s)
       else isdirempty_from dp offs s)"

definition isdirempty :: "nat \<Rightarrow> kernel \<Rightarrow> (bool \<times> kernel) res" where
  "isdirempty dp s = isdirempty_from dp (drop 2 (dir_offsets (i_size (inodes s dp)))) s"

definition unlink_bad :: "nat \<Rightarrow> kernel \<Rightarrow> (u32 option \<times> kernel) res" where
  "unlink_bad dp s = kbind (iunlockput dp s) (end_with (-1))"

text \<open>The part of \<open>sys_unlink\<close> after the entry at \<open>off\<close> of \<open>dp\<close> for the locked inode \<open>ip\<close> is found.\<close>

definition unlink_entry :: "nat \<Rightarrow> nat \<Rightarrow> u32 \<Rightarrow> kernel \<Rightarrow> (u32 option \<times> kernel) res" where
  "unlink_entry dp ip off s =
     kbind (writei dp (replicate dirent_size 0) off s) (\<lambda>(r, s).
     if r \<noteq> int dirent_size then Panic ''unlink: writei''
     else
       kbind (if i_type (inodes s ip) = T_DIR then add_nlink dp (-1) s else Ok s) (\<lambda>s.
       kbind (iunlockput dp s) (\<lambda>s.
       kbind (add_nlink ip (-1) s) (\<lambda>s.
       kbind (iunlockput ip s) (end_with 0)))))"

definition sys_unlink :: syscall where
  "sys_unlink s =
     with_arg (argstr 0 s) s (\<lambda>path.
       kbind (begin_op s) (\<lambda>s.
       kbind (nameiparent path (replicate DIRSIZ 0) s) (\<lambda>(dp, name, s).
       case dp of
         None \<Rightarrow> end_with (-1) s
       | Some dp \<Rightarrow>
           kbind (ilock dp s) (\<lambda>s.
           if namecmp name (str ''.'') = 0 \<or> namecmp name (str ''..'') = 0 then unlink_bad dp s
           else
             kbind (dirlookup dp name s) (\<lambda>(found, s).
             case found of
               None \<Rightarrow> unlink_bad dp s
             | Some (ip, off) \<Rightarrow>
                 kbind (ilock ip s) (\<lambda>s.
                 if sint (i_nlink (inodes s ip)) < 1 then Panic ''unlink: nlink < 1''
                 else
                   kbind (if i_type (inodes s ip) = T_DIR then isdirempty ip s else Ok (True, s)) (\<lambda>(e, s).
                   if \<not> e then kbind (iunlockput ip s) (unlink_bad dp)
                   else unlink_entry dp ip off s)))))))"

section \<open>Creating files\<close>

text \<open>The new inode \<open>ip\<close>, locked, gets its entries: \<^verbatim>\<open>.\<close> and \<^verbatim>\<open>..\<close> of a directory, and its name in \<open>dp\<close>.\<close>

definition create_dots :: "nat \<Rightarrow> nat \<Rightarrow> kernel \<Rightarrow> kernel res" where
  "create_dots dp ip s =
     kbind (add_nlink dp 1 s) (\<lambda>s.
     kbind (dirlink ip (str ''.'') (i_inum (inodes s ip)) s) (\<lambda>(r, s).
     if r < 0 then Panic ''create dots''
     else
       kbind (dirlink ip (str ''..'') (i_inum (inodes s dp)) s) (\<lambda>(r, s).
       if r < 0 then Panic ''create dots'' else Ok s)))"

definition create_new :: "nat \<Rightarrow> bytes \<Rightarrow> u16 \<Rightarrow> u16 \<Rightarrow> u16 \<Rightarrow> kernel \<Rightarrow> (nat option \<times> kernel) res" where
  "create_new dp name type major minor s =
     kbind (ialloc (i_dev (inodes s dp)) type s) (\<lambda>(ip, s).
     kbind (ilock ip s) (\<lambda>s.
     kbind (iupdate ip (upd_inode ip (\<lambda>r. r\<lparr>i_major := major, i_minor := minor, i_nlink := 1\<rparr>) s)) (\<lambda>s.
     kbind (if type = T_DIR then create_dots dp ip s else Ok s) (\<lambda>s.
     kbind (dirlink dp name (i_inum (inodes s ip)) s) (\<lambda>(r, s).
     if r < 0 then Panic ''create: dirlink''
     else kbind (iunlockput dp s) (\<lambda>s. Ok (Some ip, s)))))))"

definition create :: "bytes \<Rightarrow> u16 \<Rightarrow> u16 \<Rightarrow> u16 \<Rightarrow> kernel \<Rightarrow> (nat option \<times> kernel) res" where
  "create path type major minor s =
     kbind (nameiparent path (replicate DIRSIZ 0) s) (\<lambda>(dp, name, s).
     case dp of
       None \<Rightarrow> Ok (None, s)
     | Some dp \<Rightarrow>
         kbind (ilock dp s) (\<lambda>s.
         kbind (dirlookup dp name s) (\<lambda>(found, s).
         case found of
           Some (ip, _) \<Rightarrow>
             kbind (iunlockput dp s) (\<lambda>s.
             kbind (ilock ip s) (\<lambda>s.
             if type = T_FILE \<and> i_type (inodes s ip) = T_FILE then Ok (Some ip, s)
             else kbind (iunlockput ip s) (\<lambda>s. Ok (None, s))))
         | None \<Rightarrow> create_new dp name type major minor s)))"

section \<open>Opening files\<close>

abbreviation (input) "O_RDONLY \<equiv> (0x000 :: u32)"
abbreviation (input) "O_WRONLY \<equiv> (0x001 :: u32)"
abbreviation (input) "O_RDWR \<equiv> (0x002 :: u32)"
abbreviation (input) "O_CREATE \<equiv> (0x200 :: u32)"

definition open_inode :: "bytes \<Rightarrow> u32 \<Rightarrow> kernel \<Rightarrow> (nat option \<times> kernel) res" where
  "open_inode path omode s =
     (if omode AND O_CREATE \<noteq> 0 then create path T_FILE 0 0 s
      else
        kbind (namei path s) (\<lambda>(ip, s).
        case ip of
          None \<Rightarrow> Ok (None, s)
        | Some ip \<Rightarrow>
            kbind (ilock ip s) (\<lambda>s.
            if i_type (inodes s ip) = T_DIR \<and> omode \<noteq> O_RDONLY
            then kbind (iunlockput ip s) (\<lambda>s. Ok (None, s))
            else Ok (Some ip, s))))"

definition inode_file :: "nat \<Rightarrow> u32 \<Rightarrow> filest \<Rightarrow> filest" where
  "inode_file ip omode r = r\<lparr>f_type := FD_INODE, f_ip := ip, f_off := 0,
     f_readable := (omode AND O_WRONLY = 0),
     f_writable := (omode AND O_WRONLY \<noteq> 0 \<or> omode AND O_RDWR \<noteq> 0)\<rparr>"

definition sys_open :: syscall where
  "sys_open s =
     with_arg (argstr 0 s) s (\<lambda>path.
     with_arg (argint 1 s) s (\<lambda>omode.
       kbind (begin_op s) (\<lambda>s.
       kbind (open_inode path omode s) (\<lambda>(ip, s).
       case ip of
         None \<Rightarrow> end_with (-1) s
       | Some ip \<Rightarrow>
           let (f, s) = filealloc s in
           kbind (case f of None \<Rightarrow> Ok (None, s) | Some f \<Rightarrow> fdalloc f s) (\<lambda>(fd, s).
           case (f, fd) of
             (Some f, Some fd) \<Rightarrow>
               kbind (iunlock ip s) (\<lambda>s.
               kbind (end_op s) (\<lambda>s.
               Ok (Some (word_of_nat fd), upd_file f (inode_file ip omode) s)))
           | _ \<Rightarrow>
               kbind (close_opt f s) (\<lambda>s.
               kbind (iunlockput ip s) (end_with (-1))))))))"

text \<open>\<^verbatim>\<open>iunlockput(ip); end_op(); return 0;\<close> or, without an inode, \<^verbatim>\<open>end_op(); return -1;\<close>\<close>

definition made :: "nat option \<times> kernel \<Rightarrow> (u32 option \<times> kernel) res" where
  "made = (\<lambda>(ip, s). case ip of
     None \<Rightarrow> end_with (-1) s | Some ip \<Rightarrow> kbind (iunlockput ip s) (end_with 0))"

text \<open>\<^verbatim>\<open>if(m < 0) { end_op(); return -1; }\<close> inside an operation\<close>

definition with_op_arg ::
  "'a option res \<Rightarrow> kernel \<Rightarrow> ('a \<Rightarrow> (u32 option \<times> kernel) res) \<Rightarrow> (u32 option \<times> kernel) res" where
  "with_op_arg m s f = kbind m (\<lambda>r. case r of None \<Rightarrow> end_with (-1) s | Some v \<Rightarrow> f v)"

definition sys_mkdir :: syscall where
  "sys_mkdir s =
     kbind (begin_op s) (\<lambda>s.
       with_op_arg (argstr 0 s) s (\<lambda>path. kbind (create path T_DIR 0 0 s) made))"

definition sys_mknod :: syscall where
  "sys_mknod s =
     kbind (begin_op s) (\<lambda>s.
       with_op_arg (argstr 0 s) s (\<lambda>path.
       with_op_arg (argint 1 s) s (\<lambda>major.
       with_op_arg (argint 2 s) s (\<lambda>minor.
         kbind (create path T_DEV (ucast major) (ucast minor) s) made))))"

definition sys_chdir :: syscall where
  "sys_chdir s =
     kbind (begin_op s) (\<lambda>s.
       with_op_arg (argstr 0 s) s (\<lambda>path.
       kbind (namei path s) (\<lambda>(ip, s).
       case ip of
         None \<Rightarrow> end_with (-1) s
       | Some ip \<Rightarrow>
           kbind (ilock ip s) (\<lambda>s.
           if i_type (inodes s ip) \<noteq> T_DIR then kbind (iunlockput ip s) (end_with (-1))
           else
             kbind (iunlock ip s) (\<lambda>s.
             with_proc s (\<lambda>p.
             case cwd (procs s p) of
               None \<Rightarrow> Fault ''iput: null inode''
             | Some c \<Rightarrow>
                 kbind (iput c s) (\<lambda>s.
                 kbind (end_op s) (\<lambda>s.
                 Ok (Some 0, upd_proc p (\<lambda>r. r\<lparr>cwd := Some ip\<rparr>) s)))))))))"

section \<open>Programs and pipes\<close>

text \<open>The \<open>n\<close> remaining slots of \<^verbatim>\<open>argv\<close>; \<open>None\<close> is a return of -1.\<close>

fun fetch_argv :: "nat \<Rightarrow> u32 \<Rightarrow> kernel \<Rightarrow> bytes list option res" where
  "fetch_argv 0 a s = Ok None"
| "fetch_argv (Suc n) a s =
     kbind (fetchint a s) (\<lambda>r.
       case r of
         None \<Rightarrow> Ok None
       | Some uarg \<Rightarrow>
           if uarg = 0 then Ok (Some [])
           else
             kbind (fetchstr uarg s) (\<lambda>str.
               case str of
                 None \<Rightarrow> Ok None
               | Some x \<Rightarrow> kbind (fetch_argv n (a + 4) s) (\<lambda>r. Ok (map_option ((#) x) r))))"

definition sys_exec :: syscall where
  "sys_exec s =
     with_arg (argstr 0 s) s (\<lambda>path.
     with_arg (argint 1 s) s (\<lambda>uargv.
     with_arg (fetch_argv MAXARG uargv s) s (\<lambda>argv. ret (exec path argv s))))"

definition sys_pipe :: syscall where
  "sys_pipe s =
     with_arg (argptr 0 8 s) s (\<lambda>fda.
     kbind (pipealloc s) (\<lambda>(r, s).
     case r of
       None \<Rightarrow> Ok (Some (-1), s)
     | Some (rf, wr) \<Rightarrow>
         kbind (fdalloc rf s) (\<lambda>(fd0, s).
         kbind (case fd0 of None \<Rightarrow> Ok (None, s) | Some _ \<Rightarrow> fdalloc wr s) (\<lambda>(fd1, s).
         case (fd0, fd1) of
           (Some fd0, Some fd1) \<Rightarrow>
             kbind (ustore32 fda (word_of_nat fd0) s) (\<lambda>s.
             kbind (ustore32 (fda + 4) (word_of_nat fd1) s) (\<lambda>s. Ok (Some 0, s)))
         | _ \<Rightarrow>
             with_proc s (\<lambda>p.
             kbind (fileclose rf (case fd0 of None \<Rightarrow> s | Some fd0 \<Rightarrow> set_ofile p fd0 None s)) (\<lambda>s.
             kbind (fileclose wr s) (\<lambda>s. Ok (Some (-1), s))))))))"

section \<open>Dispatch\<close>

definition syscalls :: "u32 \<Rightarrow> nat \<Rightarrow> syscall option" where
  "syscalls eax num =
     (if num = 0 \<or> 26 \<le> num then None
      else Some ([sys_fork, sys_exit, sys_wait, sys_pipe, sys_read, sys_kill, sys_exec, sys_fstat,
        sys_chdir, sys_dup, sys_getpid, sys_sbrk, sys_sleep, sys_uptime, sys_open, sys_write, sys_mknod,
        sys_unlink, sys_link, sys_mkdir, sys_close, sys_signal, sys_sigsend, sys_sigreturn,
        sys_alarm eax] ! (num - 1)))"

text \<open>\<open>True\<close>: the call has returned; \<open>False\<close>: the process has left the processor.\<close>

definition syscall :: "u32 \<Rightarrow> kernel \<Rightarrow> (bool \<times> kernel) res" where
  "syscall eax s =
     with_proc s (\<lambda>p.
       let num = sint (tf_eax (tf (procs s p)));
           done = (\<lambda>v s. Ok (True, upd_proc p (tf_update (\<lambda>t. t\<lparr>tf_eax := v\<rparr>)) s)) in
       case (if num > 0 then syscalls eax (nat num) else None) of
         Some f \<Rightarrow> kbind (f s) (\<lambda>(r, s). case r of None \<Rightarrow> Ok (False, s) | Some v \<Rightarrow> done v s)
       | None \<Rightarrow>
           kbind (cprintf ''%d %s: unknown sys call %d\<newline>''
             [PInt (word_of_int (pid (procs s p))), PStr (Some (takeWhile (\<lambda>c. c \<noteq> 0) (pname (procs s p)))),
              PInt (tf_eax (tf (procs s p)))] s) (done (-1)))"

end
