(* ===== verification/Exit_Wait.thy ===== *)
theory Exit_Wait
  imports Proc
begin

text \<open>
  The handshake between \<open>exit\<close> and \<open>wait\<close>. The file system calls of \<open>exit\<close> leave the processor, its locks and
  every process alone, except that sleepers may be woken (\<open>calm\<close>), and they keep the scheduler's invariant;
  both are instances of the locale \<open>file_frame\<close>.
\<close>

section \<open>What the file system does to processes\<close>

definition settled :: "proc \<Rightarrow> proc \<Rightarrow> bool" where
  "settled r r' \<longleftrightarrow> r'\<lparr>state := UNUSED, ofile := \<lambda>_. None, cwd := None\<rparr> =
       r\<lparr>state := UNUSED, ofile := \<lambda>_. None, cwd := None\<rparr> \<and>
     (state r' = state r \<or> state r = SLEEPING \<and> state r' = RUNNABLE)"

definition calm :: "kernel \<Rightarrow> kernel \<Rightarrow> bool" where
  "calm s0 s \<longleftrightarrow> cur s = cur s0 \<and> heldlk s = heldlk s0 \<and> mycpu s = mycpu s0 \<and> initproc s = initproc s0 \<and>
     (\<forall>i. settled (procs s0 i) (procs s i))"

lemma settled_refl [simp]: "settled r r"
  by (simp add: settled_def)

lemma settled_fields:
  assumes "settled r r'"
  shows "sz r' = sz r" "pgdir r' = pgdir r" "kstack r' = kstack r" "pid r' = pid r" "parent r' = parent r"
    "kont r' = kont r" "chan r' = chan r" "killed r' = killed r"
  using assms by (cases r; cases r'; simp add: settled_def)+

lemma settled_wake: "settled r r' \<Longrightarrow> state r' = SLEEPING \<Longrightarrow> settled r (r'\<lparr>state := RUNNABLE\<rparr>)"
  by (cases r; cases r') (auto simp: settled_def)

lemma settled_files: "settled r r' \<Longrightarrow> settled r (r'\<lparr>ofile := f\<rparr>)" "settled r r' \<Longrightarrow> settled r (r'\<lparr>cwd := d\<rparr>)"
  by (cases r; cases r'; auto simp: settled_def)+

lemma calm_refl [simp]: "calm s s"
  by (simp add: calm_def)

lemma calm_upd_proc:
  "calm s0 s \<Longrightarrow> calm s0 (upd_proc p (\<lambda>r. r\<lparr>ofile := f r\<rparr>) s)" "calm s0 s \<Longrightarrow> calm s0 (upd_proc p (\<lambda>r. r\<lparr>cwd := d\<rparr>) s)"
  by (auto simp: calm_def upd_proc_def settled_files)

interpretation cf: file_frame "calm s0" for s0
proof
  show "calm s0 s \<Longrightarrow> calm s0 (wakeup c s)" for s c
    by (auto simp: calm_def wakeup_def wakeup1_def settled_wake)
qed (simp_all add: calm_def upd_buf_def upd_log_def upd_inode_def upd_input_def upd_file_def upd_pipe_def)

lemma sched_inv_cong:
  "procs s' = procs s \<Longrightarrow> cur s' = cur s \<Longrightarrow> heldlk s' = heldlk s \<Longrightarrow> mycpu s' = mycpu s \<Longrightarrow>
    sched_inv s' = sched_inv s"
  by (simp add: sched_inv_def lk_inv_def cong: option.case_cong)

interpretation sf: file_frame sched_inv
proof
  show "sched_inv s \<Longrightarrow> sched_inv (wakeup c s)" for s c by (rule wakeup_inv)
qed (subst sched_inv_cong; simp add: upd_buf_def upd_log_def upd_inode_def upd_input_def upd_file_def upd_pipe_def)+

lemma sched_inv_upd_proc:
  "sched_inv s \<Longrightarrow> sched_inv (upd_proc p (\<lambda>r. r\<lparr>ofile := f r\<rparr>) s)"
  "sched_inv s \<Longrightarrow> sched_inv (upd_proc p (\<lambda>r. r\<lparr>cwd := d\<rparr>) s)"
  by (auto simp: sched_inv_def lk_inv_def upd_proc_def runnable_ok_def split: option.splits)

lemma exit_file_calm:
  "calm s0 s \<and> sched_inv s \<Longrightarrow> okp (exit_file c fd s) (\<lambda>t. calm s0 t \<and> sched_inv t)"
proof -
  assume h: "calm s0 s \<and> sched_inv s"
  have "okp (fileclose f s) (\<lambda>t. calm s0 t \<and> sched_inv t)" for f
    using cf.fileclose_I [of s0 s f] sf.fileclose_I [of s f] h by (simp add: okp_def)
  then have "okp (fileclose f s) (\<lambda>t. calm s0 (set t) \<and> sched_inv (set t))"
    if "set = upd_proc c (\<lambda>r. r\<lparr>ofile := (ofile r)(fd := None)\<rparr>)" for f set
    unfolding that by (rule okp_mono) (auto simp: calm_upd_proc sched_inv_upd_proc)
  then show ?thesis using h by (auto simp: exit_file_def okp_kbind split: option.splits)
qed

lemma exit_calm:
  assumes "for_each (exit_file c) fds s = Ok t" and "put_in_op ip t = Ok u" and "sched_inv s"
  shows "calm s u \<and> sched_inv u"
proof -
  have "okp (for_each (exit_file c) fds s) (\<lambda>t. calm s t \<and> sched_inv t)"
    using assms(3) by (intro okp_for_each exit_file_calm) auto
  then have t: "calm s t" "sched_inv t" using assms(1) by (auto simp: okp_def)
  show ?thesis using cf.put_in_op_I [OF t(1)] sf.put_in_op_I [OF t(2)] assms(2) by (auto simp: okp_def)
qed

section \<open>Adoption\<close>

text \<open>Only the state of sleepers and the parent of the children of \<open>c\<close> change.\<close>

definition adopted :: "nat \<Rightarrow> (nat \<Rightarrow> proc) \<Rightarrow> (nat \<Rightarrow> proc) \<Rightarrow> bool" where
  "adopted c ps ps' \<longleftrightarrow> (\<forall>i. (ps' i)\<lparr>state := UNUSED, parent := None\<rparr> = (ps i)\<lparr>state := UNUSED, parent := None\<rparr> \<and>
     (state (ps' i) = state (ps i) \<or> state (ps i) = SLEEPING \<and> state (ps' i) = RUNNABLE) \<and>
     (parent (ps i) \<noteq> Some c \<longrightarrow> parent (ps' i) = parent (ps i)))"

lemma adopted_wake: "adopted c ps ps' \<Longrightarrow> adopted c ps (wakeup1 ch ps')"
  unfolding adopted_def wakeup1_def
  by (intro allI) (erule_tac x = i in allE, auto)

lemma adopted_adopt:
  assumes "adopted c ps ps'"
  shows "adopted c ps (adopt ini c i ps')"
proof -
  have "adopted c ps (ps'(i := (ps' i)\<lparr>parent := ini\<rparr>))" if "parent (ps' i) = Some c"
    using assms that unfolding adopted_def by (auto split: if_splits)
  then show ?thesis using assms adopted_wake by (auto simp: adopt_def Let_def)
qed

lemma adopted_fold: "adopted c ps ps' \<Longrightarrow> adopted c ps (fold (adopt ini c) is ps')"
  by (induction "is" arbitrary: ps') (auto simp: adopted_adopt)

lemma adopted_refl [simp]: "adopted c ps ps"
  by (simp add: adopted_def)

lemma adopted_fields:
  assumes "adopted c ps ps'"
  shows "pgdir (ps' i) = pgdir (ps i)" "kstack (ps' i) = kstack (ps i)" "pid (ps' i) = pid (ps i)"
    "kont (ps' i) = kont (ps i)" "chan (ps' i) = chan (ps i)"
proof -
  have "(ps' i)\<lparr>state := UNUSED, parent := None\<rparr> = (ps i)\<lparr>state := UNUSED, parent := None\<rparr>"
    using assms by (simp add: adopted_def)
  then show "pgdir (ps' i) = pgdir (ps i)" "kstack (ps' i) = kstack (ps i)" "pid (ps' i) = pid (ps i)"
    "kont (ps' i) = kont (ps i)" "chan (ps' i) = chan (ps i)"
    by (cases "ps i"; cases "ps' i"; simp)+
qed

section \<open>The outcome of exit\<close>

text \<open>
  The process table after \<open>exit\<close> of process \<open>c\<close> is obtained from the one before by calm changes, a wakeup of
  the parent, adoption of the children, and the state of \<open>c\<close>.
\<close>

lemma exit_outcome:
  assumes ex: "exit s = Ok s1" and inv: "sched_inv s" and cur: "cur s = Some c" and held: "heldlk s = []"
  obtains u ps where "calm s u" "sched_inv u"
    "adopted c (wakeup1 (proc_chan (parent (procs u c))) (procs u)) ps"
    "procs s1 = ps(c := (ps c)\<lparr>state := ZOMBIE, kont := InExit (intena (mycpu s1))\<rparr>)"
    "cur s1 = None" "heldlk s1 = [LPtable]" "ncli (mycpu s1) = 1" "\<not> ifl (mycpu s1)" "initproc s \<noteq> Some c"
proof -
  obtain t ip w v where t: "for_each (exit_file c) [0..<NOFILE] s = Ok t" "put_in_op ip t = Ok w"
    "acquire_lk LPtable (upd_proc c (\<lambda>r. r\<lparr>cwd := None\<rparr>) w) = Ok v" and ni: "initproc s \<noteq> Some c"
    and sd: "sched InExit (v\<lparr>procs := (fold (adopt (initproc v) c) [0..<NPROC]
      (wakeup1 (proc_chan (parent (procs v c))) (procs v)))(c := (fold (adopt (initproc v) c) [0..<NPROC]
      (wakeup1 (proc_chan (parent (procs v c))) (procs v)) c)\<lparr>state := ZOMBIE\<rparr>)\<rparr>) = Ok s1"
    using ex cur unfolding exit_def with_proc_Ok_iff by (auto simp: Let_def split: if_splits option.splits)
  define u where "u = upd_proc c (\<lambda>r. r\<lparr>cwd := None\<rparr>) w"
  have u: "calm s u" "sched_inv u"
    using exit_calm [OF t(1,2) inv] by (simp_all add: u_def calm_upd_proc sched_inv_upd_proc)
  define ps where "ps = fold (adopt (initproc v) c) [0..<NPROC] (wakeup1 (proc_chan (parent (procs u c))) (procs u))"
  have hu: "heldlk u = []" "cur u = Some c" using u(1) held cur by (simp_all add: calm_def)
  then obtain v' where v': "acquire_lk LPtable u = Ok v'" "lk_inv v'" "heldlk v' = [LPtable]" "same_procs u v'"
    using acquire_ok [of u LPtable] u(2) by (auto simp: sched_inv_def)
  then have v: "lk_inv v" "heldlk v = [LPtable]" "procs v = procs u" "cur v = Some c"
    using t(3) hu by (auto simp: same_procs_def u_def [symmetric])
  let ?v = "v\<lparr>procs := ps(c := (ps c)\<lparr>state := ZOMBIE\<rparr>)\<rparr>"
  have "sched InExit ?v = Ok s1" using sd by (simp add: ps_def v(3))
  moreover have "sched InExit ?v = Ok (scheduler_back (upd_proc c (\<lambda>r. r\<lparr>kont := InExit (intena (mycpu ?v))\<rparr>) ?v))"
    using v by (intro sched_ok) (simp_all add: lk_inv_def)
  ultimately have s1: "s1 = scheduler_back (upd_proc c (\<lambda>r. r\<lparr>kont := InExit (intena (mycpu v))\<rparr>) ?v)" by simp
  show thesis
  proof (rule that [OF u])
    show "adopted c (wakeup1 (proc_chan (parent (procs u c))) (procs u)) ps"
      unfolding ps_def by (rule adopted_fold) simp
    show "procs s1 = ps(c := (ps c)\<lparr>state := ZOMBIE, kont := InExit (intena (mycpu s1))\<rparr>)"
      by (simp add: s1 scheduler_back_def switchkvm_def upd_proc_def)
  qed (use v ni in \<open>simp_all add: s1 scheduler_back_def switchkvm_def upd_proc_def lk_inv_def\<close>)
qed

text \<open>What the waiting parent \<open>q\<close> finds in the process table after its only exited child \<open>c\<close> has left.\<close>

lemma exit_table:
  assumes inv: "sched_inv s" and cur: "cur s = Some c" and held: "heldlk s = []"
    and par: "parent (procs s c) = Some q" "q \<noteq> c" "q < NPROC"
    and wait: "state (procs s q) = SLEEPING" "chan (procs s q) = ChProc q"
    and only: "\<forall>i<NPROC. i \<noteq> c \<longrightarrow> state (procs s i) = ZOMBIE \<longrightarrow> parent (procs s i) \<noteq> Some q \<and> parent (procs s i) \<noteq> Some c"
    and ex: "exit s = Ok s1"
  shows "state (procs s1 q) = RUNNABLE" "kont (procs s1 q) = kont (procs s q)" "pgdir (procs s1 q) = pgdir (procs s q)"
    and "state (procs s1 c) = ZOMBIE" "parent (procs s1 c) = Some q" "kstack (procs s1 c) = kstack (procs s c)"
      "pgdir (procs s1 c) = pgdir (procs s c)" "pid (procs s1 c) = pid (procs s c)"
    and "\<And>i. i < NPROC \<Longrightarrow> state (procs s1 i) = ZOMBIE \<Longrightarrow> parent (procs s1 i) = Some q \<Longrightarrow> i = c"
    and "cur s1 = None" "heldlk s1 = [LPtable]" "ncli (mycpu s1) = 1" "\<not> ifl (mycpu s1)"
proof -
  obtain u ps where u: "calm s u" "sched_inv u"
    and ad: "adopted c (wakeup1 (proc_chan (parent (procs u c))) (procs u)) ps"
    and s1: "procs s1 = ps(c := (ps c)\<lparr>state := ZOMBIE, kont := InExit (intena (mycpu s1))\<rparr>)"
      "cur s1 = None" "heldlk s1 = [LPtable]" "ncli (mycpu s1) = 1" "\<not> ifl (mycpu s1)"
    using exit_outcome [OF ex inv cur held] by metis
  define w where "w = wakeup1 (ChProc q) (procs u)"
  have se: "settled (procs s i) (procs u i)" for i using u(1) by (simp add: calm_def)
  note sf = settled_fields [OF se]
  have "adopted c w ps" using ad sf(5) par(1) by (simp add: w_def proc_chan_def)
  note ai = this [unfolded adopted_def, rule_format] and af = adopted_fields [OF this]
  have wf: "pgdir (w i) = pgdir (procs s i)" "kstack (w i) = kstack (procs s i)" "pid (w i) = pid (procs s i)"
    "kont (w i) = kont (procs s i)" "parent (w i) = parent (procs s i)" for i
    using sf by (simp_all add: w_def wakeup1_def)
  have "state (w q) = RUNNABLE"
    using se [of q] sf(7) [of q] wait par(3) by (auto simp: w_def wakeup1_def settled_def)
  then show "state (procs s1 q) = RUNNABLE" using ai [of q] s1(1) par(2) by auto
  have z: "state (procs s i) = ZOMBIE" if "state (ps i) = ZOMBIE" for i
    using that ai [of i] se [of i] by (auto simp: settled_def w_def wakeup1_def split: if_splits)
  show "i = c" if "i < NPROC" "state (procs s1 i) = ZOMBIE" "parent (procs s1 i) = Some q" for i
    using that z [of i] only ai [of i] wf(5) [of i] s1(1) by (auto split: if_splits)
  show "parent (procs s1 c) = Some q" using ai [of c] wf(5) [of c] par s1(1) by auto
  show "kont (procs s1 q) = kont (procs s q)" "pgdir (procs s1 q) = pgdir (procs s q)"
    "state (procs s1 c) = ZOMBIE" "kstack (procs s1 c) = kstack (procs s c)"
    "pgdir (procs s1 c) = pgdir (procs s c)" "pid (procs s1 c) = pid (procs s c)"
    using s1(1) af wf par(2) by simp_all
  show "cur s1 = None" "heldlk s1 = [LPtable]" "ncli (mycpu s1) = 1" "\<not> ifl (mycpu s1)" by (rule s1)+
qed

lemma pick_waiting:
  assumes "state (procs s q) = RUNNABLE" "kont (procs s q) = InSleep b LPtable" "pgdir (procs s q) \<noteq> 0"
    "ncli (mycpu s) = 1" "\<not> ifl (mycpu s)"
  shows "\<exists>s2. pick q s = Ok s2 \<and> cur s2 = Some q \<and> heldlk s2 = heldlk s \<and> ncli (mycpu s2) = 1 \<and> \<not> ifl (mycpu s2) \<and>
    procs s2 = (procs s)(q := (procs s q)\<lparr>state := RUNNING, chan := ChNull\<rparr>)"
  using assms switchuvm_ok [of "s\<lparr>cur := Some q\<rparr>" q]
  by (simp add: pick_def resume_def sleep_tail_def restore_intena_def with_proc_def Let_def upd_proc_def)

lemma wait_reaps:
  assumes "cur s = Some q" "heldlk s = [LPtable]" "ncli (mycpu s) = 1" "\<not> ifl (mycpu s)" "c < NPROC" "c \<noteq> q"
    and "parent (procs s c) = Some q" "state (procs s c) = ZOMBIE"
    and "\<And>i. i < NPROC \<Longrightarrow> parent (procs s i) = Some q \<Longrightarrow> state (procs s i) = ZOMBIE \<Longrightarrow> i = c"
    and "kfree (kstack (procs s c)) s = Ok t" "freevm (pgdir (procs s c)) (upd_proc c (\<lambda>r. r\<lparr>kstack := 0\<rparr>) t) = Ok u"
  shows "\<exists>s3. wait_loop s = Ok (Some (pid (procs s c)), s3) \<and> cur s3 = Some q \<and> heldlk s3 = [] \<and>
    state (procs s3 c) = UNUSED"
proof -
  have f: "first_slot NPROC (\<lambda>i. parent (procs s i) = Some q \<and> state (procs s i) = ZOMBIE) = Some c"
    unfolding first_slot_Some_iff
  proof (intro conjI allI impI notI)
    fix j
    assume "j < c" "parent (procs s j) = Some q \<and> state (procs s j) = ZOMBIE"
    with assms(9) [of j] assms(5) show False by simp
  qed (use assms(5,7,8) in simp_all)
  have t: "procs t = procs s" "cur t = cur s" "heldlk t = heldlk s" "mycpu t = mycpu s"
    using assms(10) by (auto simp: kfree_def Let_def split: if_splits)
  have "calm (upd_proc c (\<lambda>r. r\<lparr>kstack := 0\<rparr>) t) u"
    using cf.freevm_I [OF calm_refl] assms(11) by (auto simp: okp_def)
  then have u: "cur u = Some q" "heldlk u = [LPtable]" "mycpu u = mycpu s"
    using t assms(1,2) by (simp_all add: calm_def upd_proc_def)
  have "\<exists>s3. release_lk LPtable (upd_proc c clear_proc u) = Ok s3 \<and> cur s3 = Some q \<and> heldlk s3 = [] \<and>
      state (procs s3 c) = UNUSED"
    using u assms(3,4) by (simp add: release_lk_def popcli_def upd_proc_def clear_proc_def Let_def)
  with f t(1) assms(1,10,11) show ?thesis by (auto simp: wait_loop_def with_proc_def)
qed

section \<open>Properties\<close>


text \<open>Process 0 waits for process 1, which has no open files and exits.\<close>

definition demo_exit :: kernel where
  "demo_exit = demo_kernel\<lparr>cur := Some 1,
     inodes := (\<lambda>_. zero_inode\<lparr>i_ref := 2\<rparr>),
     procs := (\<lambda>_. zero_proc)
       (0 := zero_proc\<lparr>state := SLEEPING, chan := ChProc 0, kont := InSleep True LPtable, pgdir := 0x80200000, pid := 1\<rparr>,
        1 := zero_proc\<lparr>state := RUNNING, parent := Some 0, cwd := Some 0, pgdir := 0x80201000, pid := 2\<rparr>)\<rparr>"

lemma demo_exit_inv: "sched_inv demo_exit"
  by (auto simp: demo_exit_def sched_inv_def lk_inv_def runnable_ok_def zero_proc_def)

lemma no_files_exit: "\<forall>fd. ofile (procs s c) fd = None \<Longrightarrow> for_each (exit_file c) fds s = Ok s"
  by (induction fds) (simp_all add: exit_file_def)

lemma demo_exit_ok: "\<exists>s1. exit demo_exit = Ok s1"
proof -
  have "for_each (exit_file 1) [0..<NOFILE] demo_exit = Ok demo_exit"
    by (rule no_files_exit) (simp add: demo_exit_def zero_proc_def)
  moreover obtain t where "put_in_op 0 demo_exit = Ok t" "cur t = Some 1" "heldlk t = []" "ncli (mycpu t) = 0"
    by (simp add: put_in_op_def begin_op_def end_op_def iput_def commit_def demo_exit_def demo_kernel_def
        boot_kernel_def upd_log_def upd_inode_def wakeup_def Let_def)
  moreover have "cur demo_exit = Some 1" "initproc demo_exit = None" "cwd (procs demo_exit 1) = Some 0"
    by (simp_all add: demo_exit_def zero_proc_def)
  ultimately show ?thesis
    by (simp add: exit_def with_proc_def acquire_lk_def pushcli_def sched_def upd_proc_def Let_def)
qed


end
