(* ===== verification/Refs.thy ===== *)
theory Refs
  imports Sysfile Exit_Wait
begin

text \<open>
  Reference counts of open files. The count in the file table is the number of descriptors of all processes
  that name the file. Inside an operation the two differ for a while; \<open>refs d\<close> says by how much, so each
  operation has a rule that moves the difference, and over a whole system call it is back to zero.
\<close>

section \<open>Counting descriptors\<close>

definition slots :: "(nat \<Rightarrow> proc) \<Rightarrow> nat \<Rightarrow> (nat \<times> nat) set" where
  "slots ps f = {(p, fd). p < NPROC \<and> fd < NOFILE \<and> ofile (ps p) fd = Some f}"

definition idle :: "proc \<Rightarrow> bool" where
  "idle r \<longleftrightarrow> state r = UNUSED \<or> state r = ZOMBIE"

definition fds_ok :: "proc \<Rightarrow> bool" where
  "fds_ok r \<longleftrightarrow> (\<forall>fd<NOFILE. \<forall>f. ofile r fd = Some f \<longrightarrow> f < NFILE \<and> \<not> idle r)"

definition refs :: "(nat \<Rightarrow> int) \<Rightarrow> kernel \<Rightarrow> bool" where
  "refs d s \<longleftrightarrow> (\<forall>f<NFILE. f_ref (files s f) = int (card (slots (procs s) f)) + d f) \<and>
     (\<forall>p<NPROC. fds_ok (procs s p)) \<and> (\<forall>p. cur s = Some p \<longrightarrow> p < NPROC \<and> \<not> idle (procs s p))"

definition bump :: "nat \<Rightarrow> int \<Rightarrow> (nat \<Rightarrow> int) \<Rightarrow> nat \<Rightarrow> int" where
  "bump f k d = (\<lambda>g. if g = f then d g + k else d g)"

lemma bump_0 [simp]: "bump f 0 d = d"
  by (simp add: bump_def fun_eq_iff)

lemma bump_same [simp]: "bump f j (bump f k d) = bump f (j + k) d"
  by (simp add: bump_def fun_eq_iff)

lemma bump_swap: "bump f j (bump g k d) = bump g k (bump f j d)"
  by (simp add: bump_def fun_eq_iff)

lemma finite_slots [simp]: "finite (slots ps f)"
  by (rule finite_subset [of _ "{..<NPROC} \<times> {..<NOFILE}"]) (auto simp: slots_def)

lemma slots_cong: "(\<And>p. p < NPROC \<Longrightarrow> ofile (ps p) = ofile (ps' p)) \<Longrightarrow> slots ps f = slots ps' f"
  by (auto simp: slots_def)

lemma slots_set:
  assumes "p < NPROC" "fd < NOFILE" "ofile (ps p) fd = None"
  shows "int (card (slots (ps(p := (ps p)\<lparr>ofile := (ofile (ps p))(fd := Some f)\<rparr>)) g)) =
    int (card (slots ps g)) + (if g = f then 1 else 0)"
proof (cases "g = f")
  case True
  have "slots (ps(p := (ps p)\<lparr>ofile := (ofile (ps p))(fd := Some f)\<rparr>)) f = insert (p, fd) (slots ps f)"
    using assms by (auto simp: slots_def split: if_splits)
  moreover have "(p, fd) \<notin> slots ps f" using assms by (simp add: slots_def)
  ultimately show ?thesis using True by simp
next
  case False
  then have "slots (ps(p := (ps p)\<lparr>ofile := (ofile (ps p))(fd := Some f)\<rparr>)) g = slots ps g"
    using assms by (auto simp: slots_def split: if_splits)
  then show ?thesis using False by simp
qed

lemma slots_clear:
  assumes "p < NPROC" "fd < NOFILE" "ofile (ps p) fd = Some f"
  shows "int (card (slots (ps(p := (ps p)\<lparr>ofile := (ofile (ps p))(fd := None)\<rparr>)) g)) =
    int (card (slots ps g)) - (if g = f then 1 else 0)"
proof -
  let ?r = "(ps p)\<lparr>ofile := (ofile (ps p))(fd := None)\<rparr>"
  have "(ps(p := ?r))(p := ((ps(p := ?r)) p)\<lparr>ofile := (ofile ((ps(p := ?r)) p))(fd := Some f)\<rparr>) = ps"
    using assms(3) by (auto simp: fun_eq_iff)
  then show ?thesis using slots_set [of p fd "ps(p := ?r)" f g] assms by simp
qed

section \<open>Rules\<close>

lemma refs_cong:
  "files s' = files s \<Longrightarrow> procs s' = procs s \<Longrightarrow> cur s' = cur s \<Longrightarrow> refs d s' = refs d s"
  by (simp add: refs_def)

lemma refs_upd_proc_gen:
  assumes "refs d s" "ofile (g (procs s p)) = ofile (procs s p)"
    "idle (g (procs s p)) \<Longrightarrow> cur s \<noteq> Some p \<and> (\<forall>fd<NOFILE. ofile (procs s p) fd = None)"
  shows "refs d (upd_proc p g s)"
proof -
  have "slots (procs (upd_proc p g s)) f = slots (procs s) f" for f
    using assms(2) by (intro slots_cong) simp
  moreover have "fds_ok (procs (upd_proc p g s) q)" if "fds_ok (procs s q)" for q
    using assms(2,3) that by (auto simp: fds_ok_def)
  moreover have "cur (upd_proc p g s) = cur s" "files (upd_proc p g s) = files s" by (simp_all add: upd_proc_def)
  ultimately show ?thesis using assms(1,3) by (auto simp: refs_def)
qed

lemma refs_upd_proc:
  assumes "refs d s" "ofile (g (procs s p)) = ofile (procs s p)" "idle (g (procs s p)) = idle (procs s p)" "p < NPROC"
  shows "refs d (upd_proc p g s)"
  using assms by (intro refs_upd_proc_gen) (auto simp: refs_def fds_ok_def)

lemma refs_cur: "refs d s \<Longrightarrow> cur s = Some p \<Longrightarrow> p < NPROC" "refs d s \<Longrightarrow> cur s = Some p \<Longrightarrow> \<not> idle (procs s p)"
  by (simp_all add: refs_def)

lemma wakeup1_fds [simp]: "ofile (wakeup1 c ps p) = ofile (ps p)" "idle (wakeup1 c ps p) = idle (ps p)"
  by (simp_all add: wakeup1_def idle_def)

lemma refs_wakeup: "refs d s \<Longrightarrow> refs d (wakeup c s)"
proof -
  have "slots (wakeup1 c ps) f = slots ps f" "fds_ok (wakeup1 c ps p) = fds_ok (ps p)" for ps f p
    by (simp_all add: fds_ok_def slots_def)
  then show "refs d s \<Longrightarrow> ?thesis" by (simp add: refs_def wakeup_def)
qed

interpretation rf: pipe_frame "refs d" for d
proof
  show "refs d s \<Longrightarrow> refs d (wakeup c s)" for s c by (rule refs_wakeup)
qed (subst refs_cong; simp add: upd_buf_def upd_log_def upd_inode_def upd_input_def upd_pipe_def)+

lemma refs_upd_file:
  "refs d s \<Longrightarrow> f_ref (g (files s f)) = f_ref (files s f) \<Longrightarrow> refs d (upd_file f g s)"
  by (simp add: refs_def upd_file_def)

lemma refs_bump_file:
  "refs d s \<Longrightarrow> refs (bump f k d) (upd_file f (\<lambda>r. r\<lparr>f_ref := f_ref r + k\<rparr>) s)"
  by (auto simp: refs_def upd_file_def bump_def)

lemma filealloc_refs:
  assumes "filealloc s = (r, t)" "refs d s"
  shows "case r of None \<Rightarrow> t = s | Some f \<Rightarrow> f < NFILE \<and> refs (bump f 1 d) t"
proof (cases r)
  case (Some f)
  then have f: "f < NFILE" "f_ref (files s f) = 0" and t: "t = upd_file f (\<lambda>r. r\<lparr>f_ref := 1\<rparr>) s"
    using assms(1) by (auto simp: filealloc_def dest: first_slot_SomeD split: option.splits)
  have "t = upd_file f (\<lambda>r. r\<lparr>f_ref := f_ref r + 1\<rparr>) s" by (simp add: t upd_file_def f(2))
  then show ?thesis using Some f(1) refs_bump_file [OF assms(2), of f 1] by simp
qed (use assms(1) in \<open>simp add: filealloc_def split: option.splits\<close>)

lemma filedup_refs: "refs d s \<Longrightarrow> okp (filedup f s) (refs (bump f 1 d))"
  using refs_bump_file [of d s f 1] by (simp add: filedup_def)

lemma fileclose_refs:
  assumes "refs d s"
  shows "okp (fileclose f s) (refs (bump f (-1) d))"
proof -
  define t where "t = upd_file f (\<lambda>r. r\<lparr>f_ref := f_ref r - 1\<rparr>) s"
  have t: "refs (bump f (-1) d) t" using refs_bump_file [OF assms, of f "-1"] by (simp add: t_def)
  have "refs (bump f (-1) d) (upd_file f (\<lambda>r. r\<lparr>f_ref := 0, f_type := FD_NONE\<rparr>) t)"
    if "\<not> f_ref (files t f) > 0" "\<not> f_ref (files s f) < 1"
    using that by (intro refs_upd_file [OF t]) (simp add: t_def upd_file_def)
  then show ?thesis
    using t by (auto simp: fileclose_def t_def [symmetric] Let_def
        intro!: rf.pipeclose_I rf.put_in_op_I split: ftype.splits)
qed

lemma set_ofile_refs:
  assumes "refs d s" "p < NPROC" "\<not> idle (procs s p)" "fd < NOFILE" "ofile (procs s p) fd = None" "f < NFILE"
  shows "refs (bump f (-1) d) (set_ofile p fd (Some f) s)"
proof -
  have "procs (set_ofile p fd (Some f) s) = (procs s)(p := (procs s p)\<lparr>ofile := (ofile (procs s p))(fd := Some f)\<rparr>)"
    by (simp add: set_ofile_def)
  moreover have "files (set_ofile p fd (Some f) s) = files s" "cur (set_ofile p fd (Some f) s) = cur s"
    by (simp_all add: set_ofile_def upd_proc_def)
  ultimately show ?thesis
    using assms slots_set [where ps = "procs s", OF assms(2,4,5), of f]
    by (auto simp: refs_def bump_def fds_ok_def idle_def)
qed

lemma clear_ofile_refs:
  assumes "refs d s" "p < NPROC" "fd < NOFILE" "ofile (procs s p) fd = Some f"
  shows "refs (bump f 1 d) (set_ofile p fd None s)"
proof -
  have "procs (set_ofile p fd None s) = (procs s)(p := (procs s p)\<lparr>ofile := (ofile (procs s p))(fd := None)\<rparr>)"
    by (simp add: set_ofile_def)
  moreover have "files (set_ofile p fd None s) = files s" "cur (set_ofile p fd None s) = cur s"
    by (simp_all add: set_ofile_def upd_proc_def)
  ultimately show ?thesis
    using assms slots_clear [where ps = "procs s", OF assms(2-4)]
    by (auto simp: refs_def bump_def fds_ok_def idle_def)
qed

lemma fdalloc_refs:
  assumes "refs d s" "f < NFILE"
  shows "okp (fdalloc f s) (\<lambda>(r, t). case r of None \<Rightarrow> t = s
    | Some fd \<Rightarrow> fd < NOFILE \<and> refs (bump f (-1) d) t \<and> (\<exists>p. cur t = Some p \<and> ofile (procs t p) fd = Some f))"
proof -
  have "refs (bump f (-1) d) (set_ofile p fd (Some f) s) \<and> fd < NOFILE"
    if "cur s = Some p" "first_slot NOFILE (\<lambda>fd. ofile (procs s p) fd = None) = Some fd" for p fd
    using set_ofile_refs [OF assms(1) refs_cur [OF assms(1) that(1)] _ _ assms(2)] first_slot_SomeD [OF that(2)] by simp
  then show ?thesis
    using assms(1) by (auto simp: fdalloc_def set_ofile_def upd_proc_def intro!: okp_with_proc split: option.splits)
qed

lemma okp_with_arg:
  "P (Some (-1), s) \<Longrightarrow> (\<And>v. m = Ok (Some v) \<Longrightarrow> okp (f v) P) \<Longrightarrow> okp (with_arg m s f) P"
  by (cases m) (auto simp: with_arg_def split: option.splits)

lemma argfd_ok:
  "argfd n s = Ok (Some (fd, f)) \<Longrightarrow> \<exists>p. cur s = Some p \<and> fd < NOFILE \<and> ofile (procs s p) fd = Some f"
  by (auto simp: argfd_def Let_def split: option.splits if_splits)

lemma refs_file:
  "refs d s \<Longrightarrow> cur s = Some p \<Longrightarrow> fd < NOFILE \<Longrightarrow> ofile (procs s p) fd = Some f \<Longrightarrow> p < NPROC \<and> f < NFILE"
  by (auto simp: refs_def fds_ok_def)

lemma sys_dup_refs: "refs d s \<Longrightarrow> okp (sys_dup s) (\<lambda>(r, t). refs d t)"
proof -
  assume s: "refs d s"
  have "okp (kbind (fdalloc f s) (\<lambda>(fd, s). case fd of None \<Rightarrow> Ok (Some (-1), s)
      | Some fd \<Rightarrow> kbind (filedup f s) (\<lambda>s. Ok (Some (word_of_nat fd), s)))) (\<lambda>(r, t). refs d t)" if "f < NFILE" for f
    unfolding okp_kbind
  proof (rule okp_mono [OF fdalloc_refs [OF s that]], clarify)
    fix r t
    assume "case r of None \<Rightarrow> t = s
      | Some fd \<Rightarrow> fd < NOFILE \<and> refs (bump f (-1) d) t \<and> (\<exists>p. cur t = Some p \<and> ofile (procs t p) fd = Some f)"
    then show "okp (case r of None \<Rightarrow> Ok (Some (-1), t)
        | Some fd \<Rightarrow> kbind (filedup f t) (\<lambda>s. Ok (Some (word_of_nat fd), s))) (\<lambda>(r, t). refs d t)"
      using filedup_refs [of "bump f (-1) d" t f] s by (auto simp: okp_kbind split: option.splits)
  qed
  with s refs_file [OF s] show ?thesis
    by (auto simp: sys_dup_def intro!: okp_with_arg dest!: argfd_ok)
qed

lemma sys_close_refs: "refs d s \<Longrightarrow> okp (sys_close s) (\<lambda>(r, t). refs d t)"
proof -
  assume s: "refs d s"
  have "okp (fileclose f (set_ofile p fd None s)) (refs d)"
    if "cur s = Some p" "fd < NOFILE" "ofile (procs s p) fd = Some f" for p fd f
    using fileclose_refs [OF clear_ofile_refs [OF s _ that(2,3)], of f] refs_file [OF s that] by simp
  then show ?thesis
    using s by (auto simp: sys_close_def okp_kbind intro!: okp_with_arg okp_with_proc dest!: argfd_ok)
qed

section \<open>System calls on the file system\<close>

lemmas refs_binds = rf.bind1 [where d = "\<lambda>_. 0"] rf.bind2 [where d = "\<lambda>_. 0"] rf.bind3 [where d = "\<lambda>_. 0"]
  okp_with_proc

abbreviation "refs0 \<equiv> refs (\<lambda>_. 0)"

lemma end_with_refs: "refs0 s \<Longrightarrow> okp (end_with v s) (\<lambda>(r, t). refs0 t)"
  by (auto simp: end_with_def intro!: refs_binds rf.end_op_I)

lemma add_nlink_refs: "refs0 s \<Longrightarrow> okp (add_nlink ip k s) refs0"
  by (auto simp: add_nlink_def intro!: rf.iupdate_I rf.inode_I)

lemma create_refs: "refs0 s \<Longrightarrow> okp (create path type ma mi s) (\<lambda>(r, t). refs0 t)"
  by (auto simp: create_def create_new_def create_dots_def
      intro!: refs_binds rf.fs_rules add_nlink_refs rf.inode_I split: option.splits)

lemma open_inode_refs: "refs0 s \<Longrightarrow> okp (open_inode path m s) (\<lambda>(r, t). refs0 t)"
  by (auto simp: open_inode_def intro!: refs_binds rf.fs_rules create_refs split: option.splits)

lemma close_opt_refs:
  "refs (case f of None \<Rightarrow> d | Some f \<Rightarrow> bump f 1 d) s \<Longrightarrow> okp (close_opt f s) (refs d)"
proof (cases f)
  case (Some g)
  assume "refs (case f of None \<Rightarrow> d | Some f \<Rightarrow> bump f 1 d) s"
  with fileclose_refs [of "bump g 1 d" s g] Some show ?thesis by (simp add: close_opt_def)
qed (simp add: close_opt_def)

lemma sys_open_fds_refs:
  assumes "refs0 s"
  shows "okp (let (f, s) = filealloc s in
           kbind (case f of None \<Rightarrow> Ok (None, s) | Some f \<Rightarrow> fdalloc f s) (\<lambda>(fd, s).
           case (f, fd) of
             (Some f, Some fd) \<Rightarrow>
               kbind (iunlock ip s) (\<lambda>s.
               kbind (end_op s) (\<lambda>s.
               Ok (Some (word_of_nat fd), upd_file f (inode_file ip omode) s)))
           | _ \<Rightarrow>
               kbind (close_opt f s) (\<lambda>s.
               kbind (iunlockput ip s) (end_with (-1))))) (\<lambda>(r, t). refs0 t)"
proof -
  obtain f t where ft: "filealloc s = (f, t)" by fastforce
  note a = filealloc_refs [OF ft assms]
  have fin: "okp (kbind (close_opt f u) (\<lambda>s. kbind (iunlockput ip s) (end_with (-1)))) (\<lambda>(r, t). refs0 t)"
    if "refs (case f of None \<Rightarrow> \<lambda>_. 0 | Some f \<Rightarrow> bump f 1 (\<lambda>_. 0)) u" for u
    using close_opt_refs [OF that] by (auto intro!: refs_binds rf.fs_rules end_with_refs)
  have opened: "okp (kbind (iunlock ip u) (\<lambda>s. kbind (end_op s) (\<lambda>s.
      Ok (Some (word_of_nat fd), upd_file g (inode_file ip omode) s)))) (\<lambda>(r, t). refs0 t)" if "refs0 u" for u g and fd :: nat
    using that by (auto intro!: refs_binds rf.fs_rules refs_upd_file simp: inode_file_def)
  show ?thesis
  proof (cases f)
    case None
    then show ?thesis using a ft fin assms by simp
  next
    case (Some g)
    then have g: "g < NFILE" "refs (bump g 1 (\<lambda>_. 0)) t" using a by simp_all
    have "okp (fdalloc g t) (\<lambda>(r, u). case r of None \<Rightarrow> refs (bump g 1 (\<lambda>_. 0)) u | Some fd \<Rightarrow> refs0 u)"
      by (rule okp_mono [OF fdalloc_refs [OF g(2,1)]]) (use g(2) in \<open>auto split: option.splits\<close>)
    then have "okp (kbind (fdalloc g t) (\<lambda>(fd, s). case (f, fd) of
        (Some f, Some fd) \<Rightarrow> kbind (iunlock ip s) (\<lambda>s. kbind (end_op s) (\<lambda>s.
          Ok (Some (word_of_nat fd), upd_file f (inode_file ip omode) s)))
      | _ \<Rightarrow> kbind (close_opt f s) (\<lambda>s. kbind (iunlockput ip s) (end_with (-1))))) (\<lambda>(r, t). refs0 t)"
      unfolding okp_kbind [of "fdalloc g t"]
      by (rule okp_mono) (use Some opened fin in \<open>auto split: option.splits\<close>)
    then show ?thesis unfolding ft Let_def prod.case Some by simp
  qed
qed

lemma sys_open_refs: "refs0 s \<Longrightarrow> okp (sys_open s) (\<lambda>(r, t). refs0 t)"
  unfolding sys_open_def
  by (auto intro!: okp_with_arg refs_binds rf.fs_rules open_inode_refs end_with_refs sys_open_fds_refs [simplified]
      split: option.split)

lemma link_bad_refs: "refs0 s \<Longrightarrow> okp (link_bad ip s) (\<lambda>(r, t). refs0 t)"
  by (auto simp: link_bad_def intro!: refs_binds rf.fs_rules add_nlink_refs end_with_refs)

lemma sys_link_refs: "refs0 s \<Longrightarrow> okp (sys_link s) (\<lambda>(r, t). refs0 t)"
  by (auto simp: sys_link_def intro!: okp_with_arg refs_binds rf.fs_rules add_nlink_refs end_with_refs link_bad_refs
      split: option.split)

lemma isdirempty_refs: "refs0 s \<Longrightarrow> okp (isdirempty dp s) (\<lambda>(r, t). refs0 t)"
proof -
  have "refs0 s \<Longrightarrow> okp (isdirempty_from dp offs s) (\<lambda>(r, t). refs0 t)" for offs
    by (induction offs arbitrary: s) (auto intro!: refs_binds rf.fs_rules)
  then show "refs0 s \<Longrightarrow> ?thesis" by (simp add: isdirempty_def)
qed

lemma sys_unlink_refs: "refs0 s \<Longrightarrow> okp (sys_unlink s) (\<lambda>(r, t). refs0 t)"
  by (auto simp: sys_unlink_def unlink_bad_def unlink_entry_def
      intro!: okp_with_arg refs_binds rf.fs_rules add_nlink_refs end_with_refs isdirempty_refs split: option.split)

lemma okp_with_op_arg:
  "refs0 s \<Longrightarrow> (\<And>v. okp (f v) (\<lambda>(r, t). refs0 t)) \<Longrightarrow> okp (with_op_arg m s f) (\<lambda>(r, t). refs0 t)"
  by (cases m) (auto simp: with_op_arg_def intro!: end_with_refs split: option.splits)

lemma made_refs: "refs0 s \<Longrightarrow> okp (made (ip, s)) (\<lambda>(r, t). refs0 t)"
  by (auto simp: made_def intro!: refs_binds rf.fs_rules end_with_refs split: option.split)

lemma sys_mk_refs:
  "refs0 s \<Longrightarrow> okp (sys_mkdir s) (\<lambda>(r, t). refs0 t)" "refs0 s \<Longrightarrow> okp (sys_mknod s) (\<lambda>(r, t). refs0 t)"
  by (auto simp: sys_mkdir_def sys_mknod_def intro!: refs_binds okp_with_op_arg rf.fs_rules create_refs made_refs)

lemma sys_chdir_refs: "refs0 s \<Longrightarrow> okp (sys_chdir s) (\<lambda>(r, t). refs0 t)"
  by (auto simp: sys_chdir_def intro!: refs_binds okp_with_op_arg rf.fs_rules end_with_refs refs_upd_proc
      simp: idle_def split: option.split) (blast dest: refs_cur(1))

lemma fileread_refs: "refs0 s \<Longrightarrow> okp (fileread f n s) (\<lambda>(x, y, t). refs0 t)"
  by (auto simp: fileread_def Let_def intro!: refs_binds rf.fs_rules rf.piperead_I refs_upd_file split: ftype.split)

lemma filewrite_loop_refs: "refs0 s \<Longrightarrow> okp (filewrite_loop f bs s) (\<lambda>(r, t). refs0 t)"
proof (induction bs arbitrary: s rule: measure_induct_rule [of length])
  case (less bs)
  then show ?case
    by (subst filewrite_loop.simps)
      (auto simp: Let_def intro!: refs_binds rf.fs_rules refs_upd_file less.IH)
qed

lemma filewrite_refs: "refs0 s \<Longrightarrow> okp (filewrite f n bs s) (\<lambda>(r, t). refs0 t)"
  by (auto simp: filewrite_def Let_def intro!: refs_binds rf.pipewrite_I filewrite_loop_refs split: ftype.split)

lemma ret_refs: "okp m (\<lambda>(r, t). refs0 t) \<Longrightarrow> okp (ret m) (\<lambda>(r, t). refs0 t)"
  by (auto simp: ret_def intro!: refs_binds)

lemma sys_io_refs:
  "refs0 s \<Longrightarrow> okp (sys_read s) (\<lambda>(r, t). refs0 t)" "refs0 s \<Longrightarrow> okp (sys_write s) (\<lambda>(r, t). refs0 t)"
  by (auto simp: sys_read_def sys_write_def
      intro!: okp_with_arg refs_binds fileread_refs rf.ustore_I okp_any [where 'a = "u8 list"] ret_refs filewrite_refs)

lemma sys_fstat_refs: "refs0 s \<Longrightarrow> okp (sys_fstat s) (\<lambda>(r, t). refs0 t)"
  by (auto simp: sys_fstat_def filestat_def store_stat_def Let_def
      intro!: okp_with_arg refs_binds rf.fs_rules rf.ustore_I split: option.split)

lemma close_two_refs:
  assumes "refs (bump g 1 (bump f 1 (\<lambda>_. 0))) s"
  shows "okp (kbind (fileclose f s) (\<lambda>s. kbind (fileclose g s) (\<lambda>s. Ok (v, s)))) (\<lambda>(r, t). r = v \<and> refs0 t)"
  unfolding okp_kbind
proof (rule okp_mono [OF fileclose_refs [OF assms]])
  fix t
  assume "refs (bump f (-1) (bump g 1 (bump f 1 (\<lambda>_. 0)))) t"
  then have "refs (bump g 1 (\<lambda>_. 0)) t" by (subst (asm) bump_swap) simp
  from fileclose_refs [OF this, of g] show "okp (fileclose g t) (\<lambda>x. okp (Ok (v, x)) (\<lambda>(r, t). r = v \<and> refs0 t))"
    by simp
qed

lemma pipealloc_refs:
  assumes "refs0 s"
  shows "okp (pipealloc s) (\<lambda>(r, t). case r of None \<Rightarrow> refs0 t
    | Some (f, g) \<Rightarrow> f < NFILE \<and> g < NFILE \<and> refs (bump g 1 (bump f 1 (\<lambda>_. 0))) t)"
proof -
  obtain f0 s0 where a: "filealloc s = (f0, s0)" by fastforce
  note a' = filealloc_refs [OF a assms]
  obtain f1 s1 where b: "filealloc s0 = (f1, s1)" by fastforce
  obtain p s2 where k: "kalloc s1 = (p, s2)" by fastforce
  show ?thesis
  proof (cases f0)
    case None
    then show ?thesis using a a' assms by (simp add: pipealloc_def close_opt_def)
  next
    case (Some f)
    with a' have f: "f < NFILE" "refs (bump f 1 (\<lambda>_. 0)) s0" by simp_all
    note b' = filealloc_refs [OF b f(2)]
    show ?thesis
    proof (cases f1)
      case None
      have "okp (fileclose f s0) refs0" using fileclose_refs [OF f(2), of f] by simp
      then show ?thesis using a b Some None b' by (auto simp: pipealloc_def close_opt_def okp_kbind elim!: okp_mono)
    next
      case (Some g)
      with b' have g: "g < NFILE" "refs (bump g 1 (bump f 1 (\<lambda>_. 0))) s1" by simp_all
      note s2 = rf.kalloc_I [OF g(2) k]
      from close_two_refs [OF this] have bad: "okp (kbind (fileclose f s2) (\<lambda>s. kbind (fileclose g s) (\<lambda>s. Ok (None, s))))
        (\<lambda>(r, t). case r of None \<Rightarrow> refs0 t | Some (f, g) \<Rightarrow> f < NFILE \<and> g < NFILE \<and> refs (bump g 1 (bump f 1 (\<lambda>_. 0))) t)"
        by (auto simp: okp_kbind elim!: okp_mono)
      have "refs (bump g 1 (bump f 1 (\<lambda>_. 0)))
          (upd_file g (pipe_file True p) (upd_file f (pipe_file False p) (upd_pipe p pipe_init s2)))"
        by (intro refs_upd_file rf.pipe_I s2) (simp_all add: pipe_file_def)
      then show ?thesis using a b k Some \<open>f0 = Some f\<close> f g bad by (simp add: pipealloc_def)
    qed
  qed
qed

lemma sys_pipe_fds_refs:
  assumes s: "refs (bump w 1 (bump f 1 (\<lambda>_. 0))) s" and "f < NFILE" "w < NFILE"
  shows "okp (kbind (fdalloc f s) (\<lambda>(fd0, s).
     kbind (case fd0 of None \<Rightarrow> Ok (None, s) | Some _ \<Rightarrow> fdalloc w s) (\<lambda>(fd1, s).
     case (fd0, fd1) of
       (Some fd0, Some fd1) \<Rightarrow>
         kbind (ustore32 fda (word_of_nat fd0) s) (\<lambda>s.
         kbind (ustore32 (fda + 4) (word_of_nat fd1) s) (\<lambda>s. Ok (Some (0 :: u32), s)))
     | _ \<Rightarrow>
         with_proc s (\<lambda>p.
         kbind (fileclose f (case fd0 of None \<Rightarrow> s | Some fd0 \<Rightarrow> set_ofile p fd0 None s)) (\<lambda>s.
         kbind (fileclose w s) (\<lambda>s. Ok (Some (-1), s))))))) (\<lambda>(r, t). refs0 t)" (is "okp (kbind _ ?k) ?P")
proof -
  have close: "okp (kbind (fileclose f t) (\<lambda>s. kbind (fileclose w s) (\<lambda>s. Ok (Some (-1 :: u32), s)))) ?P"
    if "refs (bump w 1 (bump f 1 (\<lambda>_. 0))) t" for t
    by (rule okp_mono [OF close_two_refs [OF that]]) auto
  have "okp (?k (None, s)) ?P" using close [OF s] by (auto intro!: okp_with_proc)
  moreover have "okp (?k (Some fd, t)) ?P" if fd: "fd < NOFILE" and t: "refs (bump f (-1) (bump w 1 (bump f 1 (\<lambda>_. 0)))) t"
    and c: "cur t = Some p" "ofile (procs t p) fd = Some f" for fd t p
  proof -
    have tw: "refs (bump w 1 (\<lambda>_. 0)) t" using t by (subst (asm) bump_swap) simp
    have undo: "refs (bump w 1 (bump f 1 (\<lambda>_. 0))) (set_ofile p fd None t)"
      using clear_ofile_refs [OF tw refs_cur(1) [OF tw c(1)] fd c(2)] by (subst bump_swap)
    have "okp (fdalloc w t) (\<lambda>(r, u). case r of None \<Rightarrow> u = t | Some fd1 \<Rightarrow> refs0 u)"
      by (rule okp_mono [OF fdalloc_refs [OF tw assms(3)]]) (auto split: option.splits)
    moreover have "okp (kbind (ustore32 fda (word_of_nat fd) u) (\<lambda>s. kbind (ustore32 (fda + 4) (word_of_nat fd1) s)
        (\<lambda>s. Ok (Some (0 :: u32), s)))) ?P" if "refs0 u" for u and fd1 :: nat
      using that by (auto simp: ustore32_def intro!: refs_binds rf.ustore_I)
    ultimately show ?thesis
      unfolding prod.case option.case okp_kbind [of "fdalloc w t"]
      by (elim okp_mono) (use close [OF undo] c(1) in \<open>auto simp: with_proc_def split: option.splits\<close>)
  qed
  ultimately show ?thesis
    unfolding okp_kbind [of "fdalloc f s"]
    by (intro okp_mono [OF fdalloc_refs [OF s assms(2)]]) (auto split: option.splits)
qed

lemma sys_pipe_refs: "refs0 s \<Longrightarrow> okp (sys_pipe s) (\<lambda>(r, t). refs0 t)"
  unfolding sys_pipe_def
  by (rule okp_with_arg, simp, unfold okp_kbind [of "pipealloc s"], rule okp_mono [OF pipealloc_refs])
    (auto simp del: kbind.simps intro!: sys_pipe_fds_refs [simplified] split: option.splits)

section \<open>System calls on processes\<close>

lemma lock_refs: "refs d s \<Longrightarrow> okp (acquire_lk l s) (refs d)" "refs d s \<Longrightarrow> okp (release_lk l s) (refs d)"
  by (auto simp: acquire_lk_def release_lk_def Let_def okp_def intro: refs_cong [THEN iffD2])

lemma sched_refs:
  assumes "\<And>p. cur s = Some p \<Longrightarrow> refs d (s\<lparr>cur := None\<rparr>)"
  shows "okp (sched k s) (refs d)"
proof -
  have "refs d (scheduler_back (upd_proc p (\<lambda>r. r\<lparr>kont := x\<rparr>) s))" if "cur s = Some p" for p x
  proof -
    have "slots ((procs s)(p := (procs s p)\<lparr>kont := x\<rparr>)) f = slots (procs s) f" for f
      by (intro slots_cong) simp
    moreover have "fds_ok ((procs s p)\<lparr>kont := x\<rparr>) = fds_ok (procs s p)" by (simp add: fds_ok_def idle_def)
    ultimately show ?thesis
      using assms [OF that] by (simp add: refs_def scheduler_back_def switchkvm_def upd_proc_def)
  qed
  then show ?thesis by (auto simp: sched_def intro!: okp_with_proc)
qed

lemma sleep_refs: "refs d s \<Longrightarrow> okp (sleep c lk s) (refs d)"
proof -
  assume s: "refs d s"
  have "okp (sched k (upd_proc p (\<lambda>r. r\<lparr>chan := c, state := SLEEPING\<rparr>) t)) (refs d)" if "refs d t" for t k p
  proof (rule sched_refs)
    fix q
    have "refs d (upd_proc p (\<lambda>r. r\<lparr>chan := c, state := SLEEPING\<rparr>) t)"
      using that by (intro refs_upd_proc_gen) (auto simp: idle_def)
    then show "refs d (upd_proc p (\<lambda>r. r\<lparr>chan := c, state := SLEEPING\<rparr>) t\<lparr>cur := None\<rparr>)" by (simp add: refs_def)
  qed
  then show ?thesis
    using s by (auto simp: sleep_def intro!: rf.bind1 [where d = d] lock_refs split: option.split)
qed

lemma sys_sleep_refs: "refs0 s \<Longrightarrow> okp (sys_sleep s) (\<lambda>(r, t). refs0 t)"
  by (auto simp: sys_sleep_def sys_sleep_loop_def intro!: okp_with_arg refs_binds lock_refs sleep_refs)

lemma wait_refs: "refs0 s \<Longrightarrow> okp (wait s) (\<lambda>(r, t). refs0 t)"
proof -
  have fr: "okp (kbind (freevm (pgdir (procs t p)) (upd_proc p (\<lambda>r. r\<lparr>kstack := 0\<rparr>) t)) (\<lambda>s.
      kbind (release_lk LPtable (upd_proc p clear_proc s)) (\<lambda>s. Ok (Some n, s)))) (\<lambda>(r, t). refs0 t)"
    if t: "refs0 t" "p < NPROC" "state (procs t p) = ZOMBIE" for t p and n :: int
  proof -
    let ?t = "upd_proc p (\<lambda>r. r\<lparr>kstack := 0\<rparr>) t"
    have "refs0 ?t" using t by (intro refs_upd_proc) (auto simp: idle_def)
    then have "okp (freevm (pgdir (procs t p)) ?t) (\<lambda>u. refs0 u \<and> calm ?t u)"
      using rf.freevm_I [of "\<lambda>_. 0" ?t] cf.freevm_I [OF calm_refl] by (auto simp: okp_def)
    moreover have "okp (kbind (release_lk LPtable (upd_proc p clear_proc u)) (\<lambda>s. Ok (Some n, s))) (\<lambda>(r, t). refs0 t)"
      if "refs0 u" "calm ?t u" for u
    proof -
      have "settled (procs ?t p) (procs u p)" using that(2) by (simp add: calm_def del: procs_upd_proc)
      then have "state (procs u p) = ZOMBIE" using t(3) by (auto simp: settled_def)
      then have "refs0 (upd_proc p clear_proc u)"
        using that(1) t(2) by (intro refs_upd_proc) (auto simp: idle_def clear_proc_def)
      then show ?thesis by (auto intro!: refs_binds lock_refs)
    qed
    ultimately show ?thesis unfolding okp_kbind [of "freevm _ _"] by (elim okp_mono) blast
  qed
  have kf: "okp (kfree k t) (\<lambda>u. refs0 u \<and> procs u = procs t)" if "refs0 t" for k t
    using rf.kfree_I [OF that, of k] by (auto simp: okp_def kfree_def Let_def split: if_splits)
  have reap: "okp (kbind (kfree k t) (\<lambda>s.
      kbind (freevm (pgdir (procs s p)) (upd_proc p (\<lambda>r. r\<lparr>kstack := 0\<rparr>) s)) (\<lambda>s.
      kbind (release_lk LPtable (upd_proc p clear_proc s)) (\<lambda>s. Ok (Some n, s))))) (\<lambda>(r, t). refs0 t)"
    if "refs0 t" "p < NPROC" "state (procs t p) = ZOMBIE" for t p k and n :: int
    unfolding okp_kbind [of "kfree k t"]
  proof (rule okp_mono [OF kf [OF that(1)]])
    fix u
    assume "refs0 u \<and> procs u = procs t"
    with that(3) have "refs0 u" "state (procs u p) = ZOMBIE" by simp_all
    from fr [OF this(1) that(2) this(2)] show "okp (kbind (freevm (pgdir (procs u p)) (upd_proc p (\<lambda>r. r\<lparr>kstack := 0\<rparr>) u))
      (\<lambda>s. kbind (release_lk LPtable (upd_proc p clear_proc s)) (\<lambda>s. Ok (Some n, s)))) (\<lambda>(r, t). refs0 t)" .
  qed
  have "okp (wait_loop t) (\<lambda>(r, t). refs0 t)" if t: "refs0 t" for t
    unfolding wait_loop_def Let_def
  proof (rule okp_with_proc, split option.split, intro conjI impI allI)
    fix c p
    assume "first_slot NPROC (\<lambda>i. parent (procs t i) = Some c \<and> state (procs t i) = ZOMBIE) = Some p"
    from reap [OF t, of p] first_slot_SomeD [OF this] show "okp (kbind (kfree (kstack (procs t p)) t) (\<lambda>s.
      kbind (freevm (pgdir (procs s p)) (upd_proc p (\<lambda>r. r\<lparr>kstack := 0\<rparr>) s)) (\<lambda>s.
      kbind (release_lk LPtable (upd_proc p clear_proc s)) (\<lambda>s. Ok (Some (pid (procs t p)), s))))) (\<lambda>(r, t). refs0 t)"
      by blast
  qed (use t in \<open>auto intro!: refs_binds lock_refs sleep_refs\<close>)
  then show "refs0 s \<Longrightarrow> ?thesis" by (auto simp: wait_def intro!: refs_binds lock_refs)
qed

text \<open>The file system does not touch descriptors.\<close>

definition keeps_fds :: "kernel \<Rightarrow> kernel \<Rightarrow> bool" where
  "keeps_fds s0 t \<longleftrightarrow> cur t = cur s0 \<and>
     (\<forall>p. ofile (procs t p) = ofile (procs s0 p) \<and> idle (procs t p) = idle (procs s0 p))"

lemma keeps_fds_refl [simp]: "keeps_fds s s"
  by (simp add: keeps_fds_def)

interpretation kf: file_frame "keeps_fds s0" for s0
proof
  show "keeps_fds s0 s \<Longrightarrow> keeps_fds s0 (wakeup c s)" for s c
    by (simp add: keeps_fds_def wakeup_def)
qed (simp_all add: keeps_fds_def upd_buf_def upd_log_def upd_inode_def upd_input_def upd_file_def upd_pipe_def)

lemma okp_conj: "okp m P \<Longrightarrow> okp m Q \<Longrightarrow> okp m (\<lambda>x. P x \<and> Q x)"
  by (simp add: okp_def)

lemma exit_file_refs:
  assumes "refs0 s" "cur s = Some c" "fd < NOFILE"
  shows "okp (exit_file c fd s) (\<lambda>t. refs0 t \<and> cur t = Some c \<and> ofile (procs t c) = (ofile (procs s c))(fd := None))"
proof (cases "ofile (procs s c) fd")
  case None
  then show ?thesis using assms by (auto simp: exit_file_def)
next
  case (Some f)
  have "refs0 (set_ofile c fd None t)" if "refs (bump f (-1) (\<lambda>_. 0)) t" "keeps_fds s t" for t
    using clear_ofile_refs [OF that(1), of c fd f] that(2) Some assms refs_cur(1) [OF assms(1,2)]
    by (simp add: keeps_fds_def)
  moreover have "cur (set_ofile c fd None t) = Some c \<and> ofile (procs (set_ofile c fd None t) c) = (ofile (procs s c))(fd := None)"
    if "keeps_fds s t" for t
    using that assms(2) by (simp add: keeps_fds_def set_ofile_def upd_proc_def)
  ultimately have "okp (fileclose f s) (\<lambda>t. refs0 (set_ofile c fd None t) \<and> cur (set_ofile c fd None t) = Some c \<and>
      ofile (procs (set_ofile c fd None t) c) = (ofile (procs s c))(fd := None))"
    by (intro okp_mono [OF okp_conj [OF fileclose_refs [OF assms(1), of f] kf.fileclose_I [OF keeps_fds_refl]]]) blast
  then show ?thesis using Some by (simp add: exit_file_def okp_kbind set_ofile_def)
qed

lemma exit_files_refs:
  "refs0 s \<Longrightarrow> cur s = Some c \<Longrightarrow> n \<le> NOFILE \<Longrightarrow>
    okp (for_each (exit_file c) [0..<n] s) (\<lambda>t. refs0 t \<and> cur t = Some c \<and> (\<forall>fd<n. ofile (procs t c) fd = None))"
proof (induction n)
  case (Suc n)
  show ?case
    unfolding upt_Suc_append [OF le0] for_each_append okp_kbind
  proof (rule okp_mono [OF Suc.IH])
    fix t
    assume t: "refs0 t \<and> cur t = Some c \<and> (\<forall>fd<n. ofile (procs t c) fd = None)"
    show "okp (for_each (exit_file c) [n] t)
        (\<lambda>t. refs0 t \<and> cur t = Some c \<and> (\<forall>fd<Suc n. ofile (procs t c) fd = None))"
      using exit_file_refs [of t c n] t Suc.prems(3)
      by (auto simp: okp_kbind less_Suc_eq elim!: okp_mono)
  qed (use Suc.prems in simp_all)
qed simp

lemma adopted_fds:
  assumes "adopted c ps ps'"
  shows "ofile (ps' i) = ofile (ps i)" "idle (ps' i) = idle (ps i)"
proof -
  have e: "(ps' i)\<lparr>state := UNUSED, parent := None\<rparr> = (ps i)\<lparr>state := UNUSED, parent := None\<rparr>"
    using assms by (simp add: adopted_def)
  then show "ofile (ps' i) = ofile (ps i)" by (cases "ps i"; cases "ps' i"; simp)
  show "idle (ps' i) = idle (ps i)" using assms [unfolded adopted_def, rule_format, of i] by (auto simp: idle_def)
qed

lemma exit_sched_refs:
  assumes v: "refs0 v" "\<forall>fd<NOFILE. ofile (procs v c) fd = None"
  shows "okp (sched InExit (v\<lparr>procs := (fold (adopt ini c) is (wakeup1 ch (procs v)))(c :=
      (fold (adopt ini c) is (wakeup1 ch (procs v)) c)\<lparr>state := ZOMBIE\<rparr>)\<rparr>)) refs0"
proof (rule sched_refs)
  let ?ps = "fold (adopt ini c) is (wakeup1 ch (procs v))"
  have "adopted c (procs v) ?ps" by (intro adopted_fold adopted_wake) simp
  note ad = adopted_fds [OF this]
  have "ofile ((?ps(c := (?ps c)\<lparr>state := ZOMBIE\<rparr>)) p) = ofile (procs v p)" for p using ad by simp
  then have "slots (?ps(c := (?ps c)\<lparr>state := ZOMBIE\<rparr>)) f = slots (procs v) f" for f by (intro slots_cong)
  moreover have "fds_ok ((?ps(c := (?ps c)\<lparr>state := ZOMBIE\<rparr>)) p)" if "fds_ok (procs v p)" for p
    using that v(2) ad by (auto simp: fds_ok_def)
  ultimately show "refs0 (v\<lparr>procs := ?ps(c := (?ps c)\<lparr>state := ZOMBIE\<rparr>)\<rparr>\<lparr>cur := None\<rparr>)"
    using v(1) by (simp add: refs_def)
qed

text \<open>The current process has closed all its files.\<close>

definition closed :: "nat \<Rightarrow> kernel \<Rightarrow> bool" where
  "closed c s \<longleftrightarrow> refs0 s \<and> cur s = Some c \<and> (\<forall>fd<NOFILE. ofile (procs s c) fd = None)"

lemma put_closed: "closed c t \<Longrightarrow> okp (put_in_op ip t) (closed c)"
proof -
  assume t: "closed c t"
  then have "refs0 t" by (simp add: closed_def)
  from okp_conj [OF rf.put_in_op_I [OF this] kf.put_in_op_I [OF keeps_fds_refl]] show ?thesis
    by (rule okp_mono) (use t in \<open>simp add: closed_def keeps_fds_def\<close>)
qed

lemma lock_closed: "closed c u \<Longrightarrow> okp (acquire_lk LPtable (upd_proc c (\<lambda>r. r\<lparr>cwd := None\<rparr>) u)) (closed c)"
proof -
  assume u: "closed c u"
  then have "refs0 (upd_proc c (\<lambda>r. r\<lparr>cwd := None\<rparr>) u)"
    using refs_cur(1) [of _ u c] by (intro refs_upd_proc) (auto simp: closed_def idle_def)
  from lock_refs(1) [OF this, of LPtable] u show ?thesis
    by (auto simp: okp_def closed_def acquire_lk_def Let_def upd_proc_def split: if_splits)
qed

lemma exit_refs: "refs0 s \<Longrightarrow> okp (exit s) refs0"
  unfolding exit_def Let_def
proof (rule okp_with_proc, split if_split, intro conjI impI)
  fix c
  assume s: "refs0 s" "cur s = Some c"
  have fin: "okp (sched InExit (v\<lparr>procs := (fold (adopt ini c) is (wakeup1 ch (procs v)))(c :=
      (fold (adopt ini c) is (wakeup1 ch (procs v)) c)\<lparr>state := ZOMBIE\<rparr>)\<rparr>)) refs0" if "closed c v" for v ini ch "is"
    using that exit_sched_refs by (simp add: closed_def)
  have "okp (for_each (exit_file c) [0..<NOFILE] s) (closed c)"
    by (rule okp_mono [OF exit_files_refs [OF s order_refl]]) (simp add: closed_def)
  then show "okp (kbind (for_each (exit_file c) [0..<NOFILE] s) (\<lambda>s. case cwd (procs s c) of
        None \<Rightarrow> Fault ''iput: null inode''
      | Some ip \<Rightarrow> kbind (put_in_op ip s) (\<lambda>s. kbind (acquire_lk LPtable (upd_proc c (\<lambda>r. r\<lparr>cwd := None\<rparr>) s)) (\<lambda>s.
          sched InExit (s\<lparr>procs := (fold (adopt (initproc s) c) [0..<NPROC] (wakeup1 (proc_chan (parent (procs s c))) (procs s)))
            (c := (fold (adopt (initproc s) c) [0..<NPROC] (wakeup1 (proc_chan (parent (procs s c))) (procs s)) c)\<lparr>state := ZOMBIE\<rparr>)\<rparr>))))) refs0"
    unfolding okp_kbind
    by (rule okp_mono) (auto split: option.splits intro!: okp_mono [OF put_closed] okp_mono [OF lock_closed] fin simp: okp_kbind)
qed simp

text \<open>Fork: the new process has none of the files from descriptor \<open>i\<close> on.\<close>

definition forking :: "nat \<Rightarrow> nat \<Rightarrow> nat \<Rightarrow> kernel \<Rightarrow> bool" where
  "forking c np i s \<longleftrightarrow> refs0 s \<and> cur s = Some c \<and> np < NPROC \<and> np \<noteq> c \<and> \<not> idle (procs s np) \<and>
     (\<forall>fd<NOFILE. i \<le> fd \<longrightarrow> ofile (procs s np) fd = None)"

lemma forking_frame: "forking c np i s \<Longrightarrow> refs0 t \<Longrightarrow> keeps_fds s t \<Longrightarrow> forking c np i t"
  by (simp add: forking_def keeps_fds_def)

lemma forking_upd:
  "forking c np i s \<Longrightarrow> ofile (g (procs s np)) = ofile (procs s np) \<Longrightarrow> \<not> idle (g (procs s np)) \<Longrightarrow>
    forking c np i (upd_proc np g s)"
  using refs_upd_proc_gen [of _ s g np] by (auto simp: forking_def upd_proc_def)

lemma forking_undo: "forking c np 0 s \<Longrightarrow> ofile (g (procs s np)) = ofile (procs s np) \<Longrightarrow> refs0 (upd_proc np g s)"
  by (rule refs_upd_proc_gen) (auto simp: forking_def)

lemma allocproc_refs:
  assumes "refs0 s" "cur s = Some c"
  shows "okp (allocproc s) (\<lambda>(r, t). case r of None \<Rightarrow> refs0 t | Some np \<Rightarrow> forking c np 0 t)"
proof (cases "first_slot NPROC (\<lambda>i. state (procs s i) = UNUSED)")
  case None
  then show ?thesis using assms by (simp add: allocproc_def)
next
  case (Some p)
  let ?s = "upd_proc p (\<lambda>r. init_signals (r\<lparr>state := EMBRYO, pid := nextpid s\<rparr>)) (s\<lparr>nextpid := nextpid s + 1\<rparr>)"
  have p: "p < NPROC" "idle (procs s p)" using first_slot_SomeD [OF Some] by (simp_all add: idle_def)
  then have n: "\<forall>fd<NOFILE. ofile (procs s p) fd = None" "p \<noteq> c"
    using assms by (auto simp: refs_def fds_ok_def)
  have "refs0 (s\<lparr>nextpid := nextpid s + 1\<rparr>)" using assms(1) by (simp add: refs_def)
  then have "refs0 ?s" by (rule refs_upd_proc_gen) (simp_all add: init_signals_def idle_def)
  then have f: "forking c p 0 ?s" using p n assms(2)
    by (simp add: forking_def) (simp add: upd_proc_def init_signals_def idle_def)
  obtain k t where k: "kalloc ?s = (k, t)" by fastforce
  have "forking c p 0 t"
    using forking_frame [OF f rf.kalloc_I [OF _ k] kf.kalloc_I [OF keeps_fds_refl k]] f by (simp add: forking_def)
  then have u: "forking c p 0 (upd_proc p (\<lambda>r. r\<lparr>kstack := k\<rparr>) t)"
    by (rule forking_upd) (use \<open>forking c p 0 t\<close> in \<open>simp_all add: forking_def idle_def\<close>)
  have "refs0 (upd_proc p (\<lambda>r. r\<lparr>state := UNUSED\<rparr>) (upd_proc p (\<lambda>r. r\<lparr>kstack := k\<rparr>) t))"
    using forking_undo [OF u, of "\<lambda>r. r\<lparr>state := UNUSED\<rparr>"] by simp
  moreover have "forking c p 0 (upd_proc p (\<lambda>r. r\<lparr>tfp := a, ctxp := b, kont := AtForkret\<rparr>)
      (upd_proc p (\<lambda>r. r\<lparr>kstack := k\<rparr>) t\<lparr>mem := m\<rparr>))" for a b m
  proof (rule forking_upd)
    show "forking c p 0 (upd_proc p (\<lambda>r. r\<lparr>kstack := k\<rparr>) t\<lparr>mem := m\<rparr>)"
      using u rf.mem_I by (auto simp: forking_def)
  qed (use u in \<open>simp_all add: forking_def idle_def\<close>)
  ultimately show ?thesis using Some k by (cases "k = 0") (simp_all add: allocproc_def Let_def)
qed

lemma fork_file_refs:
  assumes "forking c np i s" "i < NOFILE"
  shows "okp (fork_file c np i s) (forking c np (Suc i))"
proof (cases "ofile (procs s c) i")
  case None
  then show ?thesis using assms by (simp add: fork_file_def forking_def)
next
  case (Some f)
  have s: "refs0 s" "cur s = Some c" "np < NPROC" "np \<noteq> c" "\<not> idle (procs s np)" "ofile (procs s np) i = None"
    using assms by (simp_all add: forking_def)
  have f: "f < NFILE" using refs_file [OF s(1,2) assms(2) Some] by simp
  let ?t = "upd_file f (\<lambda>r. r\<lparr>f_ref := f_ref r + 1\<rparr>) s"
  have t: "refs (bump f 1 (\<lambda>_. 0)) ?t" "procs ?t = procs s" "cur ?t = cur s"
    using refs_bump_file [OF s(1), of f 1] by (simp_all add: upd_file_def)
  have "refs0 (set_ofile np i (Some f) ?t)"
    using set_ofile_refs [OF t(1) s(3) _ assms(2) _ f] s t(2) by simp
  then have "forking c np (Suc i) (set_ofile np i (Some f) ?t)"
    using assms(1) t(2,3) by (simp add: forking_def set_ofile_def) (simp add: upd_proc_def idle_def)
  then show ?thesis using Some by (simp add: fork_file_def filedup_def set_ofile_def)
qed

lemma fork_files_refs:
  "forking c np 0 s \<Longrightarrow> n \<le> NOFILE \<Longrightarrow> okp (for_each (fork_file c np) [0..<n] s) (forking c np n)"
proof (induction n)
  case (Suc n)
  then show ?case
    unfolding upt_Suc_append [OF le0] for_each_append okp_kbind
    by (intro okp_mono [OF Suc.IH]) (auto simp: okp_kbind intro!: okp_mono [OF fork_file_refs])
qed simp

lemma fork_tail_refs:
  assumes "forking c np 0 t"
  shows "okp (kbind (for_each (fork_file c np) [0..<NOFILE] t) (\<lambda>s.
      case cwd (procs s c) of
        None \<Rightarrow> Fault e
      | Some ip \<Rightarrow>
          let (ip, s) = idup ip s;
              s = upd_proc np (\<lambda>r. r\<lparr>cwd := Some ip,
                pname := safestrcpy (pname r) (cstr_of (pname (procs s c))) 16\<rparr>) s in
          Ok (pid (procs s np), upd_proc np (\<lambda>r. r\<lparr>state := RUNNABLE\<rparr>) s))) (\<lambda>(r, t). refs0 t)"
proof -
  have "refs0 (upd_proc np (\<lambda>r. r\<lparr>state := RUNNABLE\<rparr>) (upd_proc np (\<lambda>r. r\<lparr>cwd := x, pname := n r\<rparr>) (upd_inode i h u)))"
    if "forking c np NOFILE u" for u x i h n
  proof -
    have "refs0 (upd_inode i h u) = refs0 u" by (rule refs_cong) (simp_all add: upd_inode_def)
    then have "refs0 (upd_inode i h u)" using that by (simp add: forking_def)
    moreover have "procs (upd_inode i h u) = procs u" "cur (upd_inode i h u) = cur u" by (simp_all add: upd_inode_def)
    ultimately have "forking c np NOFILE (upd_inode i h u)" using that by (simp add: forking_def)
    then have f: "forking c np NOFILE (upd_proc np (\<lambda>r. r\<lparr>cwd := x, pname := n r\<rparr>) (upd_inode i h u))"
      by (rule forking_upd) (use \<open>forking c np NOFILE (upd_inode i h u)\<close> in \<open>simp_all add: forking_def idle_def\<close>)
    have "forking c np NOFILE (upd_proc np (\<lambda>r. r\<lparr>state := RUNNABLE\<rparr>) (upd_proc np (\<lambda>r. r\<lparr>cwd := x, pname := n r\<rparr>) (upd_inode i h u)))"
      by (rule forking_upd [OF f]) (simp_all add: idle_def)
    then show ?thesis by (simp add: forking_def)
  qed
  then show ?thesis
    unfolding okp_kbind
    by (intro okp_mono [OF fork_files_refs [OF assms order_refl]]) (simp add: idup_def Let_def split: option.split)
qed

lemma fork_copy_refs:
  assumes t: "forking c np 0 t"
  shows "okp (copyuvm d n t) (\<lambda>(d, u). forking c np 0 (upd_proc np (\<lambda>r. r\<lparr>pgdir := d\<rparr>) u))"
proof -
  have "refs0 t" using t by (simp add: forking_def)
  have "forking c np 0 (upd_proc np (\<lambda>r. r\<lparr>pgdir := d\<rparr>) u)" if "refs0 u" "keeps_fds t u" for d u
  proof (rule forking_upd)
    show f: "forking c np 0 u" by (rule forking_frame [OF t that])
    show "\<not> idle ((procs u np)\<lparr>pgdir := d\<rparr>)" using f by (simp add: forking_def idle_def)
  qed simp
  then show ?thesis
    by (intro okp_mono [OF okp_conj [OF rf.copyuvm_I [OF \<open>refs0 t\<close>] kf.copyuvm_I [OF keeps_fds_refl]]]) (auto split: prod.splits)
qed

lemma fork_undo_refs:
  assumes u: "forking c np 0 u"
  shows "okp (kfree k u) (\<lambda>s. refs0 (upd_proc np (\<lambda>r. r\<lparr>kstack := 0, state := UNUSED\<rparr>) s))"
proof -
  have "refs0 u" using u by (simp add: forking_def)
  then show ?thesis
    by (intro okp_mono [OF okp_conj [OF rf.kfree_I kf.kfree_I [OF keeps_fds_refl]]])
      (auto intro!: forking_undo forking_frame [OF u])
qed

lemma fork_fields:
  "forking c np 0 u \<Longrightarrow> forking c np 0 (upd_proc np (\<lambda>r. r\<lparr>sz := a, parent := b, tf := e, alarm_ticks_num := h\<rparr>) u)"
  by (rule forking_upd) (simp_all add: forking_def idle_def)

lemma fork_refs: "refs0 s \<Longrightarrow> okp (fork s) (\<lambda>(r, t). refs0 t)"
  unfolding fork_def
  apply (rule okp_with_proc, unfold okp_kbind [of "allocproc s"], rule okp_mono [OF allocproc_refs], assumption, assumption)
  subgoal for c x
    by (cases x; cases "fst x") (auto simp: Let_def okp_kbind [of "copyuvm _ _ _"] okp_kbind [of "kfree _ _"]
      simp del: procs_upd_proc intro!: okp_mono [OF fork_copy_refs] fork_undo_refs fork_tail_refs fork_fields)
  done

section \<open>The other calls of a process\<close>

lemma switchuvm_refs: "refs0 s \<Longrightarrow> okp (switchuvm p s) refs0"
proof -
  have "refs0 (s\<lparr>mycpu := a, cr3 := b, mycpu := c\<rparr>) = refs0 s" for a b c by (rule refs_cong) simp_all
  then show "refs0 s \<Longrightarrow> ?thesis" by (auto simp: switchuvm_def Let_def intro!: okp_with_proc okp_any)
qed

lemma fields_refs:
  assumes "refs0 s" "p < NPROC"
  shows "refs0 (upd_proc p (\<lambda>r. r\<lparr>sz := a\<rparr>) s)" "refs0 (upd_proc p (\<lambda>r. r\<lparr>sigretAdd := b, procHandlingSigNow := e\<rparr>) s)"
    "refs0 (upd_proc p (\<lambda>r. r\<lparr>pname := n r, pgdir := d, sz := a, tf := h r\<rparr>) s)"
    "refs0 (upd_proc p (\<lambda>r. r\<lparr>alarm_ticks_num := k\<rparr>) s)" "refs0 (upd_proc p (\<lambda>r. r\<lparr>sighandlers := m r\<rparr>) s)"
    "refs0 (upd_proc p (\<lambda>r. r\<lparr>pending := q r\<rparr>) s)" "refs0 (upd_proc p (\<lambda>r. r\<lparr>tf := t, procHandlingSigNow := e\<rparr>) s)"
    "refs0 (upd_proc p (tf_update v) s)"
    "refs0 (upd_proc p (\<lambda>r. r\<lparr>killed := True, state := (if state r = SLEEPING then RUNNABLE else state r)\<rparr>) s)"
  by (rule refs_upd_proc [OF assms(1) _ _ assms(2)]; simp add: idle_def)+

lemma growproc_refs: "refs0 s \<Longrightarrow> okp (growproc n s) (\<lambda>(r, t). refs0 t)"
  unfolding growproc_def Let_def
  by (rule okp_with_proc) (auto intro!: refs_binds rf.allocuvm_I rf.deallocuvm_I switchuvm_refs fields_refs refs_cur)

lemma kill_refs: "refs0 s \<Longrightarrow> refs0 (snd (kill n s))"
  by (auto simp: kill_def intro!: fields_refs dest: first_slot_SomeD split: option.split)

lemma sys_kill_refs: "refs0 s \<Longrightarrow> okp (sys_kill s) (\<lambda>(r, t). refs0 t)"
  using kill_refs [of s] unfolding sys_kill_def ret_def
  by (intro okp_with_arg) (auto simp: split_beta)

lemma sys_alarm_refs: "refs0 s \<Longrightarrow> okp (sys_alarm v s) (\<lambda>(r, t). refs0 t)"
  unfolding sys_alarm_def
  by (rule okp_any) (auto intro!: okp_with_proc fields_refs refs_cur split: option.split)

lemma proc_calls_refs:
  assumes "refs0 s"
  shows "okp (sys_fork s) (\<lambda>(r, t). refs0 t)" "okp (sys_exit s) (\<lambda>(r, t). refs0 t)" "okp (sys_wait s) (\<lambda>(r, t). refs0 t)"
    "okp (sys_getpid s) (\<lambda>(r, t). refs0 t)" "okp (sys_uptime s) (\<lambda>(r, t). refs0 t)" "okp (sys_sbrk s) (\<lambda>(r, t). refs0 t)"
  using assms by (auto simp: sys_fork_def sys_exit_def sys_wait_def sys_getpid_def sys_uptime_def sys_sbrk_def ret_def
      intro!: refs_binds fork_refs exit_refs wait_refs growproc_refs okp_with_arg)

lemma signal_calls_refs:
  assumes "refs0 s"
  shows "okp (sys_signal s) (\<lambda>(r, t). refs0 t)" "okp (sys_sigsend s) (\<lambda>(r, t). refs0 t)" "okp (sys_sigreturn s) (\<lambda>(r, t). refs0 t)"
  using assms by (auto simp: sys_signal_def sys_sigsend_def sys_sigreturn_def signal_def sigsend_def sigreturn_def ret_def Let_def
      intro!: refs_binds okp_with_proc okp_with_arg fields_refs rf.cprintf_I split: option.split dest: first_slot_SomeD)
    (blast dest: refs_cur(1))+

section \<open>Exec\<close>

lemma copyout_refs: "refs0 s \<Longrightarrow> okp (copyout pgd va bs s) (\<lambda>(r, t). refs0 t)"
proof (induction bs arbitrary: va s rule: measure_induct_rule [of length])
  case (less bs)
  then show ?case
    by (subst copyout.simps) (auto simp: Let_def PGROUNDDOWN_offset intro!: okp_any less.IH rf.mem_I)
qed

lemma loaduvm_loop_refs: "refs0 s \<Longrightarrow> okp (loaduvm_loop pgd addr ip off n ks s) (\<lambda>(r, t). refs0 t)"
proof (induction ks arbitrary: s)
  case (Cons k ks)
  obtain p t where w: "walkpgdir pgd (addr + word_of_nat (k * 4096)) False s = (p, t)" by fastforce
  then have "refs0 t" using rf.walkpgdir_I [OF Cons.prems w] by simp
  then show ?case using w by (auto simp: Let_def intro!: refs_binds rf.fs_rules Cons.IH rf.mem_I)
qed simp

lemma exec_load_refs: "refs0 s \<Longrightarrow> okp (exec_load n off ip pgd z s) (\<lambda>(r, t). refs0 t)"
  by (induction n arbitrary: off z s)
    (auto simp: Let_def loaduvm_def intro!: refs_binds rf.fs_rules rf.allocuvm_I loaduvm_loop_refs)

lemma exec_args_refs: "refs0 s \<Longrightarrow> okp (exec_args argv sp us pgd s) (\<lambda>(r, t). refs0 t)"
  by (induction argv arbitrary: sp us s) (auto simp: Let_def intro!: refs_binds copyout_refs)

lemma exec_bad_refs: "refs0 s \<Longrightarrow> okp (exec_bad pgd ip s) (\<lambda>(r, t). refs0 t)"
  by (auto simp: exec_bad_def intro!: refs_binds rf.fs_rules rf.freevm_I split: option.split)

lemma clearpteu_refs: "refs0 s \<Longrightarrow> okp (clearpteu pgd a s) refs0"
proof -
  assume s: "refs0 s"
  obtain p t where w: "walkpgdir pgd a False s = (p, t)" by fastforce
  then show ?thesis using rf.walkpgdir_I [OF s w] by (auto simp: clearpteu_def intro!: rf.mem_I)
qed

lemma exec_image_refs: "refs0 s \<Longrightarrow> okp (exec_image path argv pgd z e s) (\<lambda>(r, t). refs0 t)"
  unfolding exec_image_def Let_def
  by (rule okp_with_proc, frule (1) refs_cur(1))
    (auto intro!: refs_binds rf.allocuvm_I exec_bad_refs clearpteu_refs copyout_refs exec_args_refs switchuvm_refs rf.freevm_I fields_refs
      split: option.split)

lemma exec_refs: "refs0 s \<Longrightarrow> okp (exec path argv s) (\<lambda>(r, t). refs0 t)"
  by (auto simp: exec_def Let_def intro!: refs_binds rf.fs_rules rf.setupkvm_I exec_bad_refs exec_load_refs exec_image_refs split: option.split)

lemma sys_exec_refs: "refs0 s \<Longrightarrow> okp (sys_exec s) (\<lambda>(r, t). refs0 t)"
  by (auto simp: sys_exec_def intro!: okp_with_arg ret_refs exec_refs)

section \<open>Every call\<close>

lemma syscalls_mem:
  "syscalls eax n = Some f \<Longrightarrow>
    f \<in> set [sys_fork, sys_exit, sys_wait, sys_pipe, sys_read, sys_kill, sys_exec, sys_fstat, sys_chdir, sys_dup, sys_getpid,
      sys_sbrk, sys_sleep, sys_uptime, sys_open, sys_write, sys_mknod, sys_unlink, sys_link, sys_mkdir, sys_close, sys_signal,
      sys_sigsend, sys_sigreturn, sys_alarm eax]"
proof -
  have nth: "0 < n \<Longrightarrow> n \<le> length xs \<Longrightarrow> xs ! (n - 1) \<in> set xs" for xs :: "syscall list" by (cases n) simp_all
  assume "syscalls eax n = Some f"
  then have f: "f = [sys_fork, sys_exit, sys_wait, sys_pipe, sys_read, sys_kill, sys_exec, sys_fstat, sys_chdir, sys_dup, sys_getpid,
      sys_sbrk, sys_sleep, sys_uptime, sys_open, sys_write, sys_mknod, sys_unlink, sys_link, sys_mkdir, sys_close, sys_signal,
      sys_sigsend, sys_sigreturn, sys_alarm eax] ! (n - 1)" and n: "0 < n" "n \<le> 25"
    unfolding syscalls_def by (metis option.distinct(1) option.inject, (simp split: if_splits)+)
  show ?thesis unfolding f by (rule nth) (use n in simp_all)
qed

lemma syscalls_refs: "syscalls eax n = Some f \<Longrightarrow> refs0 s \<Longrightarrow> okp (f s) (\<lambda>(r, t). refs0 t)"
  by (drule syscalls_mem) (auto intro: proc_calls_refs signal_calls_refs sys_kill_refs sys_alarm_refs sys_exec_refs sys_pipe_refs
      sys_io_refs sys_fstat_refs sys_chdir_refs sys_dup_refs sys_sleep_refs sys_open_refs sys_mk_refs sys_unlink_refs
      sys_link_refs sys_close_refs)

text \<open>C4: Every system call, on every path, errors included, keeps the reference counts right: a file's count is
  the number of descriptors of all processes that name it, so an open descriptor never names a free file.\<close>

theorem syscall_keeps_refs:
  assumes "refs (\<lambda>_. 0) s" and "syscall eax s = Ok (b, t)"
  shows "refs (\<lambda>_. 0) t \<and>
    (\<forall>p fd f. p < NPROC \<and> fd < NOFILE \<and> ofile (procs t p) fd = Some f \<longrightarrow> f < NFILE \<and> 0 < f_ref (files t f))"
proof -
  have "okp (syscall eax s) (\<lambda>(b, t). refs0 t)"
    unfolding syscall_def Let_def using assms(1) refs_cur(1) [OF assms(1)]
    by (auto intro!: okp_with_proc refs_binds rf.cprintf_I fields_refs syscalls_refs split: option.split)
  then have t: "refs0 t" using assms(2) by (simp add: okp_def)
  moreover have "f < NFILE \<and> 0 < f_ref (files t f)" if "p < NPROC" "fd < NOFILE" "ofile (procs t p) fd = Some f" for p fd f
  proof
    show f: "f < NFILE" using t that by (auto simp: refs_def fds_ok_def)
    have "(p, fd) \<in> slots (procs t) f" using that by (simp add: slots_def)
    then have "0 < card (slots (procs t) f)" using finite_slots card_gt_0_iff by blast
    then show "0 < f_ref (files t f)" using t f by (simp add: refs_def)
  qed
  ultimately show ?thesis by blast
qed

definition demo_dup :: kernel where
  "demo_dup = (demo_user (zero_proc\<lparr>state := RUNNING, sz := 0x3000, tf := zero_tf\<lparr>tf_esp := 0x2F80, tf_eax := 10\<rparr>,
      ofile := (\<lambda>_. None)(0 := Some 0)\<rparr>))\<lparr>files := (files demo_kernel)(0 := (files demo_kernel 0)\<lparr>f_ref := 1\<rparr>)\<rparr>"

lemma uload_cong: "mem s = mem t \<Longrightarrow> cr3 s = cr3 t \<Longrightarrow> uload va n s = uload va n t"
  by (induction n arbitrary: va) (simp_all add: mmu_addr_def Let_def pde_of_def pte_of_def pgtab_of_def)

lemma demo_dup_arg: "argint 0 demo_dup = Ok (Some 0)"
proof -
  have "uload32 va demo_dup = uload32 va demo_caller" for va
    unfolding uload32_def using uload_cong [of demo_dup demo_caller va 4] by (simp add: demo_dup_def demo_caller_def)
  then have "argint 0 demo_dup = argint 0 demo_caller"
    by (simp add: argint_def fetchint_def with_proc_def) (simp add: demo_dup_def demo_caller_def)
  then show ?thesis using demo_caller_arg by simp
qed

lemma demo_dup_runs: "\<exists>b t. syscall 0 demo_dup = Ok (b, t) \<and> f_ref (files t 0) = 2"
proof -
  have c: "cur demo_dup = Some 0" "tf_eax (tf (procs demo_dup 0)) = 10" "ofile (procs demo_dup 0) = (\<lambda>_. None)(0 := Some 0)"
    "f_ref (files demo_dup 0) = 1"
    by (simp_all add: demo_dup_def)
  moreover have "syscalls 0 10 = Some sys_dup" by (simp add: syscalls_def)
  moreover have "first_slot NOFILE (\<lambda>i. ofile (procs demo_dup 0) i = None) = Some 1"
    unfolding c by (simp add: first_slot_def upt_rec)
  ultimately show ?thesis using demo_dup_arg
    by (simp add: syscall_def sys_dup_def argfd_def fdalloc_def filedup_def Let_def with_arg_def set_ofile_def upd_file_def upd_proc_def) blast
qed

theorem syscall_keeps_refs_witness:
  "\<exists>b t. refs (\<lambda>_. 0) demo_dup \<and> syscall 0 demo_dup = Ok (b, t) \<and> refs (\<lambda>_. 0) t \<and> f_ref (files t 0) = 2"
proof -
  have "slots (procs demo_dup) f = (if f = 0 then {(0, 0)} else {})" for f
    by (auto simp: slots_def demo_dup_def zero_proc_def split: if_splits)
  then have r: "refs (\<lambda>_. 0) demo_dup"
    by (simp add: refs_def demo_dup_def fds_ok_def idle_def zero_proc_def demo_kernel_def boot_kernel_def zero_file_def)
  with demo_dup_runs syscall_keeps_refs [OF r] show ?thesis by blast
qed

end
