(* ===== verification/Shapes.thy ===== *)
theory Shapes
  imports Refs
begin

text \<open>
  The arrays of the kernel keep their sizes through every system call: the predicate \<open>shaped\<close> as an instance of
  the frame locales, so that its proof for the file system and for memory is theirs, and the calls built on top.
\<close>

lemma shaped_cong:
  "disk s' = disk s \<Longrightarrow> bufs s' = bufs s \<Longrightarrow> inodes s' = inodes s \<Longrightarrow> log s' = log s \<Longrightarrow> shaped s' = shaped s"
  by (simp add: shaped_def del: shapedD)

lemma shaped_fields [simp]:
  "shaped (upd_proc p g s) = shaped s" "shaped (upd_file f h s) = shaped s" "shaped (s\<lparr>procs := ps\<rparr>) = shaped s"
  "shaped (s\<lparr>cur := c\<rparr>) = shaped s" "shaped (s\<lparr>heldlk := l\<rparr>) = shaped s" "shaped (s\<lparr>mycpu := m\<rparr>) = shaped s"
  "shaped (s\<lparr>cr3 := a\<rparr>) = shaped s" "shaped (s\<lparr>nextpid := n\<rparr>) = shaped s" "shaped (s\<lparr>mem := b\<rparr>) = shaped s"
  by (rule shaped_cong; simp add: upd_proc_def upd_file_def)+

interpretation sh: file_frame shaped
  by unfold_locales
    (auto simp: shaped_def upd_buf_def upd_log_def upd_inode_def upd_input_def upd_file_def upd_pipe_def wakeup_def simp del: shapedD)

lemmas shaped_binds = sh.bind1 sh.bind2 sh.bind3 okp_with_proc okp_with_arg

section \<open>Calls on files\<close>

lemma end_with_shaped: "shaped s \<Longrightarrow> okp (end_with v s) (\<lambda>(r, t). shaped t)"
  by (auto simp: end_with_def intro!: shaped_binds sh.end_op_I)

lemma add_nlink_shaped: "shaped s \<Longrightarrow> okp (add_nlink ip k s) shaped"
  by (auto simp: add_nlink_def intro!: sh.iupdate_I sh.inode_I)

lemma create_shaped: "shaped s \<Longrightarrow> okp (create path type ma mi s) (\<lambda>(r, t). shaped t)"
  by (auto simp: create_def create_new_def create_dots_def
      intro!: shaped_binds sh.fs_rules add_nlink_shaped sh.inode_I split: option.splits)

lemma open_inode_shaped: "shaped s \<Longrightarrow> okp (open_inode path m s) (\<lambda>(r, t). shaped t)"
  by (auto simp: open_inode_def intro!: shaped_binds sh.fs_rules create_shaped split: option.splits)

lemma file_shaped:
  "shaped s \<Longrightarrow> filealloc s = (r, t) \<Longrightarrow> shaped t" "shaped s \<Longrightarrow> okp (filedup f s) shaped"
  "shaped s \<Longrightarrow> okp (fdalloc f s) (\<lambda>(r, t). shaped t)" "shaped s \<Longrightarrow> okp (close_opt g s) shaped"
  by (auto simp: filealloc_def filedup_def fdalloc_def set_ofile_def close_opt_def intro!: okp_with_proc sh.fileclose_I
      split: option.splits)

lemma sys_fd_shaped:
  "shaped s \<Longrightarrow> okp (sys_dup s) (\<lambda>(r, t). shaped t)" "shaped s \<Longrightarrow> okp (sys_close s) (\<lambda>(r, t). shaped t)"
  by (auto simp: sys_dup_def sys_close_def set_ofile_def intro!: shaped_binds file_shaped(2-4) sh.fileclose_I split: option.split)

lemma sys_open_shaped: "shaped s \<Longrightarrow> okp (sys_open s) (\<lambda>(r, t). shaped t)"
proof -
  have "okp (kbind (case fst (filealloc s) of None \<Rightarrow> Ok (None, snd (filealloc s)) | Some f \<Rightarrow> fdalloc f (snd (filealloc s))) (\<lambda>(fd, s').
      case (fst (filealloc s), fd) of
        (Some f, Some fd) \<Rightarrow> kbind (iunlock ip s') (\<lambda>s. kbind (end_op s) (\<lambda>s. Ok (Some (word_of_nat fd), upd_file f (inode_file ip m) s)))
      | _ \<Rightarrow> kbind (close_opt (fst (filealloc s)) s') (\<lambda>s. kbind (iunlockput ip s) (end_with (-1))))) (\<lambda>(r, t). shaped t)"
    if "shaped s" for s ip m
    using file_shaped(1) [OF that, of "fst (filealloc s)" "snd (filealloc s)"]
    by (auto intro!: shaped_binds sh.fs_rules end_with_shaped file_shaped(2-4) split: option.split)
  then show "shaped s \<Longrightarrow> ?thesis"
    unfolding sys_open_def
    by (auto simp: split_beta intro!: shaped_binds sh.fs_rules open_inode_shaped end_with_shaped split: option.split)
qed

lemma link_bad_shaped: "shaped s \<Longrightarrow> okp (link_bad ip s) (\<lambda>(r, t). shaped t)"
  by (auto simp: link_bad_def intro!: shaped_binds sh.fs_rules add_nlink_shaped end_with_shaped)

lemma isdirempty_shaped: "shaped s \<Longrightarrow> okp (isdirempty dp s) (\<lambda>(r, t). shaped t)"
proof -
  have "shaped s \<Longrightarrow> okp (isdirempty_from dp offs s) (\<lambda>(r, t). shaped t)" for offs
    by (induction offs arbitrary: s) (auto intro!: shaped_binds sh.fs_rules)
  then show "shaped s \<Longrightarrow> ?thesis" by (simp add: isdirempty_def)
qed

lemma sys_link_shaped:
  "shaped s \<Longrightarrow> okp (sys_link s) (\<lambda>(r, t). shaped t)" "shaped s \<Longrightarrow> okp (sys_unlink s) (\<lambda>(r, t). shaped t)"
  by (auto simp: sys_link_def sys_unlink_def unlink_bad_def unlink_entry_def
      intro!: shaped_binds sh.fs_rules add_nlink_shaped end_with_shaped link_bad_shaped isdirempty_shaped split: option.split)

lemma with_op_arg_shaped:
  "shaped s \<Longrightarrow> (\<And>v. okp (f v) (\<lambda>(r, t). shaped t)) \<Longrightarrow> okp (with_op_arg m s f) (\<lambda>(r, t). shaped t)"
  by (cases m) (auto simp: with_op_arg_def intro!: end_with_shaped split: option.splits)

lemma made_shaped: "shaped s \<Longrightarrow> okp (made (ip, s)) (\<lambda>(r, t). shaped t)"
  by (auto simp: made_def intro!: shaped_binds sh.fs_rules end_with_shaped split: option.split)

lemma sys_mk_shaped:
  "shaped s \<Longrightarrow> okp (sys_mkdir s) (\<lambda>(r, t). shaped t)" "shaped s \<Longrightarrow> okp (sys_mknod s) (\<lambda>(r, t). shaped t)"
  "shaped s \<Longrightarrow> okp (sys_chdir s) (\<lambda>(r, t). shaped t)"
  by (auto simp: sys_mkdir_def sys_mknod_def sys_chdir_def
      intro!: shaped_binds with_op_arg_shaped sh.fs_rules create_shaped made_shaped end_with_shaped split: option.split)

lemma filewrite_loop_shaped: "shaped s \<Longrightarrow> okp (filewrite_loop f bs s) (\<lambda>(r, t). shaped t)"
proof (induction bs arbitrary: s rule: measure_induct_rule [of length])
  case (less bs)
  then show ?case
    by (subst filewrite_loop.simps) (auto simp: Let_def intro!: shaped_binds sh.fs_rules less.IH)
qed

lemma file_io_shaped:
  "shaped s \<Longrightarrow> okp (fileread f n s) (\<lambda>(x, y, t). shaped t)" "shaped s \<Longrightarrow> okp (filewrite f n bs s) (\<lambda>(r, t). shaped t)"
  by (auto simp: fileread_def filewrite_def Let_def
      intro!: shaped_binds sh.fs_rules sh.piperead_I sh.pipewrite_I filewrite_loop_shaped split: ftype.split)

lemma ret_shaped: "okp m (\<lambda>(r, t). shaped t) \<Longrightarrow> okp (ret m) (\<lambda>(r, t). shaped t)"
  by (auto simp: ret_def intro!: shaped_binds)

lemma sys_io_shaped:
  "shaped s \<Longrightarrow> okp (sys_read s) (\<lambda>(r, t). shaped t)" "shaped s \<Longrightarrow> okp (sys_write s) (\<lambda>(r, t). shaped t)"
  "shaped s \<Longrightarrow> okp (sys_fstat s) (\<lambda>(r, t). shaped t)"
  by (auto simp: sys_read_def sys_write_def sys_fstat_def filestat_def store_stat_def Let_def
      intro!: shaped_binds file_io_shaped sh.fs_rules sh.ustore_I okp_any [where 'a = "u8 list"] ret_shaped split: option.split)

lemma pipealloc_shaped: "shaped s \<Longrightarrow> okp (pipealloc s) (\<lambda>(r, t). shaped t)"
proof -
  assume s: "shaped s"
  obtain f0 s0 where a: "filealloc s = (f0, s0)" by fastforce
  obtain f1 s1 where b: "filealloc s0 = (f1, s1)" by fastforce
  obtain p s2 where k: "kalloc s1 = (p, s2)" by fastforce
  have t: "shaped s0" "shaped s1" "shaped s2" using s a b k file_shaped(1) sh.kalloc_I by blast+
  then show ?thesis
    using a b k by (auto simp: pipealloc_def intro!: shaped_binds file_shaped(2-4) sh.fileclose_I sh.pipe_I split: option.split)
qed

lemma sys_pipe_shaped: "shaped s \<Longrightarrow> okp (sys_pipe s) (\<lambda>(r, t). shaped t)"
  by (auto simp: sys_pipe_def ustore32_def set_ofile_def
      intro!: shaped_binds pipealloc_shaped file_shaped(2-4) sh.fileclose_I sh.ustore_I split: option.split)

section \<open>Calls on processes\<close>

lemma lock_shaped: "shaped s \<Longrightarrow> okp (acquire_lk l s) shaped" "shaped s \<Longrightarrow> okp (release_lk l s) shaped"
  by (auto simp: acquire_lk_def release_lk_def Let_def okp_def)

lemma sched_shaped: "shaped s \<Longrightarrow> okp (sched k s) shaped"
  by (auto simp: sched_def scheduler_back_def switchkvm_def intro!: okp_with_proc)

lemma sleep_shaped: "shaped s \<Longrightarrow> okp (sleep c lk s) shaped"
  by (auto simp: sleep_def intro!: shaped_binds lock_shaped sched_shaped split: option.split)

lemma switchuvm_shaped: "shaped s \<Longrightarrow> okp (switchuvm p s) shaped"
  by (auto simp: switchuvm_def Let_def intro!: okp_with_proc okp_any)

lemma growproc_shaped: "shaped s \<Longrightarrow> okp (growproc n s) (\<lambda>(r, t). shaped t)"
  by (auto simp: growproc_def Let_def intro!: shaped_binds sh.allocuvm_I sh.deallocuvm_I switchuvm_shaped)

lemma wait_shaped: "shaped s \<Longrightarrow> okp (wait s) (\<lambda>(r, t). shaped t)"
  by (auto simp: wait_def wait_loop_def Let_def
      intro!: shaped_binds lock_shaped sleep_shaped sh.kfree_I sh.freevm_I split: option.split)

lemma exit_shaped: "shaped s \<Longrightarrow> okp (exit s) shaped"
proof -
  have "shaped s \<Longrightarrow> okp (exit_file c fd s) shaped" for c fd s
    by (auto simp: exit_file_def intro!: shaped_binds sh.fileclose_I split: option.split)
  then show "shaped s \<Longrightarrow> ?thesis"
    by (auto simp: exit_def Let_def intro!: shaped_binds okp_for_each sh.put_in_op_I lock_shaped sched_shaped split: option.split)
qed

lemma allocproc_shaped: "shaped s \<Longrightarrow> okp (allocproc s) (\<lambda>(r, t). shaped t)"
proof (cases "first_slot NPROC (\<lambda>i. state (procs s i) = UNUSED)")
  case (Some p)
  assume "shaped s"
  then have "shaped (upd_proc p (\<lambda>r. init_signals (r\<lparr>state := EMBRYO, pid := nextpid s\<rparr>)) (s\<lparr>nextpid := nextpid s + 1\<rparr>))" by simp
  from sh.kalloc_I [OF this] show ?thesis using Some by (auto simp: allocproc_def Let_def split: prod.split)
qed (simp add: allocproc_def)

lemma fork_shaped: "shaped s \<Longrightarrow> okp (fork s) (\<lambda>(r, t). shaped t)"
proof -
  have "shaped s \<Longrightarrow> okp (fork_file c np i s) shaped" for c np i s
    by (auto simp: fork_file_def intro!: shaped_binds file_shaped(2) split: option.split)
  then show "shaped s \<Longrightarrow> ?thesis"
    by (auto simp: fork_def idup_def Let_def
        intro!: shaped_binds okp_for_each allocproc_shaped sh.copyuvm_I sh.kfree_I sh.inode_I split: option.split)
qed

lemma proc_calls_shaped:
  assumes "shaped s"
  shows "okp (sys_fork s) (\<lambda>(r, t). shaped t)" "okp (sys_exit s) (\<lambda>(r, t). shaped t)" "okp (sys_wait s) (\<lambda>(r, t). shaped t)"
    "okp (sys_getpid s) (\<lambda>(r, t). shaped t)" "okp (sys_uptime s) (\<lambda>(r, t). shaped t)" "okp (sys_sbrk s) (\<lambda>(r, t). shaped t)"
    "okp (sys_sleep s) (\<lambda>(r, t). shaped t)" "okp (sys_alarm v s) (\<lambda>(r, t). shaped t)"
  using assms by (auto simp: sys_fork_def sys_exit_def sys_wait_def sys_getpid_def sys_uptime_def sys_sbrk_def ret_def
      sys_sleep_def sys_sleep_loop_def sys_alarm_def
      intro!: shaped_binds fork_shaped exit_shaped wait_shaped growproc_shaped lock_shaped sleep_shaped
        okp_any [where 'a = "u32 option"] split: option.split)

lemma signal_calls_shaped:
  assumes "shaped s"
  shows "okp (sys_signal s) (\<lambda>(r, t). shaped t)" "okp (sys_sigsend s) (\<lambda>(r, t). shaped t)" "okp (sys_sigreturn s) (\<lambda>(r, t). shaped t)"
    "okp (sys_kill s) (\<lambda>(r, t). shaped t)"
  using assms by (auto simp: sys_signal_def sys_sigsend_def sys_sigreturn_def sys_kill_def kill_def signal_def sigsend_def
      sigreturn_def ret_def Let_def intro!: shaped_binds sh.cprintf_I split: option.split)

section \<open>Running a program\<close>

lemma copyout_shaped: "shaped s \<Longrightarrow> okp (copyout pgd va bs s) (\<lambda>(r, t). shaped t)"
proof (induction bs arbitrary: va s rule: measure_induct_rule [of length])
  case (less bs)
  then show ?case
    by (subst copyout.simps) (auto simp: Let_def PGROUNDDOWN_offset intro!: okp_any less.IH)
qed

lemma loaduvm_loop_shaped: "shaped s \<Longrightarrow> okp (loaduvm_loop pgd addr ip off n ks s) (\<lambda>(r, t). shaped t)"
proof (induction ks arbitrary: s)
  case (Cons k ks)
  obtain p t where w: "walkpgdir pgd (addr + word_of_nat (k * 4096)) False s = (p, t)" by fastforce
  then have "shaped t" using sh.walkpgdir_I [OF Cons.prems w] by simp
  then show ?case using w by (auto simp: Let_def intro!: shaped_binds sh.fs_rules Cons.IH)
qed simp

lemma exec_load_shaped: "shaped s \<Longrightarrow> okp (exec_load n off ip pgd z s) (\<lambda>(r, t). shaped t)"
  by (induction n arbitrary: off z s)
    (auto simp: Let_def loaduvm_def intro!: shaped_binds sh.fs_rules sh.allocuvm_I loaduvm_loop_shaped)

lemma exec_args_shaped: "shaped s \<Longrightarrow> okp (exec_args argv sp us pgd s) (\<lambda>(r, t). shaped t)"
  by (induction argv arbitrary: sp us s) (auto simp: Let_def intro!: shaped_binds copyout_shaped)

lemma exec_bad_shaped: "shaped s \<Longrightarrow> okp (exec_bad pgd ip s) (\<lambda>(r, t). shaped t)"
  by (auto simp: exec_bad_def intro!: shaped_binds sh.fs_rules sh.freevm_I split: option.split)

lemma clearpteu_shaped: "shaped s \<Longrightarrow> okp (clearpteu pgd a s) shaped"
  using sh.walkpgdir_I [of s pgd a False] by (auto simp: clearpteu_def split: prod.split)

lemma exec_image_shaped: "shaped s \<Longrightarrow> okp (exec_image path argv pgd z e s) (\<lambda>(r, t). shaped t)"
  by (auto simp: exec_image_def Let_def intro!: shaped_binds sh.allocuvm_I exec_bad_shaped clearpteu_shaped copyout_shaped
      exec_args_shaped switchuvm_shaped sh.freevm_I split: option.split)

lemma exec_shaped: "shaped s \<Longrightarrow> okp (exec path argv s) (\<lambda>(r, t). shaped t)"
  by (auto simp: exec_def Let_def
      intro!: shaped_binds sh.fs_rules sh.setupkvm_I exec_bad_shaped exec_load_shaped exec_image_shaped split: option.split)

lemma sys_exec_shaped: "shaped s \<Longrightarrow> okp (sys_exec s) (\<lambda>(r, t). shaped t)"
  by (auto simp: sys_exec_def intro!: okp_with_arg ret_shaped exec_shaped)

section \<open>Every call\<close>

lemma syscalls_shaped: "syscalls eax n = Some f \<Longrightarrow> shaped s \<Longrightarrow> okp (f s) (\<lambda>(r, t). shaped t)"
  by (drule syscalls_mem) (auto intro: proc_calls_shaped signal_calls_shaped sys_exec_shaped sys_pipe_shaped sys_io_shaped
      sys_fd_shaped sys_open_shaped sys_mk_shaped sys_link_shaped)



end
