(* ===== verification/Kbd.thy ===== *)
theory Kbd
  imports Console
begin

text \<open>
  The keyboard (\<^verbatim>\<open>kbd.h\<close> and \<^verbatim>\<open>kbd.c\<close>) and the serial line (\<^verbatim>\<open>uart.c\<close>): what the
  two sources of console input make of the values read from the device ports, which are arguments of
  the model, and what is written to the serial port.
\<close>

section \<open>Tables\<close>

abbreviation (input) "KBS_DIB \<equiv> (0x01 :: u8)"
abbreviation (input) "SHIFT \<equiv> (1 :: u32)"
abbreviation (input) "CTL \<equiv> (2 :: u32)"
abbreviation (input) "ALT \<equiv> (4 :: u32)"
abbreviation (input) "CAPSLOCK \<equiv> (8 :: u32)"
abbreviation (input) "NUMLOCK \<equiv> (16 :: u32)"
abbreviation (input) "SCROLLLOCK \<equiv> (32 :: u32)"
abbreviation (input) "E0ESC \<equiv> (64 :: u32)"

definition shiftcode :: "u8 \<Rightarrow> u32" where
  "shiftcode d =
     (if d = 0x1D \<or> d = 0x9D then CTL else if d = 0x2A \<or> d = 0x36 then SHIFT
      else if d = 0x38 \<or> d = 0xB8 then ALT else 0)"

definition togglecode :: "u8 \<Rightarrow> u32" where
  "togglecode d =
     (if d = 0x3A then CAPSLOCK else if d = 0x45 then NUMLOCK else if d = 0x46 then SCROLLLOCK else 0)"

text \<open>The entries that the tables share: the keys with an escape code, named by \<^verbatim>\<open>KEY_HOME\<close> and so on.\<close>

definition keypad :: "u8 \<Rightarrow> u8 \<Rightarrow> u8 \<Rightarrow> u8" where
  "keypad enter slash d =
     (if d = 0x9C then enter else if d = 0xB5 then slash
      else if d = 0xC8 then 0xE2 else if d = 0xD0 then 0xE3
      else if d = 0xC9 then 0xE6 else if d = 0xD1 then 0xE7
      else if d = 0xCB then 0xE4 else if d = 0xCD then 0xE5
      else if d = 0x97 then 0xE0 else if d = 0xCF then 0xE1
      else if d = 0xD2 then 0xE8 else if d = 0xD3 then 0xE9 else 0)"

definition normalmap_row :: bytes where
  "normalmap_row =
    [0x00, 0x1B, 0x31, 0x32, 0x33, 0x34, 0x35, 0x36, 0x37, 0x38, 0x39, 0x30, 0x2D, 0x3D, 0x08, 0x09,
     0x71, 0x77, 0x65, 0x72, 0x74, 0x79, 0x75, 0x69, 0x6F, 0x70, 0x5B, 0x5D, 0x0A, 0x00, 0x61, 0x73,
     0x64, 0x66, 0x67, 0x68, 0x6A, 0x6B, 0x6C, 0x3B, 0x27, 0x60, 0x00, 0x5C, 0x7A, 0x78, 0x63, 0x76,
     0x62, 0x6E, 0x6D, 0x2C, 0x2E, 0x2F, 0x00, 0x2A, 0x00, 0x20, 0x00, 0x00, 0x00, 0x00, 0x00, 0x00,
     0x00, 0x00, 0x00, 0x00, 0x00, 0x00, 0x00, 0x37, 0x38, 0x39, 0x2D, 0x34, 0x35, 0x36, 0x2B, 0x31,
     0x32, 0x33, 0x30, 0x2E, 0x00, 0x00, 0x00, 0x00]"

definition normalmap :: "u8 \<Rightarrow> u8" where
  "normalmap d = (if unat d < length normalmap_row then normalmap_row ! unat d else keypad 0x0A 0x2F d)"

definition shiftmap_row :: bytes where
  "shiftmap_row =
    [0x00, 0x1B, 0x21, 0x40, 0x23, 0x24, 0x25, 0x5E, 0x26, 0x2A, 0x28, 0x29, 0x5F, 0x2B, 0x08, 0x09,
     0x51, 0x57, 0x45, 0x52, 0x54, 0x59, 0x55, 0x49, 0x4F, 0x50, 0x7B, 0x7D, 0x0A, 0x00, 0x41, 0x53,
     0x44, 0x46, 0x47, 0x48, 0x4A, 0x4B, 0x4C, 0x3A, 0x22, 0x7E, 0x00, 0x7C, 0x5A, 0x58, 0x43, 0x56,
     0x42, 0x4E, 0x4D, 0x3C, 0x3E, 0x3F, 0x00, 0x2A, 0x00, 0x20, 0x00, 0x00, 0x00, 0x00, 0x00, 0x00,
     0x00, 0x00, 0x00, 0x00, 0x00, 0x00, 0x00, 0x37, 0x38, 0x39, 0x2D, 0x34, 0x35, 0x36, 0x2B, 0x31,
     0x32, 0x33, 0x30, 0x2E, 0x00, 0x00, 0x00, 0x00]"

definition shiftmap :: "u8 \<Rightarrow> u8" where
  "shiftmap d = (if unat d < length shiftmap_row then shiftmap_row ! unat d else keypad 0x0A 0x2F d)"

definition ctlmap_row :: bytes where
  "ctlmap_row =
    [0x00, 0x00, 0x00, 0x00, 0x00, 0x00, 0x00, 0x00, 0x00, 0x00, 0x00, 0x00, 0x00, 0x00, 0x00, 0x00,
     0x11, 0x17, 0x05, 0x12, 0x14, 0x19, 0x15, 0x09, 0x0F, 0x10, 0x00, 0x00, 0x0D, 0x00, 0x01, 0x13,
     0x04, 0x06, 0x07, 0x08, 0x0A, 0x0B, 0x0C, 0x00, 0x00, 0x00, 0x00, 0x1C, 0x1A, 0x18, 0x03, 0x16,
     0x02, 0x0E, 0x0D, 0x00, 0x00, 0xEF, 0x00, 0x00]"

definition ctlmap :: "u8 \<Rightarrow> u8" where
  "ctlmap d = (if unat d < length ctlmap_row then ctlmap_row ! unat d else keypad 0x0D 0xEF d)"

section \<open>Reading a key\<close>

text \<open>\<open>charcode[shift & (CTL | SHIFT)]\<close>\<close>

definition charcode :: "u32 \<Rightarrow> u8 \<Rightarrow> u8" where
  "charcode sh d =
     (if sh AND CTL \<noteq> 0 then ctlmap d else if sh AND SHIFT \<noteq> 0 then shiftmap d else normalmap d)"

definition caps :: "u8 \<Rightarrow> u8" where
  "caps c = (if 0x61 \<le> c \<and> c \<le> 0x7A then c - 0x20 else if 0x41 \<le> c \<and> c \<le> 0x5A then c + 0x20 else c)"

text \<open>One call, with the values of the status and data ports and the static variable \<^verbatim>\<open>shift\<close>.\<close>

definition kbdgetc :: "u8 \<Rightarrow> u8 \<Rightarrow> u32 \<Rightarrow> int \<times> u32" where
  "kbdgetc st data shift =
     (if st AND KBS_DIB = 0 then (-1, shift)
      else if data = 0xE0 then (0, shift OR E0ESC)
      else if data AND 0x80 \<noteq> 0 then
        let data = (if shift AND E0ESC \<noteq> 0 then data else data AND 0x7F) in
        (0, shift AND NOT (shiftcode data OR E0ESC))
      else
        let (data, shift) =
              (if shift AND E0ESC \<noteq> 0 then (data OR 0x80, shift AND NOT E0ESC) else (data, shift));
            shift = (shift OR shiftcode data) XOR togglecode data;
            c = charcode shift data in
        (uint (if shift AND CAPSLOCK \<noteq> 0 then caps c else c), shift))"

text \<open>The characters that \<open>kbdgetc\<close> delivers for the port values read until it returns -1.\<close>

fun kbd_input :: "(u8 \<times> u8) list \<Rightarrow> u32 \<Rightarrow> u32 list \<times> u32" where
  "kbd_input [] shift = ([], shift)"
| "kbd_input ((st, data) # ps) shift =
     (let (c, shift) = kbdgetc st data shift in
      if c < 0 then ([], shift)
      else let (cs, shift) = kbd_input ps shift in (word_of_int c # cs, shift))"

definition kbdintr :: "(u8 \<times> u8) list \<Rightarrow> u32 \<Rightarrow> kernel \<Rightarrow> u32 \<times> bool \<times> kernel" where
  "kbdintr ports shift s = (let (cs, shift) = kbd_input ports shift in (shift, consoleintr cs s))"

section \<open>The serial line\<close>

text \<open>
  What is written to the ports. The loop of \<open>uartputc\<close> that waits for the transmitter ends after 128 rounds in any case;
  \<open>lsr\<close> is the line status that tells whether there is a serial port.
\<close>

abbreviation (input) "COM1 \<equiv> (0x3F8 :: u32)"

definition uartputc :: "bool \<Rightarrow> u32 \<Rightarrow> (u32 \<times> u8) list" where
  "uartputc uart c = (if \<not> uart then [] else [(COM1 + 0, ucast c)])"

definition uartinit :: "u8 \<Rightarrow> bool \<Rightarrow> bool \<times> (u32 \<times> u8) list" where
  "uartinit lsr uart =
     (let ws = [(COM1 + 2, 0), (COM1 + 3, 0x80), (COM1 + 0, word_of_nat (115200 div 9600)), (COM1 + 1, 0), (COM1 + 3, 0x03),
                (COM1 + 4, 0), (COM1 + 1, 0x01)] in
      if lsr = 0xFF then (uart, ws)
      else (True, ws @ concat (map (\<lambda>c. uartputc True (ucast (chr8 c))) ''xv6...\<newline>'')))"

definition uartgetc :: "bool \<Rightarrow> u8 \<Rightarrow> u8 \<Rightarrow> int" where
  "uartgetc uart lsr data = (if \<not> uart then -1 else if lsr AND 0x01 = 0 then -1 else uint data)"

fun uart_input :: "bool \<Rightarrow> (u8 \<times> u8) list \<Rightarrow> u32 list" where
  "uart_input uart [] = []"
| "uart_input uart ((lsr, data) # ps) =
     (let c = uartgetc uart lsr data in
      if c < 0 then [] else word_of_int c # uart_input uart ps)"

definition uartintr :: "bool \<Rightarrow> (u8 \<times> u8) list \<Rightarrow> kernel \<Rightarrow> bool \<times> kernel" where
  "uartintr uart ports s = consoleintr (uart_input uart ports) s"

end
