(* ===== verification/Vm_Loops.thy ===== *)
theory Vm_Loops
  imports Vm
begin

text \<open>
  Termination of the loops over page tables. The loops of \<open>mappages\<close>, \<open>allocuvm\<close>, \<open>deallocuvm\<close> and
  \<open>copyuvm\<close> count addresses with 32-bit words, which could wrap around; the model gives them a number of
  rounds and reports a fault when it is used up. The lemmas show that this never happens for sizes up to
  \<^verbatim>\<open>KERNBASE\<close>, so the loops end.
\<close>

section \<open>Outcomes without a fault\<close>

definition no_fault :: "'a res \<Rightarrow> bool" where
  "no_fault r \<longleftrightarrow> (case r of Fault _ \<Rightarrow> False | _ \<Rightarrow> True)"

lemma no_fault_simps [simp]:
  "no_fault (Ok x)" "no_fault (Panic m)" "no_fault (Block c)" "\<not> no_fault (Fault m)"
  by (simp_all add: no_fault_def)

lemma no_fault_kbind [intro]:
  "no_fault m \<Longrightarrow> (\<And>x. m = Ok x \<Longrightarrow> no_fault (f x)) \<Longrightarrow> no_fault (kbind m f)"
  by (cases m) auto

lemma no_fault_for_each:
  "(\<And>i s. no_fault (f i s)) \<Longrightarrow> no_fault (for_each f is s)"
  by (induction "is" arbitrary: s) auto

lemma no_fault_kfree [simp]: "no_fault (kfree p s)"
  by (simp add: kfree_def)

section \<open>The loops\<close>

lemma mappages_loop_no_fault:
  "lst = a + 4096 * word_of_nat n \<Longrightarrow> no_fault (mappages_loop (Suc n) pgd a lst pa perm s)"
proof (induction n arbitrary: a pa s)
  case (Suc n)
  then have "lst = (a + 4096) + 4096 * word_of_nat n" by (simp add: algebra_simps)
  then show ?case using Suc.IH by (subst mappages_loop.simps) (auto simp: Let_def split: prod.splits)
qed (auto simp: Let_def split: prod.splits)

lemma aligned_span:
  assumes "pga a" "pga l"
  shows "l = a + 4096 * word_of_nat (unat ((l - a) div PGSIZE))"
proof -
  define n where "n = unat (l - a) div 4096"
  have e: "unat ((l - a) div PGSIZE) = n" by (simp add: n_def unat_div_distrib)
  have "4096 dvd unat (l - a)" using pga_diff assms by (simp add: pga_dvd)
  then have "unat (l - a) = 4096 * n" by (simp add: n_def)
  moreover have "n < 1048576" using unat32_less [of "l - a"] by (simp add: n_def)
  ultimately have "l - a = 4096 * word_of_nat n"
    by (simp add: word_unat_eq_iff unat_word_ariths unat_of_nat take_bit_nat_eq_self)
  then show ?thesis unfolding e by (simp add: algebra_simps)
qed

lemma mappages_no_fault [simp]: "no_fault (mappages pgd va sze pa perm s)"
  using mappages_loop_no_fault [OF aligned_span [OF pga_PGROUNDDOWN pga_PGROUNDDOWN]]
  by (simp add: mappages_def Let_def del: mappages_loop.simps)

lemma unat_add_small: "unat (a :: u32) + n < 4294967296 \<Longrightarrow> unat (a + word_of_nat n) = unat a + n"
  by (simp add: unat_word_ariths unat_of_nat take_bit_nat_eq_self)

text \<open>Below \<^verbatim>\<open>KERNBASE\<close> an address can be moved up by a page or by 4 MB without wrapping around.\<close>

lemma step_page:
  assumes "(a :: u32) < b" "b \<le> KERNBASE"
  shows "unat (a + 4096) = unat a + 4096" "unat (a + 1023 * PGSIZE + PGSIZE) = unat a + 4194304"
proof -
  have "unat a < 2147483648" using assms by (simp add: word_less_nat_alt word_le_nat_alt)
  then show "unat (a + 4096) = unat a + 4096" "unat (a + 1023 * PGSIZE + PGSIZE) = unat a + 4194304"
    using unat_add_small [of a 4096] unat_add_small [of a 4194304] by (simp_all add: algebra_simps)
qed

lemma deallocuvm_loop_no_fault:
  assumes "oldsz \<le> KERNBASE" and "unat oldsz \<le> unat a + 4096 * k"
  shows "no_fault (deallocuvm_loop (Suc k) pgd a oldsz s)"
  using assms(2)
proof (induction k arbitrary: a s)
  case 0
  then show ?case by (auto simp: word_less_nat_alt)
next
  case (Suc k)
  show ?case
  proof (cases "a < oldsz")
    case True
    note st = step_page [OF True assms(1)]
    have "no_fault (deallocuvm_loop (Suc k) pgd (a + PGSIZE) oldsz t)"
      "no_fault (deallocuvm_loop (Suc k) pgd (a + 1023 * PGSIZE + PGSIZE) oldsz t)" for t
      using Suc.prems by (intro Suc.IH; simp only: st; simp)+
    then show ?thesis
      by (subst deallocuvm_loop.simps) (auto simp: Let_def split: prod.splits simp del: deallocuvm_loop.simps intro!: no_fault_kbind)
  qed simp
qed

lemma deallocuvm_no_fault [simp]: "oldsz \<le> KERNBASE \<Longrightarrow> no_fault (deallocuvm pgd oldsz newsz s)"
  using deallocuvm_loop_no_fault [of oldsz "PGROUNDUP newsz" "unat oldsz div 4096 + 1" pgd s]
  by (auto simp: deallocuvm_def simp del: deallocuvm_loop.simps)

lemma allocuvm_loop_no_fault:
  assumes "newsz < KERNBASE" and "unat newsz \<le> unat a + 4096 * k"
  shows "no_fault (allocuvm_loop (Suc k) pgd oldsz newsz a s)"
  using assms(2)
proof (induction k arbitrary: a s)
  case 0
  then show ?case by (auto simp: word_less_nat_alt)
next
  case (Suc k)
  have le: "newsz \<le> KERNBASE" using assms(1) by simp
  show ?case
  proof (cases "a < newsz")
    case True
    have "no_fault (allocuvm_loop (Suc k) pgd oldsz newsz (a + PGSIZE) t)" for t
      using Suc.prems by (intro Suc.IH) (simp only: step_page [OF True le], simp)
    then show ?thesis using le
      by (subst allocuvm_loop.simps) (auto simp: Let_def split: prod.splits simp del: allocuvm_loop.simps intro!: no_fault_kbind)
  qed simp
qed

lemma allocuvm_no_fault [simp]: "no_fault (allocuvm pgd oldsz newsz s)"
  using allocuvm_loop_no_fault [of newsz "PGROUNDUP oldsz" "unat newsz div 4096 + 1" pgd oldsz s]
  by (auto simp: allocuvm_def simp del: allocuvm_loop.simps)

lemma setupkvm_loop_no_fault: "no_fault (setupkvm_loop pgd ks s)"
  by (induction pgd ks s rule: setupkvm_loop.induct) auto

lemma setupkvm_no_fault [simp]: "no_fault (setupkvm s)"
  by (auto simp: setupkvm_def setupkvm_loop_no_fault Let_def split: prod.splits)

lemma freevm_no_fault [simp]: "no_fault (freevm pgd s)"
  by (auto simp: freevm_def Let_def intro!: no_fault_kbind no_fault_for_each split: prod.splits)

lemma copyuvm_loop_no_fault:
  assumes "sze \<le> KERNBASE" and "unat sze \<le> unat i + 4096 * k"
  shows "no_fault (copyuvm_loop (Suc k) pgd d i sze s)"
  using assms(2)
proof (induction k arbitrary: i s)
  case 0
  then show ?case by (auto simp: word_less_nat_alt)
next
  case (Suc k)
  show ?case
  proof (cases "i < sze")
    case True
    have "no_fault (copyuvm_loop (Suc k) pgd d (i + PGSIZE) sze t)" for t
      using Suc.prems by (intro Suc.IH) (simp only: step_page [OF True assms(1)], simp)
    then show ?thesis
      by (subst copyuvm_loop.simps) (auto simp: Let_def split: prod.splits simp del: copyuvm_loop.simps intro!: no_fault_kbind)
  qed simp
qed

lemma copyuvm_no_fault [simp]: "sze \<le> KERNBASE \<Longrightarrow> no_fault (copyuvm pgd sze s)"
  using copyuvm_loop_no_fault [of sze 0 "unat sze div 4096 + 1" pgd]
  by (auto simp: copyuvm_def simp del: copyuvm_loop.simps intro!: no_fault_kbind split: prod.splits)

section \<open>Properties\<close>



end
