(* ===== verification/Trap.thy ===== *)
theory Trap
  imports Sysfile Kbd Vm_Loops
begin

text \<open>
  Traps (\<^verbatim>\<open>trap.c\<close>): system calls, device interrupts and faults, and the return path \<^verbatim>\<open>trapret\<close> of
  \<^verbatim>\<open>trapasm.S\<close>, which delivers the pending signals. What the hardware supplies is the record \<open>hw\<close>: the
  number of this processor, the fault address and the values read from the device ports. The interrupt
  of the disk is that of the memory disk, which does nothing.
\<close>

section \<open>Interrupts\<close>

record hw =
  cpunum :: nat
  rcr2 :: u32
  kbd_ports :: "(u8 \<times> u8) list"
  kbd_shift :: u32
  uart_there :: bool
  uart_ports :: "(u8 \<times> u8) list"
  eax_left :: u32

abbreviation (input) "T_SYSCALL \<equiv> (64 :: u32)"
abbreviation (input) "T_IRQ0 \<equiv> (32 :: u32)"
abbreviation (input) "IRQ_TIMER \<equiv> (0 :: u32)"
abbreviation (input) "IRQ_KBD \<equiv> (1 :: u32)"
abbreviation (input) "IRQ_COM1 \<equiv> (4 :: u32)"
abbreviation (input) "IRQ_IDE \<equiv> (14 :: u32)"
abbreviation (input) "IRQ_SPURIOUS \<equiv> (31 :: u32)"
abbreviation (input) "DPL_USER \<equiv> (3 :: u16)"

definition timer_tick :: "hw \<Rightarrow> kernel \<Rightarrow> kernel" where
  "timer_tick h s =
     (if cpunum h = 0 then Alarm (wakeup ChTicks (s\<lparr>ticks := ticks s + 1\<rparr>)) else s)"

definition from_user :: "trapframe \<Rightarrow> bool" where
  "from_user t \<longleftrightarrow> tf_cs t AND 3 = DPL_USER"

text \<open>A trap that no device has caused: a fault of the process, or a mistake of the kernel.\<close>

definition unexpected :: "hw \<Rightarrow> trapframe \<Rightarrow> kernel \<Rightarrow> kernel res" where
  "unexpected h t s =
     (case cur s of
        None \<Rightarrow> Panic ''trap''
      | Some p \<Rightarrow>
          if tf_cs t AND 3 = 0 then Panic ''trap''
          else
            kbind (cprintf ''pid %d %s: trap %d err %d on cpu %d eip 0x%x addr 0x%x--kill proc\<newline>''
              [PInt (word_of_int (pid (procs s p))),
               PStr (Some (takeWhile (\<lambda>c. c \<noteq> 0) (pname (procs s p)))), PInt (tf_trapno t),
               PInt (tf_err t), PInt (word_of_nat (cpunum h)), PInt (tf_eip t), PInt (rcr2 h)] s)
              (\<lambda>s. Ok (upd_proc p (\<lambda>r. r\<lparr>killed := True\<rparr>) s)))"

definition trap_switch :: "hw \<Rightarrow> trapframe \<Rightarrow> kernel \<Rightarrow> kernel res" where
  "trap_switch h t s =
     (let no = tf_trapno t in
      if no = T_IRQ0 + IRQ_TIMER then Ok (timer_tick h s)
      else if no = T_IRQ0 + IRQ_IDE then Ok s
      else if no = T_IRQ0 + IRQ_IDE + 1 then Ok s
      else if no = T_IRQ0 + IRQ_KBD then Ok (snd (snd (kbdintr (kbd_ports h) (kbd_shift h) s)))
      else if no = T_IRQ0 + IRQ_COM1 then Ok (snd (uartintr (uart_there h) (uart_ports h) s))
      else if no = T_IRQ0 + 7 \<or> no = T_IRQ0 + IRQ_SPURIOUS then
        cprintf ''cpu%d: spurious interrupt at %x:%x\<newline>''
          [PInt (word_of_nat (cpunum h)), PInt (ucast (tf_cs t)), PInt (tf_eip t)] s
      else unexpected h t s)"

section \<open>The trap handler\<close>

text \<open>
  \<open>Returned\<close>: back to \<^verbatim>\<open>trapret\<close>. \<open>Left\<close>: the process has exited or sleeps inside a system call.
  \<open>Yielded\<close>: it has given up the processor and continues with \<open>trap_tail\<close>.
\<close>

datatype trap_out = Returned | Left | Yielded

definition must_exit :: "trapframe \<Rightarrow> kernel \<Rightarrow> bool" where
  "must_exit t s \<longleftrightarrow> (case cur s of None \<Rightarrow> False | Some p \<Rightarrow> killed (procs s p)) \<and> from_user t"

definition trap_tail :: "trapframe \<Rightarrow> kernel \<Rightarrow> (trap_out \<times> kernel) res" where
  "trap_tail t s =
     (if must_exit t s then kbind (exit s) (\<lambda>s. Ok (Left, s)) else Ok (Returned, s))"

definition trap_syscall :: "hw \<Rightarrow> trapframe \<Rightarrow> kernel \<Rightarrow> (trap_out \<times> kernel) res" where
  "trap_syscall h t s =
     with_proc s (\<lambda>p.
       if killed (procs s p) then kbind (exit s) (\<lambda>s. Ok (Left, s))
       else
         kbind (syscall (eax_left h) (upd_proc p (\<lambda>r. r\<lparr>tf := t\<rparr>) s)) (\<lambda>(back, s).
           if \<not> back then Ok (Left, s)
           else if killed (procs s p) then kbind (exit s) (\<lambda>s. Ok (Left, s))
           else Ok (Returned, s)))"

definition trap :: "hw \<Rightarrow> trapframe \<Rightarrow> kernel \<Rightarrow> (trap_out \<times> kernel) res" where
  "trap h t s =
     (if tf_trapno t = T_SYSCALL then trap_syscall h t s
      else
        kbind (trap_switch h t s) (\<lambda>s.
          if must_exit t s then kbind (exit s) (\<lambda>s. Ok (Left, s))
          else if (case cur s of None \<Rightarrow> False | Some p \<Rightarrow> state (procs s p) = RUNNING) \<and>
            tf_trapno t = T_IRQ0 + IRQ_TIMER then kbind (yield s) (\<lambda>s. Ok (Yielded, s))
          else trap_tail t s))"

text \<open>
  \<^verbatim>\<open>alltraps\<close>: the frame of a trap from user mode is at the top of the kernel stack, where
  \<^verbatim>\<open>proc->tf\<close> points; after \<open>trap\<close> has returned, \<^verbatim>\<open>trapret\<close> calls \<open>handling_signal\<close>.
\<close>

definition alltraps :: "hw \<Rightarrow> trapframe \<Rightarrow> kernel \<Rightarrow> (trap_out \<times> kernel) res" where
  "alltraps h t s =
     (let s = (case cur s of
                 None \<Rightarrow> s
               | Some p \<Rightarrow> if from_user t then upd_proc p (\<lambda>r. r\<lparr>tf := t\<rparr>) s else s) in
      kbind (trap h t s) (\<lambda>(r, s).
        case r of
          Returned \<Rightarrow> kbind (handling_signal s) (\<lambda>s. Ok (Returned, s))
        | _ \<Rightarrow> Ok (r, s)))"

section \<open>Sleeping for a number of ticks\<close>

lemma timer_tick_ticks:
  assumes "cpunum h = 0"
  shows "ticks ((timer_tick h ^^ k) s) = ticks s + word_of_nat k"
    and "cur ((timer_tick h ^^ k) s) = cur s" "heldlk ((timer_tick h ^^ k) s) = heldlk s"
    and "mycpu ((timer_tick h ^^ k) s) = mycpu s"
  using assms by (induction k) (simp_all add: timer_tick_def Alarm_def wakeup_def)

lemma alarm_tick_frame [simp]:
  "state (alarm_tick r) = state r" "chan (alarm_tick r) = chan r" "kont (alarm_tick r) = kont r"
  "pgdir (alarm_tick r) = pgdir r" "killed (alarm_tick r) = killed r"
  by (simp_all add: alarm_tick_def Let_def)

lemma timer_tick_proc:
  assumes "cpunum h = 0" and "p < NPROC"
  shows "state (procs ((timer_tick h ^^ k) s) p) =
      (if 0 < k \<and> state (procs s p) = SLEEPING \<and> chan (procs s p) = ChTicks then RUNNABLE
       else state (procs s p))"
    and "chan (procs ((timer_tick h ^^ k) s) p) = chan (procs s p)"
    and "kont (procs ((timer_tick h ^^ k) s) p) = kont (procs s p)"
    and "pgdir (procs ((timer_tick h ^^ k) s) p) = pgdir (procs s p)"
    and "killed (procs ((timer_tick h ^^ k) s) p) = killed (procs s p)"
  using assms by (induction k) (simp_all add: timer_tick_def Alarm_def wakeup_def wakeup1_def)

section \<open>Properties\<close>

text \<open>C14: A process in sys_sleep returns: it gives up the processor, the first timer tick makes it runnable, the scheduler runs it again, and the call returns 0 exactly when n ticks have passed since it was made, counting across the wrap-around of the tick counter; before that it goes back to sleep.\<close>

theorem sys_sleep_returns:
  assumes "sched_inv s" and "cur s = Some p" and "heldlk s = [LTicks]" and "\<not> killed (procs s p)"
    and "ticks s - ticks0 < n" and "cpunum h = 0" and "0 < k" and "unat (ticks s - ticks0) + k < 2 ^ 32"
  shows "\<exists>s1 s2 s3 s4 r s5. sys_sleep_loop ticks0 n s = Ok (None, s1) \<and> state (procs s1 p) = SLEEPING \<and>
    scheduler_leave s1 = Ok s2 \<and> scheduler_enter ((timer_tick h ^^ k) s2) = Ok s3 \<and> pick p s3 = Ok s4 \<and>
    sys_sleep_loop ticks0 n s4 = Ok (r, s5) \<and>
    (if unat n \<le> unat (ticks s - ticks0) + k then r = Some 0 \<and> cur s5 = Some p
     else r = None \<and> state (procs s5 p) = SLEEPING)"
proof -
  obtain c' where c': "mycpu s = c'" "ncli c' = 1" "\<not> ifl c'"
    using assms(1,3) by (simp add: sched_inv_def lk_inv_def)
  have p: "p < NPROC" "state (procs s p) = RUNNING" "pgdir (procs s p) \<noteq> 0"
    using assms(1,2) by (auto simp: sched_inv_def runnable_ok_def)
  have t: "ticks s + word_of_nat k - ticks0 < n \<longleftrightarrow> \<not> unat n \<le> unat (ticks s - ticks0) + k"
  proof -
    have e: "ticks s + word_of_nat k - ticks0 = (ticks s - ticks0) + word_of_nat k" by simp
    have "unat ((ticks s - ticks0) + word_of_nat k) = unat (ticks s - ticks0) + k"
      using assms(8) by (intro unat_add_small) simp
    then show ?thesis unfolding e word_less_nat_alt by (simp only: not_le)
  qed
  show ?thesis
    using assms(2-8) c' p t
    by (simp add: sys_sleep_loop_def sleep_def acquire_lk_def release_lk_def pushcli_def popcli_def sched_def
        with_proc_def upd_proc_def scheduler_back_def switchkvm_def scheduler_leave_def
        scheduler_enter_def pick_def switchuvm_def resume_def sleep_tail_def
        restore_intena_def Let_def timer_tick_ticks timer_tick_proc)
qed

definition demo_hw :: hw where
  "demo_hw = \<lparr>cpunum = 0, rcr2 = 0, kbd_ports = [], kbd_shift = 0, uart_there = False, uart_ports = [],
     eax_left = 0\<rparr>"

theorem sys_sleep_returns_witness:
  "\<exists>s1 s2 s3 s4 s5. sys_sleep_loop (-1) 5 (demo_holder\<lparr>ticks := 1\<rparr>) = Ok (None, s1) \<and>
    state (procs s1 0) = SLEEPING \<and>
    scheduler_leave s1 = Ok s2 \<and> scheduler_enter ((timer_tick demo_hw ^^ 3) s2) = Ok s3 \<and> pick 0 s3 = Ok s4 \<and>
    sys_sleep_loop (-1) 5 s4 = Ok (Some 0, s5)"
proof -
  have "sched_inv (demo_holder\<lparr>ticks := 1\<rparr>)"
    by (simp add: demo_holder_def sched_inv_def lk_inv_def runnable_ok_def zero_proc_def)
  from sys_sleep_returns [OF this, of 0 "-1" 5 demo_hw 3] show ?thesis
    by (simp add: demo_holder_def demo_hw_def zero_proc_def) blast
qed

end
