(* ===== verification/Ulib.thy ===== *)
theory Ulib
  imports CString Cprintf
begin

text \<open>
  The user library \<^verbatim>\<open>ulib.c\<close>. A C string that is only read is the list of its characters before the NUL, so
  \<^verbatim>\<open>*p == 0\<close> is \<open>p = []\<close> and \<^verbatim>\<open>p + 1\<close> is the tail; routines that write work on the byte-addressed memory.
  What \<^verbatim>\<open>read\<close> delivers on standard input is a list of characters that ends with the end of the file.
\<close>

abbreviation (input) "LF \<equiv> (0x0A :: u8)"
abbreviation (input) "CR \<equiv> (0x0D :: u8)"

section \<open>Strings\<close>

partial_function (option) strcpy :: "u32 \<Rightarrow> u32 \<Rightarrow> memory \<Rightarrow> memory option" where
  "strcpy s t m = (let c = m t; m = m(s := c) in if c \<noteq> 0 then strcpy (s + 1) (t + 1) m else Some m)"

fun strcmp :: "bytes \<Rightarrow> bytes \<Rightarrow> int" where
  "strcmp [] [] = 0"
| "strcmp [] (d # q) = - uint d"
| "strcmp (c # p) [] = uint c"
| "strcmp (c # p) (d # q) = (if c = d then strcmp p q else uint c - uint d)"

text \<open>The first position of a character; the array may have other bytes after the string.\<close>

definition strchr :: "bytes \<Rightarrow> u8 \<Rightarrow> nat option" where
  "strchr s c = (let t = takeWhile (\<lambda>x. x \<noteq> 0) s in first_slot (length t) (\<lambda>i. t ! i = c))"

text \<open>\<open>memmove\<close> of the library always copies upwards.\<close>

definition umemmove :: "u32 \<Rightarrow> u32 \<Rightarrow> int \<Rightarrow> memory \<Rightarrow> memory" where
  "umemmove vdst vsrc n m = copy_up (nat n) vdst vsrc m"

definition umemset :: "u32 \<Rightarrow> u32 \<Rightarrow> u32 \<Rightarrow> memory \<Rightarrow> memory" where
  "umemset dst c n m = stosb (unat n) dst (ucast c) m"

section \<open>Input and numbers\<close>

fun gets_loop :: "nat \<Rightarrow> bytes \<Rightarrow> bytes \<times> bytes" where
  "gets_loop 0 inp = ([], inp)"
| "gets_loop (Suc k) [] = ([], [])"
| "gets_loop (Suc k) (c # inp) =
     (if c = LF \<or> c = CR then ([c], inp) else let (b, inp) = gets_loop k inp in (c # b, inp))"

text \<open>The characters stored before the final NUL, and the input that is left.\<close>

definition gets :: "int \<Rightarrow> bytes \<Rightarrow> bytes \<times> bytes" where
  "gets mx inp = gets_loop (nat (mx - 1)) inp"

fun atoi_loop :: "u32 \<Rightarrow> bytes \<Rightarrow> u32" where
  "atoi_loop n [] = n"
| "atoi_loop n (c # s) = (if 0x30 \<le> c \<and> c \<le> 0x39 then atoi_loop (n * 10 + ucast c - 0x30) s else n)"

definition atoi :: "bytes \<Rightarrow> u32" where
  "atoi s = atoi_loop 0 s"

section \<open>Lemmas\<close>

lemma strcmp_0: "0 \<notin> set p \<Longrightarrow> 0 \<notin> set q \<Longrightarrow> strcmp p q = 0 \<longleftrightarrow> p = q"
  by (induction p q rule: strcmp.induct) (auto simp: uint_0_iff)

lemma strchr_None_iff: "0 \<notin> set p \<Longrightarrow> strchr p c = None \<longleftrightarrow> c \<notin> set p"
proof -
  assume "0 \<notin> set p"
  then have "takeWhile (\<lambda>x. x \<noteq> 0) p = p" by (simp add: takeWhile_eq_all_conv) blast
  then have "strchr p c = first_slot (length p) (\<lambda>i. p ! i = c)" unfolding strchr_def Let_def by (rule arg_cong)
  then show ?thesis by (auto simp: first_slot_None_iff in_set_conv_nth)
qed

lemma gets_fits: "1 \<le> mx \<Longrightarrow> int (length (fst (gets mx inp))) + 1 \<le> mx"
proof -
  have "length (fst (gets_loop k inp)) \<le> k" for k by (induction k inp rule: gets_loop.induct) (auto split: prod.splits)
  from this [of "nat (mx - 1)"] show "1 \<le> mx \<Longrightarrow> ?thesis" by (simp add: gets_def)
qed

lemma gets_splits: "fst (gets mx inp) @ snd (gets mx inp) = inp"
proof -
  have "fst (gets_loop k inp) @ snd (gets_loop k inp) = inp" for k
    by (induction k inp rule: gets_loop.induct) (auto split: prod.splits)
  then show ?thesis by (simp add: gets_def)
qed

lemma strcpy_copies:
  assumes "\<forall>i<n. m (t + word_of_nat i) \<noteq> 0" "m (t + word_of_nat n) = 0"
    "\<forall>i\<le>n. \<forall>j\<le>n. s + word_of_nat i \<noteq> t + word_of_nat j"
  shows "strcpy s t m = Some (copy_up (Suc n) s t m)"
  using assms
proof (induction n arbitrary: s t m)
  case 0
  then show ?case by (subst strcpy.simps) simp
next
  case (Suc n)
  have shift: "x + 1 + word_of_nat i = x + word_of_nat (Suc i)" for x :: u32 and i by (simp add: algebra_simps)
  have s: "s \<noteq> t + word_of_nat j" if "j \<le> Suc n" for j using Suc.prems(3) that by fastforce
  have keep: "(m(s := m t)) (t + 1 + word_of_nat i) = m (t + word_of_nat (Suc i))" if "i \<le> n" for i
    using s [of "Suc i"] that unfolding shift by simp
  have ap: "s + 1 + word_of_nat i \<noteq> t + 1 + word_of_nat j" if "i \<le> n" "j \<le> n" for i j
    using Suc.prems(3) that unfolding shift by simp
  have nz: "(m(s := m t)) (t + 1 + word_of_nat i) \<noteq> 0" if "i < n" for i
    unfolding keep [OF less_imp_le [OF that]] using Suc.prems(1) that by (simp del: of_nat_Suc)
  have "strcpy (s + 1) (t + 1) (m(s := m t)) = Some (copy_up (Suc n) (s + 1) (t + 1) (m(s := m t)))"
  proof (rule Suc.IH)
    show "(m(s := m t)) (t + 1 + word_of_nat n) = 0" unfolding keep [OF order_refl] by (rule Suc.prems(2))
  qed (intro allI impI nz ap; assumption)+
  moreover have "m t \<noteq> 0" using Suc.prems(1) [rule_format, of 0] by simp
  ultimately show ?case by (subst strcpy.simps) (simp add: Let_def)
qed

lemma atoi_loop_append:
  "\<forall>c\<in>set xs. 0x30 \<le> c \<and> c \<le> 0x39 \<Longrightarrow> atoi_loop n (xs @ ys) = atoi_loop (atoi_loop n xs) ys"
  by (induction xs arbitrary: n) auto

lemma digits_upper_nth: "i < 10 \<Longrightarrow> digits_upper ! i = word_of_nat (48 + i)"
  by (simp add: digits_upper_def chr8_def numeral_eq_Suc less_Suc_eq) auto

lemma dec_digit:
  fixes x :: u32
  shows "0x30 \<le> digits_upper ! unat (x mod 10) \<and> digits_upper ! unat (x mod 10) \<le> 0x39"
    and "(ucast (digits_upper ! unat (x mod 10)) :: u32) = x mod 10 + 0x30"
proof -
  have lt: "unat (x mod 10) < 10" by (simp add: unat_mod_distrib)
  have d: "unat (digits_upper ! unat (x mod 10)) = 48 + unat (x mod 10)"
    unfolding digits_upper_nth [OF lt] unat_of_nat using lt by simp
  then show "0x30 \<le> digits_upper ! unat (x mod 10) \<and> digits_upper ! unat (x mod 10) \<le> 0x39"
    using lt by (simp add: word_le_nat_alt)
  have "unat (x mod 10 + 0x30) = unat (x mod 10) + 0x30" using lt by (subst unat_add_lem [THEN iffD1]) simp_all
  then show "(ucast (digits_upper ! unat (x mod 10)) :: u32) = x mod 10 + 0x30"
    using d lt by (simp add: word_unat_eq_iff unsigned_ucast_eq take_bit_eq_mod)
qed

lemma atoi_digits: "atoi (rev (digit_loop digits_upper Dec x)) = x \<and>
    (\<forall>c\<in>set (digit_loop digits_upper Dec x). 0x30 \<le> c \<and> c \<le> 0x39)"
proof (induction "unat x" arbitrary: x rule: less_induct)
  case less
  let ?y = "x div 10" and ?ds = "if x div 10 \<noteq> 0 then digit_loop digits_upper Dec (x div 10) else []"
  have "atoi (rev ?ds) = ?y \<and> (\<forall>c\<in>set ?ds. 0x30 \<le> c \<and> c \<le> 0x39)"
    using less [of ?y] radix_div_less [of x Dec] by (auto simp: atoi_def)
  moreover have "digit_loop digits_upper Dec x = digits_upper ! unat (x mod 10) # ?ds"
    by (subst digit_loop.simps) simp
  moreover have "?y * 10 + (x mod 10 + 0x30) - 0x30 = x" using div_mult_mod_eq [of x 10] by (simp add: algebra_simps)
  ultimately show ?case using dec_digit [of x] by (simp add: atoi_def atoi_loop_append)
qed

text \<open>C40: Reading back a printed number gives the number: for every non-negative \<^verbatim>\<open>int\<close>, \<^verbatim>\<open>atoi\<close> of the digits that the
  \<^verbatim>\<open>%d\<close> of \<^verbatim>\<open>printf\<close> writes is the number.\<close>

theorem atoi_printf:
  assumes "0 \<le> sint x" and "printf ''%d'' [PInt x] = Ok ds"
  shows "atoi ds = x"
proof -
  have "ds = printint digits_upper x Dec True" using assms(2) by (simp add: printf_def with_int_def emit_def)
  then have "ds = rev (digit_loop digits_upper Dec x)" using assms(1) by (simp add: printint_def printint_buf_def)
  then show ?thesis using atoi_digits by simp
qed

theorem atoi_printf_witness: "\<exists>ds. printf ''%d'' [PInt 1027] = Ok ds \<and> atoi ds = 1027"
proof -
  obtain ds where "printf ''%d'' [PInt 1027] = Ok ds" by (simp add: printf_def with_int_def emit_def)
  with atoi_printf [of 1027 ds] show ?thesis by simp
qed

end
