(* ===== verification/Grep.thy ===== *)
theory Grep
  imports Ulib
begin

text \<open>
  \<^verbatim>\<open>grep.c\<close>: the regular expression matcher and the loop that reads lines. A C string is the list of its
  characters before the NUL, so \<^verbatim>\<open>*p == 0\<close> is \<open>p = []\<close> and \<^verbatim>\<open>p + 1\<close> is the tail. The data that successive
  calls of \<^verbatim>\<open>read\<close> return is a list of chunks. The lemmas show that the matcher decides the language of the
  pattern, and what the line loop prints.
\<close>

section \<open>The matcher\<close>

abbreviation (input) "CARET \<equiv> (0x5E :: u8)"
abbreviation (input) "DOLLAR \<equiv> (0x24 :: u8)"
abbreviation (input) "DOT \<equiv> (0x2E :: u8)"
abbreviation (input) "STAR \<equiv> (0x2A :: u8)"

function matchhere :: "bytes \<Rightarrow> bytes \<Rightarrow> bool" and matchstar :: "u8 \<Rightarrow> bytes \<Rightarrow> bytes \<Rightarrow> bool" where
  "matchhere re text =
     (if re = [] then True
      else if tl re \<noteq> [] \<and> hd (tl re) = STAR then matchstar (hd re) (tl (tl re)) text
      else if hd re = DOLLAR \<and> tl re = [] then text = []
      else if text \<noteq> [] \<and> (hd re = DOT \<or> hd re = hd text) then matchhere (tl re) (tl text)
      else False)"
| "matchstar c re text =
     (if matchhere re text then True
      else if text \<noteq> [] \<and> (hd text = c \<or> c = DOT) then matchstar c re (tl text)
      else False)"
  by pat_completeness auto
termination
  by (relation "measure (\<lambda>x. case x of Inl (re, text) \<Rightarrow> 2 * length re + length text
        | Inr (c, re, text) \<Rightarrow> Suc (2 * length re + length text))")
    (auto simp: neq_Nil_conv)

fun match_from :: "bytes \<Rightarrow> bytes \<Rightarrow> bool" where
  "match_from re text =
     (if matchhere re text then True else case text of [] \<Rightarrow> False | _ # text \<Rightarrow> match_from re text)"

definition match :: "bytes \<Rightarrow> bytes \<Rightarrow> bool" where
  "match re text =
     (if re \<noteq> [] \<and> hd re = CARET then matchhere (tl re) text else match_from re text)"

text \<open>
  The inner loop of \<open>grep\<close> over the bytes from \<^verbatim>\<open>p\<close> to the end of the data: what it writes, and the bytes
  that are left when there is no further newline.
\<close>

function grep_scan :: "bytes \<Rightarrow> bytes \<Rightarrow> bytes \<times> bytes" where
  "grep_scan pattern p =
     (case strchr p LF of
        None \<Rightarrow> ([], p)
      | Some q \<Rightarrow>
          let (out, r) = grep_scan pattern (drop (Suc q) p) in
          ((if match pattern (take q p) then take (Suc q) p else []) @ out, r))"
  by pat_completeness auto
termination
proof (relation "measure (\<lambda>(_, p). length p)")
  fix p :: bytes and q assume "strchr p LF = Some q"
  then have "q < length (takeWhile (\<lambda>x. x \<noteq> 0) p)" by (auto simp: strchr_def Let_def dest: first_slot_SomeD)
  then have "q < length p" using length_takeWhile_le [of "\<lambda>x. x \<noteq> 0" p] by linarith
  then show "((pattern, drop (Suc q) p), pattern, p) \<in> measure (\<lambda>(_, p). length p)" for pattern :: bytes by simp
qed simp

text \<open>
  The outer loop, with the first \<^verbatim>\<open>m\<close> bytes of \<^verbatim>\<open>buf\<close>. When no newline was found (\<^verbatim>\<open>p == buf\<close>) the data is
  dropped; an empty chunk is the end of the file.
\<close>

fun grep_loop :: "bytes \<Rightarrow> bytes \<Rightarrow> bytes list \<Rightarrow> bytes" where
  "grep_loop pattern buf [] = []"
| "grep_loop pattern buf (r # rs) =
     (if r = [] then []
      else
        let (out, p) = grep_scan pattern (buf @ r) in
        out @ grep_loop pattern (if length p = length (buf @ r) then [] else p) rs)"

definition grep :: "bytes \<Rightarrow> bytes list \<Rightarrow> bytes" where
  "grep pattern reads = grep_loop pattern [] reads"

declare grep_scan.simps [simp del] matchhere.simps [simp del] matchstar.simps [simp del] match_from.simps [simp del]

section \<open>The language of a pattern\<close>

text \<open>A pattern is a sequence of single and repeated characters, anchored or not at each end.\<close>

datatype item = One u8 | Many u8

fun items :: "bytes \<Rightarrow> item list" where
  "items [] = []"
| "items [c] = (if c = DOLLAR then [] else [One c])"
| "items (c # d # re) = (if d = STAR then Many c # items re else One c # items (d # re))"

fun at_end :: "bytes \<Rightarrow> bool" where
  "at_end [] = False"
| "at_end [c] = (c = DOLLAR)"
| "at_end (c # d # re) = (if d = STAR then at_end re else at_end (d # re))"

definition fits :: "u8 \<Rightarrow> u8 \<Rightarrow> bool" where
  "fits c x \<longleftrightarrow> c = DOT \<or> c = x"

primrec lang :: "item list \<Rightarrow> bytes set" where
  "lang [] = {[]}"
| "lang (i # is) = (case i of
     One c \<Rightarrow> {x # w | x w. fits c x \<and> w \<in> lang is}
   | Many c \<Rightarrow> {u @ w | u w. (\<forall>x\<in>set u. fits c x) \<and> w \<in> lang is})"

definition prefix_match :: "bytes \<Rightarrow> bytes \<Rightarrow> bool" where
  "prefix_match re text \<longleftrightarrow> (\<exists>u v. text = u @ v \<and> u \<in> lang (items re) \<and> (at_end re \<longrightarrow> v = []))"

lemma prefix_match_Many:
  "prefix_match (c # STAR # re) text \<longleftrightarrow>
    (\<exists>r text'. text = r @ text' \<and> (\<forall>x\<in>set r. fits c x) \<and> prefix_match re text')"
proof
  assume "prefix_match (c # STAR # re) text"
  then obtain u v where "text = u @ v" "u \<in> lang (items (c # STAR # re))" and v: "at_end re \<longrightarrow> v = []"
    unfolding prefix_match_def by auto
  then obtain r w where "text = (r @ w) @ v" "\<forall>x\<in>set r. fits c x" "w \<in> lang (items re)" by auto
  with v show "\<exists>r text'. text = r @ text' \<and> (\<forall>x\<in>set r. fits c x) \<and> prefix_match re text'"
    unfolding prefix_match_def by (intro exI [of _ r] exI [of _ "w @ v"]) auto
next
  assume "\<exists>r text'. text = r @ text' \<and> (\<forall>x\<in>set r. fits c x) \<and> prefix_match re text'"
  then obtain r w v where "text = (r @ w) @ v" "\<forall>x\<in>set r. fits c x" "w \<in> lang (items re)" "at_end re \<longrightarrow> v = []"
    unfolding prefix_match_def by (metis append.assoc)
  moreover from this have "r @ w \<in> lang (items (c # STAR # re))" by auto
  ultimately show "prefix_match (c # STAR # re) text" unfolding prefix_match_def by (intro exI conjI) simp_all
qed

lemma prefix_match_star:
  "prefix_match (c # STAR # re) text \<longleftrightarrow>
    prefix_match re text \<or> (\<exists>x text'. text = x # text' \<and> fits c x \<and> prefix_match (c # STAR # re) text')"
  unfolding prefix_match_Many
proof
  assume "\<exists>r text'. text = r @ text' \<and> (\<forall>x\<in>set r. fits c x) \<and> prefix_match re text'"
  then obtain r t where r: "text = r @ t" "\<forall>x\<in>set r. fits c x" "prefix_match re t" by blast
  then show "prefix_match re text \<or> (\<exists>x text'. text = x # text' \<and> fits c x \<and>
      (\<exists>r t'. text' = r @ t' \<and> (\<forall>x\<in>set r. fits c x) \<and> prefix_match re t'))"
    by (cases r) auto
next
  assume "prefix_match re text \<or> (\<exists>x text'. text = x # text' \<and> fits c x \<and>
      (\<exists>r t'. text' = r @ t' \<and> (\<forall>x\<in>set r. fits c x) \<and> prefix_match re t'))"
  then show "\<exists>r text'. text = r @ text' \<and> (\<forall>x\<in>set r. fits c x) \<and> prefix_match re text'"
    by (metis append_Cons append_Nil list.set_intros(1) empty_iff list.set(1) set_ConsD)
qed

lemma prefix_match_Cons:
  assumes "re = [] \<or> hd re \<noteq> STAR" "\<not> (c = DOLLAR \<and> re = [])"
  shows "prefix_match (c # re) text \<longleftrightarrow> (\<exists>x text'. text = x # text' \<and> fits c x \<and> prefix_match re text')"
proof -
  have i: "items (c # re) = One c # items re" "at_end (c # re) = at_end re" using assms by (cases re; auto)+
  have l: "u \<in> lang (items (c # re)) \<longleftrightarrow> (\<exists>x w. u = x # w \<and> fits c x \<and> w \<in> lang (items re))" for u by (auto simp: i)
  show ?thesis unfolding prefix_match_def l i(2) by (metis append_Cons)
qed

lemma matcher_prefix:
  "matchhere re t = prefix_match re t"
  "matchstar c re t = prefix_match (c # STAR # re) t"
proof (induction re t and c re t rule: matchhere_matchstar.induct)
  case (1 re t)
  consider (e) "re = []" | (s) c r where "re = c # STAR # r" | (d) "re = [DOLLAR]"
    | (plain) c r where "re = c # r" "r = [] \<or> hd r \<noteq> STAR" "\<not> (c = DOLLAR \<and> r = [])"
    by (metis list.exhaust_sel)
  then show ?case
  proof cases
    case e
    then show ?thesis by (simp add: matchhere.simps prefix_match_def)
  next
    case (s c r)
    then show ?thesis using 1(1) by (simp add: matchhere.simps)
  next
    case d
    then show ?thesis by (auto simp: matchhere.simps prefix_match_def)
  next
    case (plain c r)
    have "matchhere re t \<longleftrightarrow> t \<noteq> [] \<and> fits c (hd t) \<and> matchhere r (tl t)"
      using plain by (subst matchhere.simps) (auto simp: fits_def)
    also have "\<dots> \<longleftrightarrow> t \<noteq> [] \<and> fits c (hd t) \<and> prefix_match r (tl t)"
      using 1(2) plain by (auto simp: fits_def)
    also have "\<dots> \<longleftrightarrow> prefix_match re t"
      unfolding plain(1) prefix_match_Cons [OF plain(2,3)] by (cases t) auto
    finally show ?thesis .
  qed
next
  case (2 c re t)
  have "matchstar c re t \<longleftrightarrow> prefix_match re t \<or> (t \<noteq> [] \<and> fits c (hd t) \<and> prefix_match (c # STAR # re) (tl t))"
    using 2 by (subst matchstar.simps) (auto simp: fits_def)
  also have "\<dots> \<longleftrightarrow> prefix_match (c # STAR # re) t"
    by (subst (2) prefix_match_star) (cases t; auto)
  finally show ?case .
qed

lemma match_from_iff: "match_from re t \<longleftrightarrow> (\<exists>a b. t = a @ b \<and> prefix_match re b)"
proof (induction t)
  case Nil
  then show ?case by (simp add: match_from.simps matcher_prefix)
next
  case (Cons x t)
  show ?case
    by (subst match_from.simps) (auto simp: matcher_prefix Cons.IH Cons_eq_append_conv)
qed

text \<open>C38: The matcher of grep decides the language of the pattern: it accepts a text exactly when the text has a
  part in the language of the pattern's items, at the start when the pattern begins with a caret and at the end
  when it ends with a dollar sign.\<close>

theorem match_language:
  "match re text \<longleftrightarrow>
    (let anchored = (re \<noteq> [] \<and> hd re = CARET); body = (if anchored then tl re else re) in
     \<exists>a u b. text = a @ u @ b \<and> u \<in> lang (items body) \<and> \<not> (anchored \<and> a \<noteq> []) \<and> \<not> (at_end body \<and> b \<noteq> []))"
proof (cases "re \<noteq> [] \<and> hd re = CARET")
  case True
  then show ?thesis by (simp add: match_def matcher_prefix prefix_match_def Let_def)
next
  case False
  then have "match re text = match_from re text" by (auto simp: match_def)
  then show ?thesis unfolding match_from_iff using False by (simp add: prefix_match_def Let_def) blast
qed

section \<open>The lines that are printed\<close>

text \<open>The complete lines of a text, and what follows the last newline.\<close>

fun cut_lines :: "bytes \<Rightarrow> bytes \<Rightarrow> bytes list \<times> bytes" where
  "cut_lines acc [] = ([], acc)"
| "cut_lines acc (x # xs) = (if x = LF then let (ls, r) = cut_lines [] xs in (acc # ls, r) else cut_lines (acc @ [x]) xs)"

definition selected :: "bytes \<Rightarrow> bytes list \<Rightarrow> bytes" where
  "selected pattern ls = concat (map (\<lambda>l. l @ [LF]) (filter (match pattern) ls))"

lemma cut_lines_line: "LF \<notin> set l \<Longrightarrow> cut_lines acc (l @ LF # xs) = (case cut_lines [] xs of (ls, r) \<Rightarrow> ((acc @ l) # ls, r))"
  by (induction l arbitrary: acc) auto

lemma cut_lines_rest: "LF \<notin> set l \<Longrightarrow> cut_lines acc l = ([], acc @ l)"
  by (induction l arbitrary: acc) auto

lemma cut_lines_append:
  "cut_lines acc (xs @ ys) = (case cut_lines acc xs of (ls, r) \<Rightarrow> case cut_lines r ys of (ls', r') \<Rightarrow> (ls @ ls', r'))"
  by (induction xs arbitrary: acc) (auto split: prod.splits)

lemma cut_lines_no_LF: "LF \<notin> set acc \<Longrightarrow> LF \<notin> set (snd (cut_lines acc xs))"
  by (induction xs arbitrary: acc) (auto simp: split_beta)

lemma strchr_text:
  assumes "0 \<notin> set p"
  shows "strchr p LF = None \<Longrightarrow> LF \<notin> set p"
    and "strchr p LF = Some q \<Longrightarrow> p = take q p @ LF # drop (Suc q) p \<and> LF \<notin> set (take q p) \<and> take (Suc q) p = take q p @ [LF]"
proof -
  have t: "takeWhile (\<lambda>x. x \<noteq> 0) p = p" using assms by (simp add: takeWhile_eq_all_conv) blast
  show "strchr p LF = None \<Longrightarrow> LF \<notin> set p"
    by (auto simp: strchr_def t first_slot_None_iff in_set_conv_nth)
  assume "strchr p LF = Some q"
  then have q: "q < length p" "p ! q = LF" "\<forall>j<q. p ! j \<noteq> LF" by (auto simp: strchr_def t first_slot_Some_iff)
  then have "LF \<notin> set (take q p)" by (auto simp: in_set_conv_nth)
  then show "p = take q p @ LF # drop (Suc q) p \<and> LF \<notin> set (take q p) \<and> take (Suc q) p = take q p @ [LF]"
    using id_take_nth_drop [OF q(1)] q(2) by (simp add: take_Suc_conv_app_nth q(1))
qed

lemma grep_scan_cut_lines:
  "0 \<notin> set p \<Longrightarrow> grep_scan pattern p = (selected pattern (fst (cut_lines [] p)), snd (cut_lines [] p))"
proof (induction pattern p rule: grep_scan.induct)
  case (1 pattern p)
  show ?case
  proof (cases "strchr p LF")
    case None
    then have "LF \<notin> set p" using 1(2) strchr_text by blast
    then show ?thesis using None by (simp add: grep_scan.simps cut_lines_rest selected_def)
  next
    case (Some q)
    note p = strchr_text(2) [OF 1(2) Some]
    then have c: "cut_lines [] p = (take q p # fst (cut_lines [] (drop (Suc q) p)), snd (cut_lines [] (drop (Suc q) p)))"
      using cut_lines_line [of "take q p" "[]" "drop (Suc q) p"] by (simp split: prod.splits)
    have "0 \<notin> set (drop (Suc q) p)" using 1(2) by (meson in_set_dropD)
    then have IH: "grep_scan pattern (drop (Suc q) p) =
        (selected pattern (fst (cut_lines [] (drop (Suc q) p))), snd (cut_lines [] (drop (Suc q) p)))"
      by (rule 1(1) [OF Some])
    then show ?thesis using p
      by (subst grep_scan.simps) (simp add: Some c selected_def)
  qed
qed

lemma cut_lines_length: "length (snd (cut_lines acc xs)) \<le> length acc + length xs"
proof (induction xs arbitrary: acc)
  case (Cons x xs)
  show ?case using Cons.IH [of "[]"] Cons.IH [of "acc @ [x]"] by (auto simp: split_beta)
qed simp

lemma cut_lines_some: "LF \<in> set xs \<Longrightarrow> length (snd (cut_lines acc xs)) < length acc + length xs"
proof (induction xs arbitrary: acc)
  case (Cons x xs)
  then show ?case using cut_lines_length [of "[]" xs] Cons.IH [of "acc @ [x]"] by (auto simp: split_beta)
qed simp

lemma selected_append: "selected pattern (ls @ ls') = selected pattern ls @ selected pattern ls'"
  by (simp add: selected_def)

lemma set_cut_lines: "set (snd (cut_lines acc xs)) \<subseteq> set acc \<union> set xs"
proof (induction xs arbitrary: acc)
  case (Cons x xs)
  show ?case using Cons.IH [of "[]"] Cons.IH [of "acc @ [x]"] by (auto simp: split_beta)
qed simp

lemma grep_loop_selects:
  assumes "\<forall>r\<in>set rs. LF \<in> set r \<and> 0 \<notin> set r" "LF \<notin> set buf" "0 \<notin> set buf"
  shows "grep_loop pattern buf rs = selected pattern (fst (cut_lines buf (concat rs)))"
  using assms
proof (induction rs arbitrary: buf)
  case Nil
  then show ?case by (simp add: selected_def)
next
  case (Cons r rs)
  have b: "cut_lines [] (buf @ r) = cut_lines buf r" using Cons.prems(2) by (simp add: cut_lines_append cut_lines_rest split: prod.splits)
  have s: "grep_scan pattern (buf @ r) = (selected pattern (fst (cut_lines buf r)), snd (cut_lines buf r))"
    unfolding b [symmetric] by (rule grep_scan_cut_lines) (use Cons.prems in auto)
  have r: "r \<noteq> []" using Cons.prems(1) by auto
  have "length (snd (cut_lines buf r)) \<noteq> length (buf @ r)" using cut_lines_some [of r buf] Cons.prems(1) by simp
  moreover have "LF \<notin> set (snd (cut_lines buf r))" by (rule cut_lines_no_LF [OF Cons.prems(2)])
  moreover have "0 \<notin> set (snd (cut_lines buf r))" using set_cut_lines [of buf r] Cons.prems by auto
  ultimately show ?case using Cons.IH [of "snd (cut_lines buf r)"] Cons.prems(1) r s
    by (simp add: cut_lines_append selected_append split_beta)
qed

text \<open>C39: When every read returns at least one newline and no NUL byte, grep prints exactly the complete lines of the
  input that match, in order, wherever the reads cut the input.\<close>

theorem grep_selects_lines:
  assumes "\<forall>r\<in>set reads. LF \<in> set r \<and> 0 \<notin> set r"
  shows "grep pattern reads = selected pattern (fst (cut_lines [] (concat reads)))"
  unfolding grep_def using grep_loop_selects [OF assms] by simp

theorem grep_selects_lines_witness:
  "grep [0x62] [[0x61, LF, 0x62], [LF, 0x63, LF]] = [0x62, LF]"
proof -
  have "match [0x62] [0x61] = False" "match [0x62] [0x62] = True" "match [0x62] [0x63] = False"
    by (simp_all add: match_def match_from.simps matchhere.simps)
  then show ?thesis using grep_selects_lines [of "[[0x61, LF, 0x62], [LF, 0x63, LF]]" "[0x62]"]
    by (simp add: selected_def)
qed

text \<open>
  A read that ends before the first newline, as reads of a pipe or of the console may, loses the data: the
  line is not completed by the next read.
\<close>

lemma grep_drops_partial_line:
  assumes "LF \<notin> set buf" "0 \<notin> set buf" "LF \<notin> set r" "0 \<notin> set r" "r \<noteq> []"
  shows "grep_loop pattern buf (r # rs) = grep_loop pattern [] rs"
proof -
  have "cut_lines [] (buf @ r) = ([], buf @ r)" using cut_lines_rest [of "buf @ r" "[]"] assms by simp
  then have "grep_scan pattern (buf @ r) = ([], buf @ r)"
    using grep_scan_cut_lines [of "buf @ r" pattern] assms by (simp add: selected_def)
  then show ?thesis using assms(5) by simp
qed

end
