(* ===== verification/Sh.thy ===== *)
theory Sh
  imports Ulib
begin

text \<open>
  The parser of the shell, \<^verbatim>\<open>sh.c\<close>. The command line is a buffer of characters without NUL, followed by the
  NUL at \<^verbatim>\<open>es\<close>; a pointer into it is a position. A command keeps, as in the source, the positions \<^verbatim>\<open>q\<close> and
  \<^verbatim>\<open>eq\<close> of its words; \<open>nulterminate\<close> then writes a NUL at the end of each. \<^verbatim>\<open>panic\<close> is the outcome \<open>Panic\<close>.
  The constructors (\<^verbatim>\<open>execcmd\<close> and the others) are those of the datatype: that \<^verbatim>\<open>malloc\<close> finds no memory is
  not modelled.
\<close>

section \<open>Commands\<close>

datatype cmd =
    EXEC "(nat \<times> nat) list"
  | REDIR cmd nat nat u32 nat
  | PIPE cmd cmd
  | LIST cmd cmd
  | BACK cmd

abbreviation (input) "MAXARGS \<equiv> (10 :: nat)"

definition whitespace :: bytes where
  "whitespace = [0x20, 0x09, 0x0D, 0x0A, 0x0B]"

definition symbols :: bytes where
  "symbols = [0x3C, 0x7C, 0x3E, 0x26, 0x3B, 0x28, 0x29]"

section \<open>Tokens\<close>

text \<open>The character at a position; the buffer ends with a NUL.\<close>

definition char_at :: "bytes \<Rightarrow> nat \<Rightarrow> u8" where
  "char_at b s = (if s < length b then b ! s else 0)"

definition within :: "bytes \<Rightarrow> u8 \<Rightarrow> bool" where
  "within cs c \<longleftrightarrow> strchr cs c \<noteq> None"

function skip_ws :: "bytes \<Rightarrow> nat \<Rightarrow> nat" where
  "skip_ws b s = (if s < length b \<and> within whitespace (char_at b s) then skip_ws b (Suc s) else s)"
  by pat_completeness auto
termination
  by (relation "measure (\<lambda>(b, s). length b - s)") auto

function word_end :: "bytes \<Rightarrow> nat \<Rightarrow> nat" where
  "word_end b s =
     (if s < length b \<and> \<not> within whitespace (char_at b s) \<and> \<not> within symbols (char_at b s)
      then word_end b (Suc s) else s)"
  by pat_completeness auto
termination
  by (relation "measure (\<lambda>(b, s). length b - s)") auto

declare skip_ws.simps [simp del] word_end.simps [simp del]

text \<open>\<open>gettoken\<close> returns the code of the token, \<^verbatim>\<open>q\<close>, \<^verbatim>\<open>eq\<close> and the new position.\<close>

definition gettoken :: "bytes \<Rightarrow> nat \<Rightarrow> u8 \<times> nat \<times> nat \<times> nat" where
  "gettoken b s =
     (let s = skip_ws b s; q = s; c = char_at b s;
          (r, s) =
            (if c = 0 then (c, s)
             else if c = 0x7C \<or> c = 0x28 \<or> c = 0x29 \<or> c = 0x3B \<or> c = 0x26 \<or> c = 0x3C then (c, Suc s)
             else if c = 0x3E then
               if char_at b (Suc s) = 0x3E then (0x2B, Suc (Suc s)) else (c, Suc s)
             else (0x61, word_end b s))
      in (r, q, s, skip_ws b s))"

definition peek :: "bytes \<Rightarrow> nat \<Rightarrow> bytes \<Rightarrow> bool \<times> nat" where
  "peek b s toks = (let s = skip_ws b s in (char_at b s \<noteq> 0 \<and> within toks (char_at b s), s))"

section \<open>Positions only move forward\<close>

lemma within_iff: "0 \<notin> set cs \<Longrightarrow> within cs c \<longleftrightarrow> c \<in> set cs"
  by (auto simp: within_def strchr_None_iff)

lemma within_ws [simp]: "within whitespace c \<longleftrightarrow> c \<in> set whitespace"
  by (rule within_iff) (simp add: whitespace_def)

lemma within_symbols [simp]: "within symbols c \<longleftrightarrow> c \<in> set symbols"
  by (rule within_iff) (simp add: symbols_def)

lemma skip_ws_le: "s \<le> skip_ws b s \<and> (s \<le> length b \<longrightarrow> skip_ws b s \<le> length b) \<and>
    (skip_ws b s < length b \<longrightarrow> char_at b (skip_ws b s) \<notin> set whitespace)"
proof (induction b s rule: skip_ws.induct)
  case (1 b s)
  then show ?case by (cases "s < length b \<and> within whitespace (char_at b s)") (auto simp: skip_ws.simps [of b s])
qed

lemma skip_ws_skip_ws [simp]: "skip_ws b (skip_ws b s) = skip_ws b s"
  using skip_ws_le [of s b] by (subst skip_ws.simps) auto

lemma word_end_le: "s \<le> word_end b s \<and> (s \<le> length b \<longrightarrow> word_end b s \<le> length b) \<and>
    (word_end b s < length b \<longrightarrow> char_at b (word_end b s) \<in> set whitespace \<union> set symbols) \<and>
    (\<forall>i. s \<le> i \<and> i < word_end b s \<longrightarrow> char_at b i \<notin> set whitespace \<union> set symbols)"
proof (induction b s rule: word_end.induct)
  case (1 b s)
  show ?case
  proof (cases "s < length b \<and> \<not> within whitespace (char_at b s) \<and> \<not> within symbols (char_at b s)")
    case True
    then have "word_end b s = word_end b (Suc s)" by (simp add: word_end.simps [of b s])
    moreover have "i = s \<or> Suc s \<le> i" if "s \<le> i" for i using that by linarith
    ultimately show ?thesis using 1 True by (metis Suc_leD Suc_leI UnE within_symbols within_ws)
  next
    case False
    then have "word_end b s = s" by (auto simp: word_end.simps [of b s])
    then show ?thesis using False by auto
  qed
qed

text \<open>A word of the buffer: no separator inside, one after it.\<close>

definition word_ok :: "bytes \<Rightarrow> nat \<times> nat \<Rightarrow> bool" where
  "word_ok b = (\<lambda>(q, e). q < e \<and> e \<le> length b \<and> (\<forall>i. q \<le> i \<and> i < e \<longrightarrow> char_at b i \<notin> set whitespace \<union> set symbols) \<and>
     char_at b e \<in> {0} \<union> set whitespace \<union> set symbols)"

lemma char_at_0_iff: "0 \<notin> set b \<Longrightarrow> char_at b s = 0 \<longleftrightarrow> length b \<le> s"
  by (auto simp: char_at_def in_set_conv_nth)

lemma gettoken_ok:
  assumes "0 \<notin> set b" "s \<le> length b" "gettoken b s = (r, q, e, s')"
  shows "s \<le> s' \<and> s' \<le> length b \<and> (r \<noteq> 0 \<longrightarrow> s < s') \<and> (r = 0x61 \<longrightarrow> word_ok b (q, e))"
proof -
  define t where "t = skip_ws b s"
  have t: "s \<le> t" "t \<le> length b" "t < length b \<Longrightarrow> char_at b t \<notin> set whitespace"
    using skip_ws_le [of s b] assms(2) by (auto simp: t_def)
  let ?c = "char_at b t"
  have sk: "u \<le> skip_ws b u \<and> skip_ws b u \<le> length b" if "u \<le> length b" for u using skip_ws_le [of u b] that by simp
  consider (nul) "t = length b" | (sym) "t < length b" "?c \<in> set symbols" | (wd) "t < length b" "?c \<notin> set symbols"
    using t(2) by linarith
  then show ?thesis
  proof cases
    case nul
    then have "?c = 0" by (simp add: char_at_def)
    then have "(r, q, e, s') = (0, t, t, skip_ws b t)" using assms(3) by (auto simp: gettoken_def t_def [symmetric] Let_def)
    then show ?thesis using t(1) sk [OF t(2)] by auto
  next
    case sym
    then have nz: "?c \<noteq> 0" using char_at_0_iff [OF assms(1)] by simp
    have "Suc (Suc t) \<le> length b" if "char_at b (Suc t) = 0x3E"
      using that by (auto simp: char_at_def split: if_splits)
    moreover have "(r, q, e, s') = (if ?c = 0x3E \<and> char_at b (Suc t) = 0x3E then (0x2B, t, Suc (Suc t), skip_ws b (Suc (Suc t)))
        else (?c, t, Suc t, skip_ws b (Suc t)))"
      using assms(3) sym nz by (auto simp: gettoken_def t_def [symmetric] Let_def symbols_def)
    moreover have "?c \<noteq> 0x61" using sym by (auto simp: symbols_def)
    ultimately show ?thesis using sym(1) t(1) sk [of "Suc t"] sk [of "Suc (Suc t)"] by (auto split: if_splits)
  next
    case wd
    then have nz: "?c \<noteq> 0" using char_at_0_iff [OF assms(1)] by simp
    have g: "(r, q, e, s') = (0x61, t, word_end b t, skip_ws b (word_end b t))"
      using assms(3) wd nz by (auto simp: gettoken_def t_def [symmetric] Let_def symbols_def)
    have "word_end b t = word_end b (Suc t)" using wd t(3) by (simp add: word_end.simps [of b t])
    then have lt: "t < word_end b t" using word_end_le [of "Suc t" b] by simp
    have le: "word_end b t \<le> length b" using word_end_le [of t b] t(2) by simp
    have "char_at b (word_end b t) \<in> {0} \<union> set whitespace \<union> set symbols"
      using word_end_le [of t b] le by (cases "word_end b t < length b") (auto simp: char_at_def)
    then have "word_ok b (t, word_end b t)" using word_end_le [of t b] lt le by (simp add: word_ok_def)
    then show ?thesis using g lt le t(1) sk [OF le] by auto
  qed
qed

lemma peek_ok:
  assumes "s \<le> length b" "peek b s toks = (p, s')"
  shows "s \<le> s' \<and> s' \<le> length b" "p \<Longrightarrow> 0 \<notin> set toks \<Longrightarrow> s' < length b \<and> char_at b s' \<in> set toks \<and> skip_ws b s' = s'"
proof -
  have s': "s' = skip_ws b s" "p = (char_at b s' \<noteq> 0 \<and> within toks (char_at b s'))" using assms(2) by (auto simp: peek_def Let_def)
  show "s \<le> s' \<and> s' \<le> length b" using skip_ws_le [of s b] assms(1) s'(1) by simp
  assume p: "p" "0 \<notin> set toks"
  then have "s' < length b" using s'(2) by (auto simp: char_at_def split: if_splits)
  moreover from this have "skip_ws b s' = s'" using s'(1) by simp
  ultimately show "s' < length b \<and> char_at b s' \<in> set toks \<and> skip_ws b s' = s'"
    using p s'(2) by (simp add: within_iff)
qed

section \<open>The parser\<close>

definition redir_switch :: "u8 \<Rightarrow> cmd \<Rightarrow> nat \<Rightarrow> nat \<Rightarrow> cmd" where
  "redir_switch tok cmd q e = (if tok = 0x3C then REDIR cmd q e 0 0 else REDIR cmd q e 0x201 1)"

text \<open>
  The first argument of the parsing functions is fuel, one unit for each round of a loop and each call.
  \<open>Sh_Parse\<close> shows that what \<open>parsecmd\<close> gives is always enough.
\<close>

primrec parseredirs :: "nat \<Rightarrow> bytes \<Rightarrow> cmd \<Rightarrow> nat \<Rightarrow> (cmd \<times> nat) res" where
  "parseredirs 0 b cmd s = Fault ''fuel''"
| "parseredirs (Suc n) b cmd s =
     (let (p, s) = peek b s [0x3C, 0x3E] in
      if \<not> p then Ok (cmd, s)
      else
        let (tok, _, _, s) = gettoken b s; (t, q, e, s) = gettoken b s in
        if t \<noteq> 0x61 then Panic ''missing file for redirection''
        else parseredirs n b (redir_switch tok cmd q e) s)"

text \<open>
  In \<open>parseexec\<close> the pointer \<^verbatim>\<open>cmd\<close> stays at the exec node while \<^verbatim>\<open>ret\<close> may be wrapped in redirections; the
  arguments are stored into the node in place.
\<close>

fun set_argv :: "(nat \<times> nat) list \<Rightarrow> cmd \<Rightarrow> cmd" where
  "set_argv args (EXEC _) = EXEC args"
| "set_argv args (REDIR c q e mode fd) = REDIR (set_argv args c) q e mode fd"
| "set_argv args c = c"

primrec parseargs :: "nat \<Rightarrow> bytes \<Rightarrow> (nat \<times> nat) list \<Rightarrow> cmd \<Rightarrow> nat \<Rightarrow> (cmd \<times> nat) res" where
  "parseargs 0 b args ret s = Fault ''fuel''"
| "parseargs (Suc n) b args ret s =
     (let (p, s) = peek b s [0x7C, 0x29, 0x26, 0x3B] in
      if p then Ok (set_argv args ret, s)
      else
        let (tok, q, e, s) = gettoken b s in
        if tok = 0 then Ok (set_argv args ret, s)
        else if tok \<noteq> 0x61 then Panic ''syntax''
        else
          let args = args @ [(q, e)] in
          if length args \<ge> MAXARGS then Panic ''too many args''
          else kbind (parseredirs (Suc (length b)) b ret s) (\<lambda>(ret, s). parseargs n b args ret s))"

primrec parseback :: "nat \<Rightarrow> bytes \<Rightarrow> cmd \<Rightarrow> nat \<Rightarrow> (cmd \<times> nat) res" where
  "parseback 0 b cmd s = Fault ''fuel''"
| "parseback (Suc n) b cmd s =
     (let (p, s) = peek b s [0x26] in
      if \<not> p then Ok (cmd, s)
      else let (_, _, _, s) = gettoken b s in parseback n b (BACK cmd) s)"

fun parseline :: "nat \<Rightarrow> bytes \<Rightarrow> nat \<Rightarrow> (cmd \<times> nat) res"
and parsepipe :: "nat \<Rightarrow> bytes \<Rightarrow> nat \<Rightarrow> (cmd \<times> nat) res"
and parseexec :: "nat \<Rightarrow> bytes \<Rightarrow> nat \<Rightarrow> (cmd \<times> nat) res"
and parseblock :: "nat \<Rightarrow> bytes \<Rightarrow> nat \<Rightarrow> (cmd \<times> nat) res" where
  "parseline 0 b s = Fault ''fuel''"
| "parseline (Suc n) b s =
     kbind (parsepipe n b s) (\<lambda>(cmd, s).
     kbind (parseback (Suc (length b)) b cmd s) (\<lambda>(cmd, s).
     let (p, s) = peek b s [0x3B] in
     if \<not> p then Ok (cmd, s)
     else
       let (_, _, _, s) = gettoken b s in
       kbind (parseline n b s) (\<lambda>(r, s). Ok (LIST cmd r, s))))"
| "parsepipe 0 b s = Fault ''fuel''"
| "parsepipe (Suc n) b s =
     kbind (parseexec n b s) (\<lambda>(cmd, s).
     let (p, s) = peek b s [0x7C] in
     if \<not> p then Ok (cmd, s)
     else
       let (_, _, _, s) = gettoken b s in
       kbind (parsepipe n b s) (\<lambda>(r, s). Ok (PIPE cmd r, s)))"
| "parseexec 0 b s = Fault ''fuel''"
| "parseexec (Suc n) b s =
     (let (p, s) = peek b s [0x28] in
      if p then parseblock n b s
      else
        kbind (parseredirs (Suc (length b)) b (EXEC []) s) (\<lambda>(ret, s).
        parseargs (Suc (length b)) b [] ret s))"
| "parseblock 0 b s = Fault ''fuel''"
| "parseblock (Suc n) b s =
     (let (p, s) = peek b s [0x28] in
      if \<not> p then Panic ''parseblock''
      else
        let (_, _, _, s) = gettoken b s in
        kbind (parseline n b s) (\<lambda>(cmd, s).
        let (p, s) = peek b s [0x29] in
        if \<not> p then Panic ''syntax - missing )''
        else let (_, _, _, s) = gettoken b s in parseredirs (Suc (length b)) b cmd s))"

text \<open>\<open>nulterminate\<close> on the buffer with its final NUL.\<close>

fun nulterminate :: "cmd \<Rightarrow> bytes \<Rightarrow> bytes" where
  "nulterminate (EXEC args) buf = fold (\<lambda>(q, e) buf. buf[e := 0]) args buf"
| "nulterminate (REDIR c q e mode fd) buf = (nulterminate c buf)[e := 0]"
| "nulterminate (PIPE l r) buf = nulterminate r (nulterminate l buf)"
| "nulterminate (LIST l r) buf = nulterminate r (nulterminate l buf)"
| "nulterminate (BACK c) buf = nulterminate c buf"

definition parsecmd :: "bytes \<Rightarrow> (cmd \<times> bytes) res" where
  "parsecmd b =
     kbind (parseline (4 * length b + 4) b 0) (\<lambda>(cmd, s).
     let (_, s) = peek b s [] in
     if s \<noteq> length b then Panic ''syntax'' else Ok (cmd, nulterminate cmd (b @ [0])))"

end
