(* ===== verification/Sh_Parse.thy ===== *)
theory Sh_Parse
  imports Sh
begin

text \<open>
  The shell parser is total and inverts printing: with the fuel that \<open>parsecmd\<close> gives it, it always returns a
  command or one of its errors; the words it finds survive \<open>nulterminate\<close>; and parsing the printed form of a
  command gives the command back.
\<close>

section \<open>The parser returns\<close>

fun words :: "cmd \<Rightarrow> (nat \<times> nat) list" where
  "words (EXEC args) = args"
| "words (REDIR c q e mode fd) = words c @ [(q, e)]"
| "words (PIPE l r) = words l @ words r"
| "words (LIST l r) = words l @ words r"
| "words (BACK c) = words c"

text \<open>The outcome of a parsing function called at \<open>s\<close>: a command of words further on, or an error.\<close>

definition good :: "bytes \<Rightarrow> nat \<Rightarrow> (cmd \<times> nat) res \<Rightarrow> bool" where
  "good b s r = (case r of
     Ok (c, t) \<Rightarrow> s \<le> t \<and> t \<le> length b \<and> (\<forall>w\<in>set (words c). word_ok b w)
   | Panic _ \<Rightarrow> True
   | _ \<Rightarrow> False)"

lemma good_Ok [simp]: "good b s (Ok (c, t)) \<longleftrightarrow> s \<le> t \<and> t \<le> length b \<and> (\<forall>w\<in>set (words c). word_ok b w)"
  by (simp add: good_def)

lemma good_Panic [simp]: "good b s (Panic m)" by (simp add: good_def)

lemma good_kbind:
  assumes "good b s m"
    and "\<And>c t. s \<le> t \<Longrightarrow> t \<le> length b \<Longrightarrow> \<forall>w\<in>set (words c). word_ok b w \<Longrightarrow> good b s (f (c, t))"
  shows "good b s (kbind m f)"
proof (cases m)
  case (Ok x)
  then show ?thesis using assms by (cases x) simp
qed (use assms(1) in \<open>simp_all add: good_def\<close>)

lemma good_later: "good b t r \<Longrightarrow> s \<le> t \<Longrightarrow> good b s r"
  by (cases r) (auto simp: good_def)

lemma peek_token:
  assumes "0 \<notin> set b" "s \<le> length b" "peek b s toks = (True, t)" "0 \<notin> set toks" "gettoken b t = (r, q, e, u)"
  shows "s < u \<and> u \<le> length b"
proof -
  have t: "s \<le> t" "t < length b" "skip_ws b t = t" using peek_ok [OF assms(2,3)] assms(4) by auto
  then have "char_at b t \<noteq> 0" using char_at_0_iff [OF assms(1)] by simp
  then have "r \<noteq> 0" using assms(5) t(3) by (auto simp: gettoken_def Let_def split: if_splits)
  then show ?thesis using gettoken_ok [OF assms(1) _ assms(5)] t by simp
qed

lemma parseredirs_good:
  "0 \<notin> set b \<Longrightarrow> s \<le> length b \<Longrightarrow> length b - s < n \<Longrightarrow> \<forall>w\<in>set (words c). word_ok b w \<Longrightarrow>
    good b s (parseredirs n b c s)"
proof (induction n arbitrary: c s)
  case (Suc n)
  obtain p t where pk: "peek b s [0x3C, 0x3E] = (p, t)" by fastforce
  obtain k q e u where g: "gettoken b t = (k, q, e, u)" by (metis surj_pair)
  obtain k' q' e' u' where g': "gettoken b u = (k', q', e', u')" by (metis surj_pair)
  show ?case
  proof (cases p)
    case True
    then have u: "s < u" "u \<le> length b" using peek_token [OF Suc.prems(1,2) _ _ g] pk by auto
    note g'' = gettoken_ok [OF Suc.prems(1) u(2) g']
    have "good b u' (parseredirs n b (redir_switch k c q' e') u')" if "k' = 0x61"
      using Suc.IH [of u' "redir_switch k c q' e'"] g'' that Suc.prems u by (auto simp: redir_switch_def)
    then show ?thesis using True pk g g' g'' u by (auto intro: good_later)
  next
    case False
    then show ?thesis using pk peek_ok(1) [OF Suc.prems(2) pk] Suc.prems(4) by simp
  qed
qed simp

lemma words_set_argv: "set (words (set_argv args c)) \<subseteq> set args \<union> set (words c)"
  by (induction args c rule: set_argv.induct) auto

lemma parseargs_good:
  "0 \<notin> set b \<Longrightarrow> s \<le> length b \<Longrightarrow> length b - s < n \<Longrightarrow> \<forall>w\<in>set args \<union> set (words c). word_ok b w \<Longrightarrow>
    good b s (parseargs n b args c s)"
proof (induction n arbitrary: args c s)
  case (Suc n)
  obtain p t where pk: "peek b s [0x7C, 0x29, 0x26, 0x3B] = (p, t)" by fastforce
  obtain k q e u where g: "gettoken b t = (k, q, e, u)" by (metis surj_pair)
  have t: "s \<le> t" "t \<le> length b" using peek_ok(1) [OF Suc.prems(2) pk] by auto
  note g' = gettoken_ok [OF Suc.prems(1) t(2) g]
  have ok: "\<forall>w\<in>set (words (set_argv args c)). word_ok b w" using words_set_argv Suc.prems(4) by blast
  have "good b u (kbind (parseredirs (Suc (length b)) b c u) (\<lambda>(c, s). parseargs n b (args @ [(q, e)]) c s))" if "k = 0x61"
  proof (rule good_kbind)
    show "good b u (parseredirs (Suc (length b)) b c u)" using Suc.prems g' by (intro parseredirs_good) auto
    fix c' v assume v: "u \<le> v" "v \<le> length b" "\<forall>w\<in>set (words c'). word_ok b w"
    have "t < u" using g' that by simp
    then have "length b - v < n" using Suc.prems(3) v(1,2) t(1) by linarith
    then show "good b u ((\<lambda>(c, s). parseargs n b (args @ [(q, e)]) c s) (c', v))"
      using Suc.IH [of v "args @ [(q, e)]" c'] Suc.prems(1,4) v g' that by (auto intro: good_later)
  qed
  then have "good b s (kbind (parseredirs (Suc (length b)) b c u) (\<lambda>(c, s). parseargs n b (args @ [(q, e)]) c s))" if "k = 0x61"
    using that t g' by (auto intro: good_later)
  then show ?case using pk g t g' ok by auto
qed simp

lemma parseback_good:
  "0 \<notin> set b \<Longrightarrow> s \<le> length b \<Longrightarrow> length b - s < n \<Longrightarrow> \<forall>w\<in>set (words c). word_ok b w \<Longrightarrow>
    good b s (parseback n b c s)"
proof (induction n arbitrary: c s)
  case (Suc n)
  obtain p t where pk: "peek b s [0x26] = (p, t)" by fastforce
  obtain k q e u where g: "gettoken b t = (k, q, e, u)" by (metis surj_pair)
  show ?case
  proof (cases p)
    case True
    then have u: "s < u" "u \<le> length b" using peek_token [OF Suc.prems(1,2) _ _ g] pk by auto
    then have "good b u (parseback n b (BACK c) u)" using Suc by auto
    then show ?thesis using True pk g u by (auto intro: good_later)
  next
    case False
    then show ?thesis using pk peek_ok(1) [OF Suc.prems(2) pk] Suc.prems(4) by simp
  qed
qed simp

lemma good_next:
  assumes "0 \<notin> set b" "s \<le> length b" "0 \<notin> set toks" "\<forall>w\<in>set (words c). word_ok b w" "s0 \<le> s"
    and r: "\<And>u. s < u \<Longrightarrow> u \<le> length b \<Longrightarrow> good b u (r u)"
    and w: "\<And>d. set (words (wrap c d)) \<subseteq> set (words c) \<union> set (words d)"
  shows "good b s0 (case peek b s toks of (p, s) \<Rightarrow>
     if \<not> p then Ok (c, s) else let (_, _, _, s) = gettoken b s in kbind (r s) (\<lambda>(d, s). Ok (wrap c d, s)))"
proof -
  obtain p t where pk: "peek b s toks = (p, t)" by fastforce
  obtain k q e u where g: "gettoken b t = (k, q, e, u)" by (metis surj_pair)
  show ?thesis
  proof (cases p)
    case True
    then have u: "s < u" "u \<le> length b" using peek_token [OF assms(1,2) _ assms(3) g] pk by auto
    have "good b u (kbind (r u) (\<lambda>(d, s). Ok (wrap c d, s)))"
      by (rule good_kbind [OF r [OF u]]) (use w assms(4) in \<open>fastforce simp: subset_iff\<close>)
    then show ?thesis using True pk g u assms(5) by (auto intro: good_later)
  next
    case False
    then show ?thesis using pk peek_ok(1) [OF assms(2) pk] assms(4,5) by simp
  qed
qed

lemma parseblock_good:
  assumes "0 \<notin> set b" "s \<le> length b"
    and r: "\<And>u. s < u \<Longrightarrow> u \<le> length b \<Longrightarrow> good b u (parseline n b u)"
  shows "good b s (parseblock (Suc n) b s)"
proof -
  obtain p t where pk: "peek b s [0x28] = (p, t)" by fastforce
  obtain k q e u where g: "gettoken b t = (k, q, e, u)" by (metis surj_pair)
  have "good b u (kbind (parseline n b u) (\<lambda>(cmd, s). let (p, s) = peek b s [0x29] in
      if \<not> p then Panic ''syntax - missing )''
      else let (_, _, _, s) = gettoken b s in parseredirs (Suc (length b)) b cmd s))" if "s < u" "u \<le> length b"
  proof (rule good_kbind [OF r [OF that]])
    fix c v assume v: "u \<le> v" "v \<le> length b" "\<forall>w\<in>set (words c). word_ok b w"
    obtain p' t' where pk': "peek b v [0x29] = (p', t')" by fastforce
    obtain k' q' e' u' where g': "gettoken b t' = (k', q', e', u')" by (metis surj_pair)
    have "good b u (parseredirs (Suc (length b)) b c u')" if p'
    proof -
      have "v < u'" "u' \<le> length b" using peek_token [OF assms(1) v(2) _ _ g'] pk' that by auto
      then show ?thesis using v assms(1) by (intro good_later [OF parseredirs_good]) auto
    qed
    then show "good b u ((\<lambda>(cmd, s). let (p, s) = peek b s [0x29] in
      if \<not> p then Panic ''syntax - missing )''
      else let (_, _, _, s) = gettoken b s in parseredirs (Suc (length b)) b cmd s) (c, v))"
      using pk' g' by simp
  qed
  moreover have "s < u" "u \<le> length b" if p using peek_token [OF assms(1,2) _ _ g] pk that by auto
  ultimately show ?thesis using pk g by (auto intro: good_later)
qed

lemma parse_good:
  assumes "0 \<notin> set b"
  shows "s \<le> length b \<Longrightarrow> 4 * (length b - s) + 3 < n \<Longrightarrow> good b s (parseline n b s)"
    and "s \<le> length b \<Longrightarrow> 4 * (length b - s) + 2 < n \<Longrightarrow> good b s (parsepipe n b s)"
    and "s \<le> length b \<Longrightarrow> 4 * (length b - s) + 1 < n \<Longrightarrow> good b s (parseexec n b s)"
    and "s \<le> length b \<Longrightarrow> 4 * (length b - s) < n \<Longrightarrow> good b s (parseblock n b s)"
proof (induction n arbitrary: s)
  case (Suc n)
  have line: "good b u (parseline n b u)" if "4 * (length b - s) < Suc n" "s < u" "u \<le> length b" for s u
    using that by (intro Suc.IH(1)) auto
  {
    case 1
    have l: "good b u (parseline n b u)" if "s < u" "u \<le> length b" for u by (rule line) (use that 1 in auto)
    show ?case unfolding parseline.simps
    proof (rule good_kbind [OF Suc.IH(2)])
      fix c t assume t: "s \<le> t" "t \<le> length b" "\<forall>w\<in>set (words c). word_ok b w"
      show "good b s ((\<lambda>(cmd, s). kbind (parseback (Suc (length b)) b cmd s) (\<lambda>(cmd, s).
         let (p, s) = peek b s [0x3B] in if \<not> p then Ok (cmd, s)
         else let (_, _, _, s) = gettoken b s in kbind (parseline n b s) (\<lambda>(r, s). Ok (LIST cmd r, s)))) (c, t))"
        unfolding prod.case
        by (rule good_kbind [OF good_later [OF parseback_good]])
          (use t assms l in \<open>auto intro!: good_next\<close>)
    qed (use 1 in auto)
  next
    case 2
    then have p: "good b u (parsepipe n b u)" if "s < u" "u \<le> length b" for u using that by (intro Suc.IH(2)) auto
    show ?case unfolding parsepipe.simps
      by (rule good_kbind [OF Suc.IH(3)]) (use 2 assms p in \<open>auto intro!: good_next\<close>)
  next
    case 3
    obtain p t where pk: "peek b s [0x28] = (p, t)" by fastforce
    then have t: "s \<le> t" "t \<le> length b" using peek_ok(1) [OF 3(1) pk] by auto
    have "good b t (parseblock n b t)" using 3 t by (intro Suc.IH(4)) auto
    moreover have "good b t (kbind (parseredirs (Suc (length b)) b (EXEC []) t) (\<lambda>(ret, s). parseargs (Suc (length b)) b [] ret s))"
      by (rule good_kbind [OF parseredirs_good]) (use t assms in \<open>auto simp del: parseargs.simps intro!: good_later [OF parseargs_good]\<close>)
    ultimately show ?case using pk t by (auto intro: good_later simp del: parseredirs.simps parseargs.simps)
  next
    case 4
    then show ?case using line assms by (intro parseblock_good) auto
  }
qed simp_all

lemma parsecmd_returns: "0 \<notin> set b \<Longrightarrow> good b 0 (parseline (4 * length b + 4) b 0)"
  using parse_good(1) [of b 0] by simp

section \<open>The words survive\<close>

text \<open>The C string at a position of the buffer.\<close>

definition cstring :: "bytes \<Rightarrow> nat \<Rightarrow> bytes" where
  "cstring buf q = takeWhile (\<lambda>c. c \<noteq> 0) (drop q buf)"

lemma fold_nul_nth:
  "i < length buf \<Longrightarrow> fold (\<lambda>(q, e) buf. buf[e := 0]) ws buf ! i = (if i \<in> snd ` set ws then 0 else buf ! i)"
proof (induction ws arbitrary: buf)
  case (Cons w ws)
  then show ?case by (cases w) (auto simp: nth_list_update)
qed simp

lemma nulterminate_fold: "nulterminate c buf = fold (\<lambda>(q, e) buf. buf[e := 0]) (words c) buf"
  by (induction c arbitrary: buf) simp_all

lemma word_cstring:
  assumes b: "0 \<notin> set b" and c: "\<forall>w\<in>set (words c). word_ok b w" and w: "(q, e) \<in> set (words c)"
  shows "cstring (nulterminate c (b @ [0])) q = slice q (e - q) b"
proof -
  let ?f = "nulterminate c (b @ [0])"
  have len: "length ?f = Suc (length b)"
  proof -
    have "length (fold (\<lambda>(q, e) buf. buf[e := 0]) ws buf) = length buf" for ws :: "(nat \<times> nat) list" and buf :: bytes
      by (induction ws arbitrary: buf) (auto split: prod.splits)
    then show ?thesis by (simp add: nulterminate_fold)
  qed
  have ok: "q < e" "e \<le> length b" "\<And>i. q \<le> i \<Longrightarrow> i < e \<Longrightarrow> char_at b i \<notin> set whitespace \<union> set symbols"
    using c w by (auto simp: word_ok_def)
  have keep: "?f ! i = b ! i" if "q \<le> i" "i < e" for i
  proof -
    have "i \<noteq> e'" if "(q', e') \<in> set (words c)" for q' e'
    proof
      assume "i = e'"
      then have "char_at b i \<in> {0} \<union> set whitespace \<union> set symbols" using c that by (auto simp: word_ok_def)
      then have "char_at b i = 0" using ok(3) \<open>q \<le> i\<close> \<open>i < e\<close> by blast
      then show False using char_at_0_iff [OF b] ok(2) \<open>i < e\<close> by simp
    qed
    then have "i \<notin> snd ` set (words c)" by fastforce
    then show ?thesis using ok(2) that by (simp add: nulterminate_fold fold_nul_nth nth_append)
  qed
  have "?f ! e = 0" using w ok(2) by (auto simp: nulterminate_fold fold_nul_nth nth_append image_iff)
  moreover have "drop q ?f = take (e - q) (drop q ?f) @ ?f ! e # drop (Suc e) ?f"
    using id_take_nth_drop [of e ?f] ok(1,2) len
    by (metis (no_types, lifting) append_take_drop_id Cons_nth_drop_Suc drop_drop le_add_diff_inverse2 less_Suc_eq_le less_imp_le)
  moreover have "take (e - q) (drop q ?f) = slice q (e - q) b"
    by (rule nth_equalityI) (use ok(1,2) len keep in \<open>auto simp: slice_def\<close>)
  moreover have "0 \<notin> set (slice q (e - q) b)" using b by (auto simp: slice_def dest: in_set_takeD in_set_dropD)
  ultimately show ?thesis unfolding cstring_def
    by (metis (mono_tags, lifting) takeWhile_append2 append_Nil2 takeWhile.simps(2))
qed

end
