(* ===== verification/Sh_Print.thy ===== *)
theory Sh_Print
  imports Sh_Parse
begin

text \<open>
  Printing commands as text and reading them back. The printed form separates the tokens by spaces;
  \<open>ahead b s ts\<close> says that the tokens \<open>ts\<close> are what the parser has in front of it at position \<open>s\<close>.
\<close>

section \<open>Tokens in the text\<close>

definition is_ws :: "u8 \<Rightarrow> bool" where "is_ws c \<longleftrightarrow> c \<in> set whitespace"

definition is_word :: "u8 \<Rightarrow> bool" where "is_word c \<longleftrightarrow> c \<notin> {0} \<union> set whitespace \<union> set symbols"

definition word :: "bytes \<Rightarrow> bool" where "word t \<longleftrightarrow> t \<noteq> [] \<and> (\<forall>c\<in>set t. is_word c)"

definition token :: "bytes \<Rightarrow> bool" where "token t \<longleftrightarrow> word t \<or> (\<exists>c\<in>set symbols. t = [c])"

definition text_of :: "bytes list \<Rightarrow> bytes" where
  "text_of ts = concat (map (\<lambda>t. 0x20 # t) ts)"

definition ahead :: "bytes \<Rightarrow> nat \<Rightarrow> bytes list \<Rightarrow> bool" where
  "ahead b s ts \<longleftrightarrow> 0 \<notin> set b \<and> s \<le> length b \<and> dropWhile is_ws (drop s b) = dropWhile is_ws (text_of ts) \<and>
     (\<forall>t\<in>set ts. token t)"

lemma char_at_drop: "s \<le> length b \<Longrightarrow> char_at b s = (case drop s b of [] \<Rightarrow> 0 | c # _ \<Rightarrow> c)"
  by (cases "s = length b") (auto simp: char_at_def Cons_nth_drop_Suc [symmetric])

lemma skip_ws_drop: "s \<le> length b \<Longrightarrow> drop (skip_ws b s) b = dropWhile is_ws (drop s b)"
proof (induction b s rule: skip_ws.induct)
  case (1 b s)
  show ?case
  proof (cases "s < length b")
    case True
    then have "drop s b = b ! s # drop (Suc s) b" by (rule Cons_nth_drop_Suc [symmetric])
    then show ?thesis using 1 True is_ws_def [of "b ! s"] by (subst skip_ws.simps) (auto simp: char_at_def)
  qed (use 1(2) skip_ws_le [of s b] in simp)
qed

lemma word_end_drop: "0 \<notin> set b \<Longrightarrow> s \<le> length b \<Longrightarrow> drop (word_end b s) b = dropWhile is_word (drop s b)"
proof (induction b s rule: word_end.induct)
  case (1 b s)
  show ?case
  proof (cases "s < length b")
    case True
    then have "drop s b = b ! s # drop (Suc s) b" by (rule Cons_nth_drop_Suc [symmetric])
    moreover have "b ! s \<noteq> 0" using True 1(2) nth_mem by fastforce
    ultimately show ?thesis using 1 True is_word_def [of "b ! s"] by (subst word_end.simps) (auto simp: char_at_def)
  qed (use 1(3) word_end_le [of s b] in simp)
qed

lemma word_no_ws: "is_word c \<Longrightarrow> \<not> is_ws c"
  by (simp add: is_word_def is_ws_def)

lemma symbol_facts: "c \<in> set symbols \<Longrightarrow> \<not> is_ws c \<and> \<not> is_word c \<and> c \<noteq> 0"
  by (auto simp: symbols_def is_ws_def is_word_def whitespace_def)

lemma token_hd: "token t \<Longrightarrow> t \<noteq> [] \<and> \<not> is_ws (hd t) \<and> hd t \<noteq> 0"
  by (auto simp: token_def word_def symbol_facts word_no_ws neq_Nil_conv) (auto simp: is_word_def)

lemma text_of_Cons: "token t \<Longrightarrow> dropWhile is_ws (text_of (t # ts)) = t @ text_of ts"
proof -
  assume t: "token t"
  then obtain c u where "t = c # u" "\<not> is_ws c" using token_hd [OF t] by (cases t) auto
  then show ?thesis by (simp add: text_of_def is_ws_def whitespace_def)
qed

lemma text_of_Nil [simp]: "text_of [] = []"
  by (simp add: text_of_def)

lemma text_of_sep: "text_of ts = [] \<or> hd (text_of ts) = 0x20"
  by (cases ts) (simp_all add: text_of_def)

lemma ahead_skip:
  assumes "ahead b s ts"
  shows "ahead b (skip_ws b s) ts" "skip_ws b s \<le> length b"
    "drop (skip_ws b s) b = (case ts of [] \<Rightarrow> [] | t # ts \<Rightarrow> t @ text_of ts)"
proof -
  have s: "s \<le> length b" "dropWhile is_ws (drop s b) = dropWhile is_ws (text_of ts)" using assms by (auto simp: ahead_def)
  show le: "skip_ws b s \<le> length b" using skip_ws_le [of s b] s(1) by simp
  show "drop (skip_ws b s) b = (case ts of [] \<Rightarrow> [] | t # ts \<Rightarrow> t @ text_of ts)"
    using skip_ws_drop [OF s(1)] s(2) assms by (cases ts) (auto simp: text_of_Cons ahead_def)
  show "ahead b (skip_ws b s) ts" using assms skip_ws_drop [OF s(1)] le by (simp add: ahead_def dropWhile_idem)
qed

lemma ahead_char:
  assumes "ahead b s ts"
  shows "char_at b (skip_ws b s) = (if ts = [] then 0 else hd (hd ts))"
proof (cases ts)
  case Nil
  then show ?thesis using char_at_drop [OF ahead_skip(2) [OF assms]] ahead_skip(3) [OF assms] by simp
next
  case (Cons t us)
  then obtain c u where "t = c # u" using assms token_hd [of t] by (cases t) (auto simp: ahead_def)
  then show ?thesis using Cons char_at_drop [OF ahead_skip(2) [OF assms]] ahead_skip(3) [OF assms] by simp
qed

lemma peek_ahead:
  assumes "ahead b s ts" "0 \<notin> set toks"
  shows "\<exists>t. peek b s toks = (ts \<noteq> [] \<and> hd (hd ts) \<in> set toks, t) \<and> ahead b t ts"
proof -
  have "ts \<noteq> [] \<Longrightarrow> hd (hd ts) \<noteq> 0" using assms(1) token_hd by (cases ts) (auto simp: ahead_def)
  then show ?thesis using ahead_skip(1) [OF assms(1)] ahead_char [OF assms(1)] assms(2) by (simp add: peek_def within_iff)
qed

definition code :: "bytes \<Rightarrow> u8" where
  "code t = (if hd t \<in> set symbols then hd t else 0x61)"

lemma gettoken_end: "ahead b s [] \<Longrightarrow> \<exists>q e t. gettoken b s = (0, q, e, t) \<and> ahead b t []"
  using ahead_char [of b s "[]"] ahead_skip(1) [of b s "[]"] by (simp add: gettoken_def Let_def)

lemma drop_prefix:
  assumes "drop s b = t @ r"
  shows "drop (s + length t) b = r" "slice s (length t) b = t"
  using assms by (simp_all add: slice_def add.commute [of s] flip: drop_drop)

lemma ahead_after:
  assumes "ahead b s (t # ts)" "skip_ws b s + length t = e"
  shows "ahead b (skip_ws b e) ts"
proof -
  have d: "drop (skip_ws b s) b = t @ text_of ts" using ahead_skip(3) [OF assms(1)] by simp
  then have e: "drop e b = text_of ts" using drop_prefix assms(2) by metis
  have "length (drop (skip_ws b s) b) \<ge> length t" unfolding d by simp
  then have "e \<le> length b" using ahead_skip(2) [OF assms(1)] assms(2) by simp
  then show ?thesis using e assms(1) by (intro ahead_skip(1)) (simp add: ahead_def)
qed

lemma gettoken_ahead:
  assumes "ahead b s (t # ts)"
  shows "\<exists>q e u. gettoken b s = (code t, q, e, u) \<and> slice q (e - q) b = t \<and> ahead b u ts"
proof -
  define q where "q = skip_ws b s"
  have tok: "token t" and nz: "0 \<notin> set b" using assms by (auto simp: ahead_def)
  have d: "drop q b = t @ text_of ts" and ql: "q \<le> length b" using ahead_skip(2,3) [OF assms] by (simp_all add: q_def)
  have c: "char_at b q = hd t" using ahead_char [OF assms] by (simp add: q_def)
  have n0: "hd t \<noteq> 0" using token_hd [OF tok] by simp
  note sl = drop_prefix(2) [OF d]
  have "gettoken b s = (code t, q, q + length t, skip_ws b (q + length t))"
  proof (cases "hd t \<in> set symbols")
    case True
    then have t: "t = [hd t]" using tok symbol_facts by (auto simp: token_def word_def neq_Nil_conv)
    then have "drop (Suc q) b = text_of ts" using drop_prefix(1) [OF d] by (metis One_nat_def add.commute length_Cons list.size(3) plus_1_eq_Suc)
    moreover have "Suc q \<le> length b" using d t by (metis Suc_leI drop_all append_is_Nil_conv list.distinct(1) not_le_imp_less)
    ultimately have "char_at b (Suc q) \<noteq> 0x3E" using char_at_drop [of "Suc q" b] text_of_sep [of ts] by (auto split: list.splits)
    then show ?thesis using True c n0 t unfolding gettoken_def q_def [symmetric]
      by (auto simp: Let_def code_def symbols_def)
  next
    case False
    then have w: "word t" using tok by (auto simp: token_def)
    have "dropWhile is_word (t @ text_of ts) = text_of ts"
      using w text_of_sep [of ts] by (cases "text_of ts") (auto simp: word_def dropWhile_append3 is_word_def whitespace_def)
    then have "drop (word_end b q) b = drop (q + length t) b"
      using word_end_drop [OF nz ql] d drop_prefix(1) [OF d] by simp
    moreover have "word_end b q \<le> length b" using word_end_le [of q b] ql by simp
    moreover have "q + length t \<le> length b" using arg_cong [OF d, of length] ql token_hd [OF tok] by (auto split: if_splits)
    ultimately have "word_end b q = q + length t" by (metis diff_diff_cancel length_drop)
    then show ?thesis using False c n0 unfolding gettoken_def q_def [symmetric] by (auto simp: Let_def code_def symbols_def)
  qed
  moreover have "ahead b (skip_ws b (q + length t)) ts" by (rule ahead_after [OF assms]) (simp add: q_def)
  ultimately show ?thesis using sl by auto
qed

section \<open>Commands as trees\<close>

datatype ast = SExec "bytes list" | SRedir ast bytes u32 nat | SPipe ast ast | SList ast ast | SBack ast

text \<open>The tree of a command, given what a word of it reads as.\<close>

primrec ast_of :: "(nat \<times> nat \<Rightarrow> bytes) \<Rightarrow> cmd \<Rightarrow> ast" where
  "ast_of rd (EXEC args) = SExec (map rd args)"
| "ast_of rd (REDIR c q e mode fd) = SRedir (ast_of rd c) (rd (q, e)) mode fd"
| "ast_of rd (PIPE l r) = SPipe (ast_of rd l) (ast_of rd r)"
| "ast_of rd (LIST l r) = SList (ast_of rd l) (ast_of rd r)"
| "ast_of rd (BACK c) = SBack (ast_of rd c)"

text \<open>The trees that can be written: proper words, fewer than \<^verbatim>\<open>MAXARGS\<close> arguments, the modes of \<^verbatim>\<open><\<close> and \<^verbatim>\<open>>\<close>.\<close>

primrec wf_ast :: "ast \<Rightarrow> bool" where
  "wf_ast (SExec args) \<longleftrightarrow> length args < MAXARGS \<and> (\<forall>a\<in>set args. word a)"
| "wf_ast (SRedir c f mode fd) \<longleftrightarrow> wf_ast c \<and> word f \<and> (mode = 0 \<and> fd = 0 \<or> mode = 0x201 \<and> fd = 1)"
| "wf_ast (SPipe l r) \<longleftrightarrow> wf_ast l \<and> wf_ast r"
| "wf_ast (SList l r) \<longleftrightarrow> wf_ast l \<and> wf_ast r"
| "wf_ast (SBack c) \<longleftrightarrow> wf_ast c"

definition redir_toks :: "nat \<Rightarrow> bytes \<Rightarrow> bytes list" where
  "redir_toks fd f = [[if fd = 0 then 0x3C else 0x3E], f]"

definition paren :: "bool \<Rightarrow> bytes list \<Rightarrow> bytes list" where
  "paren p ts = (if p then [[0x28]] @ ts @ [[0x29]] else ts)"

text \<open>The tokens of a tree where an \<open>exec\<close> (0), a \<open>pipe\<close> (1), a background command (2) or a \<open>line\<close> (3) may stand.\<close>

primrec pr :: "ast \<Rightarrow> nat \<Rightarrow> bytes list" where
  "pr (SExec args) lv = args"
| "pr (SRedir c f mode fd) lv = pr c 0 @ redir_toks fd f"
| "pr (SPipe l r) lv = paren (lv < 1) (pr l 0 @ [[0x7C]] @ pr r 1)"
| "pr (SList l r) lv = paren (lv < 3) (pr l 2 @ [[0x3B]] @ pr r 3)"
| "pr (SBack c) lv = paren (lv < 2) (pr c 2 @ [[0x26]])"

definition show_cmd :: "ast \<Rightarrow> bytes" where
  "show_cmd c = text_of (pr c 3)"

section \<open>Reading redirections and arguments\<close>

type_synonym redir = "bytes \<times> u32 \<times> nat"

definition redir_ok :: "redir \<Rightarrow> bool" where
  "redir_ok = (\<lambda>(f, mode, fd). word f \<and> (mode = 0 \<and> fd = 0 \<or> mode = 0x201 \<and> fd = 1))"

definition rtoks :: "redir list \<Rightarrow> bytes list" where
  "rtoks rs = concat (map (\<lambda>(f, mode, fd). redir_toks fd f) rs)"

definition wraps :: "redir list \<Rightarrow> ast \<Rightarrow> ast" where
  "wraps rs c = foldl (\<lambda>c (f, mode, fd). SRedir c f mode fd) c rs"

definition wrap_cmd :: "(nat \<times> nat \<times> u32 \<times> nat) list \<Rightarrow> cmd \<Rightarrow> cmd" where
  "wrap_cmd ps c = foldl (\<lambda>c (q, e, mode, fd). REDIR c q e mode fd) c ps"

abbreviation rdb :: "bytes \<Rightarrow> nat \<times> nat \<Rightarrow> bytes" where
  "rdb b \<equiv> \<lambda>(q, e). slice q (e - q) b"

definition redir_of :: "bytes \<Rightarrow> nat \<times> nat \<times> u32 \<times> nat \<Rightarrow> redir" where
  "redir_of b = (\<lambda>(q, e, mode, fd). (rdb b (q, e), mode, fd))"

lemma ast_of_wrap_cmd: "ast_of (rdb b) (wrap_cmd ps c) = wraps (map (redir_of b) ps) (ast_of (rdb b) c)"
  by (induction ps arbitrary: c) (auto simp: wrap_cmd_def wraps_def redir_of_def)

lemma set_argv_wrap_cmd: "set_argv args (wrap_cmd ps c) = wrap_cmd ps (set_argv args c)"
  by (induction ps arbitrary: c) (auto simp: wrap_cmd_def)

lemma word_hd: "word t \<Longrightarrow> t \<noteq> [] \<and> hd t \<notin> set symbols \<and> code t = 0x61"
  by (cases t) (auto simp: word_def is_word_def code_def)

lemma parseredirs_ahead:
  "ahead b s (rtoks rs @ ts) \<Longrightarrow> \<forall>r\<in>set rs. redir_ok r \<Longrightarrow> ts = [] \<or> hd (hd ts) \<notin> {0x3C, 0x3E} \<Longrightarrow> length rs < n \<Longrightarrow>
    \<exists>ps u. parseredirs n b c s = Ok (wrap_cmd ps c, u) \<and> map (redir_of b) ps = rs \<and> ahead b u ts"
proof (induction rs arbitrary: n c s)
  case Nil
  then obtain m where n: "n = Suc m" by (cases n) auto
  obtain t where "peek b s [0x3C, 0x3E] = (ts \<noteq> [] \<and> hd (hd ts) \<in> set [0x3C, 0x3E], t)" "ahead b t ts"
    using peek_ahead [of b s ts "[0x3C, 0x3E]"] Nil.prems(1) by (auto simp: rtoks_def)
  then show ?case using Nil.prems(3) n by (auto simp: wrap_cmd_def)
next
  case (Cons r rs)
  obtain m where n: "n = Suc m" "length rs < m" using Cons.prems(4) by (cases n) auto
  obtain f mode fd where r: "r = (f, mode, fd)" by (cases r)
  then have f: "word f" "mode = 0 \<and> fd = 0 \<or> mode = 0x201 \<and> fd = 1" using Cons.prems(2) by (auto simp: redir_ok_def)
  define k :: u8 where "k = (if fd = 0 then 0x3C else 0x3E)"
  have toks: "rtoks (r # rs) @ ts = [k] # f # rtoks rs @ ts" by (simp add: rtoks_def r redir_toks_def k_def)
  obtain t where pk: "peek b s [0x3C, 0x3E] = (True, t)" "ahead b t ([k] # f # rtoks rs @ ts)"
    using peek_ahead [OF Cons.prems(1) [unfolded toks], of "[0x3C, 0x3E]"] by (auto simp: k_def)
  obtain q1 e1 u1 where g1: "gettoken b t = (k, q1, e1, u1)" "ahead b u1 (f # rtoks rs @ ts)"
    using gettoken_ahead [OF pk(2)] by (auto simp: code_def k_def symbols_def)
  obtain q e u where g2: "gettoken b u1 = (0x61, q, e, u)" "slice q (e - q) b = f" "ahead b u (rtoks rs @ ts)"
    using gettoken_ahead [OF g1(2)] word_hd [OF f(1)] by auto
  obtain ps v where ps: "parseredirs m b (redir_switch k c q e) u = Ok (wrap_cmd ps (redir_switch k c q e), v)"
      "map (redir_of b) ps = rs" "ahead b v ts"
    using Cons.IH [OF g2(3) _ Cons.prems(3) n(2), of "redir_switch k c q e"] Cons.prems(2) by auto
  have "wrap_cmd ((q, e, mode, fd) # ps) c = wrap_cmd ps (redir_switch k c q e)"
    using f(2) by (auto simp: wrap_cmd_def redir_switch_def k_def)
  moreover have "map (redir_of b) ((q, e, mode, fd) # ps) = r # rs" using ps(2) g2(2) r by (simp add: redir_of_def)
  moreover have "parseredirs n b c s = Ok (wrap_cmd ps (redir_switch k c q e), v)" using n pk g1 g2 ps(1) by simp
  ultimately show ?case using ps(3) by metis
qed

lemma parseargs_done:
  assumes "ahead b s ts" "ts = [] \<or> hd (hd ts) \<in> {0x7C, 0x29, 0x26, 0x3B}"
  shows "\<exists>u. parseargs (Suc n) b acc ret s = Ok (set_argv acc ret, u) \<and> ahead b u ts"
proof -
  obtain t where pk: "peek b s [0x7C, 0x29, 0x26, 0x3B] = (ts \<noteq> [] \<and> hd (hd ts) \<in> set [0x7C, 0x29, 0x26, 0x3B], t)" "ahead b t ts"
    using peek_ahead [OF assms(1), of "[0x7C, 0x29, 0x26, 0x3B]"] by auto
  show ?thesis
  proof (cases "ts = []")
    case True
    then obtain q e u where "gettoken b t = (0, q, e, u)" "ahead b u []" using gettoken_end pk(2) by blast
    then show ?thesis using pk True by simp
  next
    case False
    then have "hd (hd ts) \<in> set [0x7C, 0x29, 0x26, 0x3B]" using assms(2) by simp
    then show ?thesis using pk False by simp
  qed
qed

lemma text_of_length: "\<forall>t\<in>set ts. t \<noteq> [] \<Longrightarrow> 2 * length ts \<le> length (text_of ts)"
proof (induction ts)
  case (Cons t ts)
  then show ?case by (cases t) (auto simp: text_of_def)
qed simp

lemma ahead_length: "ahead b s ts \<Longrightarrow> length ts \<le> length b"
proof (cases ts)
  case (Cons t us)
  assume a: "ahead b s ts"
  then have "drop (skip_ws b s) b = t @ text_of us" using ahead_skip(3) Cons by fastforce
  then have "length t + length (text_of us) \<le> length b" by (metis length_append length_drop diff_le_self)
  moreover have "t \<noteq> []" "\<forall>t\<in>set us. t \<noteq> []" using a Cons token_hd by (auto simp: ahead_def)
  ultimately show ?thesis using text_of_length [of us] Cons by (cases t) auto
qed simp

lemma rtoks_length: "length (rtoks rs) = 2 * length rs"
  by (induction rs) (auto simp: rtoks_def redir_toks_def)

lemma redirs_fuel: "ahead b s (as @ rtoks rs @ ts) \<Longrightarrow> length as < Suc (length b) \<and> length rs < Suc (length b)"
  using ahead_length [of b s "as @ rtoks rs @ ts"] by (simp add: rtoks_length)

lemma word_hd_other: "word a \<Longrightarrow> hd a \<notin> {0x3C, 0x3E, 0x7C, 0x29, 0x26, 0x3B, 0x28}"
  using word_hd [of a] by (auto simp: symbols_def)

lemma parseargs_ahead:
  assumes follow: "ts = [] \<or> hd (hd ts) \<in> {0x7C, 0x29, 0x26, 0x3B}" and rs: "\<forall>r\<in>set rs. redir_ok r"
  shows "ahead b s (as @ rtoks rs @ ts) \<Longrightarrow> as \<noteq> [] \<Longrightarrow> \<forall>a\<in>set as. word a \<Longrightarrow> length acc + length as < MAXARGS \<Longrightarrow>
    length as < n \<Longrightarrow>
    \<exists>ps ws u. parseargs n b acc (EXEC []) s = Ok (wrap_cmd ps (EXEC (acc @ ws)), u) \<and> map (rdb b) ws = as \<and>
      map (redir_of b) ps = rs \<and> ahead b u ts"
proof (induction as arbitrary: acc s n)
  case (Cons a as)
  obtain m where n: "n = Suc m" "length as < m" using Cons.prems(5) by (cases n) auto
  have a: "word a" using Cons.prems(3) by simp
  let ?after = "as @ rtoks rs @ ts"
  obtain t where pk: "peek b s [0x7C, 0x29, 0x26, 0x3B] = (False, t)" "ahead b t (a # ?after)"
    using peek_ahead [OF Cons.prems(1), of "[0x7C, 0x29, 0x26, 0x3B]"] word_hd_other [OF a] by auto
  obtain q e u where g: "gettoken b t = (0x61, q, e, u)" "slice q (e - q) b = a" "ahead b u ?after"
    using gettoken_ahead [OF pk(2)] word_hd [OF a] by auto
  have step: "parseargs n b acc (EXEC []) s =
      kbind (parseredirs (Suc (length b)) b (EXEC []) u) (\<lambda>(ret, s). parseargs m b (acc @ [(q, e)]) ret s)"
    using n pk g Cons.prems(4) by (simp del: parseredirs.simps)
  show ?case
  proof (cases "as = []")
    case True
    then obtain ps v where ps: "parseredirs (Suc (length b)) b (EXEC []) u = Ok (wrap_cmd ps (EXEC []), v)"
        "map (redir_of b) ps = rs" "ahead b v ts"
      using parseredirs_ahead [of b u rs ts "Suc (length b)" "EXEC []"] g(3) rs follow redirs_fuel [OF Cons.prems(1)] by auto
    obtain m' where "m = Suc m'" using n True by (cases m) auto
    then obtain w where "parseargs m b (acc @ [(q, e)]) (wrap_cmd ps (EXEC [])) v = Ok (wrap_cmd ps (EXEC (acc @ [(q, e)])), w)" "ahead b w ts"
      using parseargs_done [OF ps(3) follow, of m' "acc @ [(q, e)]" "wrap_cmd ps (EXEC [])"] by (auto simp: set_argv_wrap_cmd)
    then show ?thesis using step ps True g(2) by (intro exI [of _ ps] exI [of _ "[(q, e)]"] exI [of _ w]) auto
  next
    case False
    then obtain a' as' where as: "as = a' # as'" by (cases as) auto
    then have "hd (hd ?after) \<notin> {0x3C, 0x3E}" using word_hd_other [of a'] Cons.prems(3) by auto
    then obtain ps v where "parseredirs (Suc (length b)) b (EXEC []) u = Ok (wrap_cmd ps (EXEC []), v)"
        "map (redir_of b) ps = []" "ahead b v ?after"
      using parseredirs_ahead [of b u "[]" ?after "Suc (length b)" "EXEC []"] g(3) by (auto simp: rtoks_def)
    then have v: "parseredirs (Suc (length b)) b (EXEC []) u = Ok (EXEC [], v)" "ahead b v ?after" by (auto simp: wrap_cmd_def)
    obtain ps ws w where "parseargs m b (acc @ [(q, e)]) (EXEC []) v = Ok (wrap_cmd ps (EXEC ((acc @ [(q, e)]) @ ws)), w)"
        "map (rdb b) ws = as" "map (redir_of b) ps = rs" "ahead b w ts"
      using Cons.IH [OF v(2) False, of "acc @ [(q, e)]" m] Cons.prems(3,4) n(2) by auto
    then show ?thesis using step v(1) g(2) by (intro exI [of _ ps] exI [of _ "(q, e) # ws"] exI [of _ w]) simp
  qed
qed simp

lemma parseexec_words:
  assumes "ahead b s (as @ rtoks rs @ ts)" "\<forall>a\<in>set as. word a" "length as < MAXARGS" "\<forall>r\<in>set rs. redir_ok r"
    and follow: "ts = [] \<or> hd (hd ts) \<in> {0x7C, 0x29, 0x26, 0x3B}"
  shows "\<exists>c u. (\<forall>n. parseexec (Suc n) b s = Ok (c, u)) \<and> ast_of (rdb b) c = wraps rs (SExec as) \<and> ahead b u ts"
proof -
  have first: "as @ rtoks rs @ ts = [] \<or> hd (hd (as @ rtoks rs @ ts)) \<noteq> 0x28"
    using follow word_hd_other assms(2)
    by (cases as; cases rs) (auto simp: rtoks_def redir_toks_def split: prod.splits)
  obtain t where pk: "peek b s [0x28] = (False, t)" "ahead b t (as @ rtoks rs @ ts)"
    using peek_ahead [OF assms(1), of "[0x28]"] first by auto
  show ?thesis
  proof (cases "as = []")
    case True
    then obtain ps v where ps: "parseredirs (Suc (length b)) b (EXEC []) t = Ok (wrap_cmd ps (EXEC []), v)"
        "map (redir_of b) ps = rs" "ahead b v ts"
      using parseredirs_ahead [of b t rs ts "Suc (length b)" "EXEC []"] pk(2) assms(4) follow redirs_fuel [OF assms(1)] by auto
    obtain w where "parseargs (Suc (length b)) b [] (wrap_cmd ps (EXEC [])) v = Ok (wrap_cmd ps (EXEC []), w)" "ahead b w ts"
      using parseargs_done [OF ps(3) follow, of "length b" "[]" "wrap_cmd ps (EXEC [])"] by (auto simp: set_argv_wrap_cmd)
    then have "parseexec (Suc n) b s = Ok (wrap_cmd ps (EXEC []), w)" for n
      using pk ps(1) by (simp del: parseredirs.simps parseargs.simps)
    then show ?thesis using ps(2) True \<open>ahead b w ts\<close> by (auto simp: ast_of_wrap_cmd)
  next
    case False
    then have "hd (hd (as @ rtoks rs @ ts)) \<notin> {0x3C, 0x3E}" using word_hd_other assms(2) by (cases as) auto
    then obtain v where v: "parseredirs (Suc (length b)) b (EXEC []) t = Ok (EXEC [], v)" "ahead b v (as @ rtoks rs @ ts)"
      using parseredirs_ahead [of b t "[]" "as @ rtoks rs @ ts" "Suc (length b)" "EXEC []"] pk(2)
      by (auto simp: rtoks_def wrap_cmd_def)
    obtain ps ws w where "parseargs (Suc (length b)) b [] (EXEC []) v = Ok (wrap_cmd ps (EXEC ws), w)"
        "map (rdb b) ws = as" "map (redir_of b) ps = rs" "ahead b w ts"
      using parseargs_ahead [OF follow assms(4) v(2) False assms(2), of "[]" "Suc (length b)"] assms(3) redirs_fuel [OF assms(1)] by auto
    moreover from this have "parseexec (Suc n) b s = Ok (wrap_cmd ps (EXEC ws), w)" for n
      using pk v(1) by (simp del: parseredirs.simps parseargs.simps)
    ultimately show ?thesis by (auto simp: ast_of_wrap_cmd)
  qed
qed

section \<open>Reading commands\<close>

text \<open>With enough fuel, \<open>f\<close> reads the tree \<open>c\<close> and stops before the tokens \<open>ts\<close>.\<close>

definition reads :: "(nat \<Rightarrow> bytes \<Rightarrow> nat \<Rightarrow> (cmd \<times> nat) res) \<Rightarrow> bytes \<Rightarrow> nat \<Rightarrow> ast \<Rightarrow> bytes list \<Rightarrow> bool" where
  "reads f b s c ts \<longleftrightarrow> (\<exists>N d u. (\<forall>n\<ge>N. f n b s = Ok (d, u)) \<and> ast_of (rdb b) d = c \<and> ahead b u ts)"

definition follow :: "bytes \<Rightarrow> bytes list \<Rightarrow> bool" where
  "follow cs ts \<longleftrightarrow> ts = [] \<or> hd (hd ts) \<in> set cs"

definition parsebacks :: "nat \<Rightarrow> bytes \<Rightarrow> nat \<Rightarrow> (cmd \<times> nat) res" where
  "parsebacks n b s = kbind (parsepipe n b s) (\<lambda>(c, s). parseback (Suc (length b)) b c s)"

definition reads_exec :: "ast \<Rightarrow> bool" where
  "reads_exec c \<longleftrightarrow> (\<forall>b s rs ts. ahead b s (pr c 0 @ rtoks rs @ ts) \<longrightarrow> (\<forall>r\<in>set rs. redir_ok r) \<longrightarrow>
     follow [0x7C, 0x29, 0x26, 0x3B] ts \<longrightarrow> reads parseexec b s (wraps rs c) ts)"

definition reads_pipe :: "ast \<Rightarrow> bool" where
  "reads_pipe c \<longleftrightarrow> (\<forall>b s ts. ahead b s (pr c 1 @ ts) \<longrightarrow> follow [0x29, 0x26, 0x3B] ts \<longrightarrow> reads parsepipe b s c ts)"

definition reads_back :: "ast \<Rightarrow> bool" where
  "reads_back c \<longleftrightarrow> (\<forall>b s k ts. ahead b s (pr c 2 @ replicate k [0x26] @ ts) \<longrightarrow> follow [0x29, 0x3B] ts \<longrightarrow>
     reads parsebacks b s ((SBack ^^ k) c) ts)"

definition reads_line :: "ast \<Rightarrow> bool" where
  "reads_line c \<longleftrightarrow> (\<forall>b s ts. ahead b s (pr c 3 @ ts) \<longrightarrow> follow [0x29] ts \<longrightarrow> reads parseline b s c ts)"

lemma reads_execD:
  "reads_exec c \<Longrightarrow> ahead b s (pr c 0 @ ts) \<Longrightarrow> follow [0x7C, 0x29, 0x26, 0x3B] ts \<Longrightarrow> reads parseexec b s c ts"
  unfolding reads_exec_def using append_Nil by (metis (no_types, lifting) empty_iff list.set(1) rtoks_def list.map(1) concat.simps(1) wraps_def foldl_Nil)

lemma reads_backD:
  "reads_back c \<Longrightarrow> ahead b s (pr c 2 @ ts) \<Longrightarrow> follow [0x29, 0x3B] ts \<Longrightarrow> reads parsebacks b s c ts"
  unfolding reads_back_def by (metis append_Nil funpow_0 replicate_0)

lemma parseback_ahead:
  "ahead b s (replicate k [0x26] @ ts) \<Longrightarrow> follow [0x29, 0x3B] ts \<Longrightarrow> k < n \<Longrightarrow>
    \<exists>u. parseback n b c s = Ok ((BACK ^^ k) c, u) \<and> ahead b u ts"
proof (induction k arbitrary: n c s)
  case 0
  then obtain m where n: "n = Suc m" by (cases n) auto
  obtain t where "peek b s [0x26] = (ts \<noteq> [] \<and> hd (hd ts) \<in> set [0x26], t)" "ahead b t ts"
    using peek_ahead [of b s ts "[0x26]"] 0 by auto
  then show ?case using 0(2) n by (auto simp: follow_def)
next
  case (Suc k)
  then obtain m where n: "n = Suc m" "k < m" by (cases n) auto
  obtain t where pk: "peek b s [0x26] = (True, t)" "ahead b t ([0x26] # replicate k [0x26] @ ts)"
    using peek_ahead [of b s "[0x26] # replicate k [0x26] @ ts" "[0x26]"] Suc.prems(1) by auto
  obtain r q e u where g: "gettoken b t = (r, q, e, u)" "ahead b u (replicate k [0x26] @ ts)"
    using gettoken_ahead [OF pk(2)] by auto
  show ?case using Suc.IH [OF g(2) Suc.prems(2) n(2), of "BACK c"] n pk g by (simp add: funpow_swap1)
qed

text \<open>One parser after another, then perhaps a separator and a third.\<close>

lemma reads_stop:
  assumes "reads f b s c ts" "0 \<notin> set cs" "ts = [] \<or> hd (hd ts) \<notin> set cs"
    and "\<And>n. g (Suc n) b s = kbind (f n b s) (\<lambda>(c, s). case peek b s cs of (p, s) \<Rightarrow> if \<not> p then Ok (c, s) else h n c s)"
  shows "reads g b s c ts"
proof -
  obtain N d u where d: "\<forall>n\<ge>N. f n b s = Ok (d, u)" "ast_of (rdb b) d = c" "ahead b u ts" using assms(1) by (auto simp: reads_def)
  obtain t where t: "peek b u cs = (False, t)" "ahead b t ts" using peek_ahead [OF d(3) assms(2)] assms(3) by auto
  have "g n b s = Ok (d, t)" if "Suc N \<le> n" for n using that d(1) t(1) by (cases n) (auto simp: assms(4))
  then show ?thesis using d(2) t(2) unfolding reads_def by blast
qed

lemma reads_sep:
  assumes "reads f b s c ([k] # us)" "0 \<notin> set cs" "k \<in> set cs"
    and "\<And>n. g (Suc n) b s = kbind (f n b s) (\<lambda>(c, s). case peek b s cs of (p, s) \<Rightarrow>
      if \<not> p then Ok (c, s) else let (_, _, _, s) = gettoken b s in kbind (h n b s) (\<lambda>(r, s). Ok (w c r, s)))"
    and r: "\<And>u. ahead b u us \<Longrightarrow> reads h b u c' ts"
    and w: "\<And>x y. ast_of (rdb b) (w x y) = w' (ast_of (rdb b) x) (ast_of (rdb b) y)"
  shows "reads g b s (w' c c') ts"
proof -
  obtain N d u where d: "\<forall>n\<ge>N. f n b s = Ok (d, u)" "ast_of (rdb b) d = c" "ahead b u ([k] # us)" using assms(1) by (auto simp: reads_def)
  obtain t where t: "peek b u cs = (True, t)" "ahead b t ([k] # us)" using peek_ahead [OF d(3) assms(2)] assms(3) by auto
  obtain x q e v where g: "gettoken b t = (x, q, e, v)" "ahead b v us" using gettoken_ahead [OF t(2)] by auto
  obtain M d' u' where d': "\<forall>n\<ge>M. h n b v = Ok (d', u')" "ast_of (rdb b) d' = c'" "ahead b u' ts" using r [OF g(2)] by (auto simp: reads_def)
  have "g n b s = Ok (w d d', u')" if "Suc (max N M) \<le> n" for n
    using that d(1) t(1) g(1) d'(1) by (cases n) (auto simp: assms(4))
  moreover have "ast_of (rdb b) (w d d') = w' c c'" unfolding w d(2) d'(2) ..
  ultimately show ?thesis using d'(3) unfolding reads_def by blast
qed

lemma follow_mono: "follow cs ts \<Longrightarrow> set cs \<subseteq> set ds \<Longrightarrow> follow ds ts"
  by (auto simp: follow_def)

lemma reads_pipe_stop:
  assumes "reads_exec c" "pr c 1 = pr c 0"
  shows "reads_pipe c"
  unfolding reads_pipe_def
proof (intro allI impI)
  fix b s ts assume a: "ahead b s (pr c 1 @ ts)" "follow [0x29, 0x26, 0x3B] ts"
  have "reads parseexec b s c ts"
    using assms a by (intro reads_execD) (auto intro: follow_mono)
  then show "reads parsepipe b s c ts"
    by (rule reads_stop [where cs = "[0x7C]"]) (use a(2) in \<open>auto simp: follow_def\<close>)
qed

lemma reads_pipe_pipe:
  assumes "reads_exec l" "reads_pipe r"
  shows "reads_pipe (SPipe l r)"
  unfolding reads_pipe_def
proof (intro allI impI)
  fix b s ts assume a: "ahead b s (pr (SPipe l r) 1 @ ts)" "follow [0x29, 0x26, 0x3B] ts"
  have "reads parseexec b s l ([0x7C] # pr r 1 @ ts)"
    using a(1) by (intro reads_execD [OF assms(1)]) (auto simp: paren_def follow_def)
  then show "reads parsepipe b s (SPipe l r) ts"
    by (rule reads_sep [where cs = "[0x7C]" and h = parsepipe and w = PIPE])
      (use a(2) assms(2) in \<open>auto simp: reads_pipe_def\<close>)
qed

lemma reads_back_pipe:
  assumes "reads_pipe c" "pr c 2 = pr c 1"
  shows "reads_back c"
  unfolding reads_back_def
proof (intro allI impI)
  fix b s k ts assume a: "ahead b s (pr c 2 @ replicate k [0x26] @ ts)" "follow [0x29, 0x3B] ts"
  have "follow [0x29, 0x26, 0x3B] (replicate k [0x26] @ ts)" using a(2) by (cases k) (auto simp: follow_def)
  then have "reads parsepipe b s c (replicate k [0x26] @ ts)" using assms a(1) unfolding reads_pipe_def by simp
  then obtain N d u where d: "\<forall>n\<ge>N. parsepipe n b s = Ok (d, u)" "ast_of (rdb b) d = c" "ahead b u (replicate k [0x26] @ ts)"
    unfolding reads_def by blast
  have "k \<le> length b" using ahead_length [OF d(3)] by simp
  then obtain v where "parseback (Suc (length b)) b d u = Ok ((BACK ^^ k) d, v)" "ahead b v ts"
    using parseback_ahead [OF d(3) a(2), of "Suc (length b)" d] by auto
  moreover have "ast_of (rdb b) ((BACK ^^ k) d) = (SBack ^^ k) c" using d(2) by (induction k) auto
  ultimately show "reads parsebacks b s ((SBack ^^ k) c) ts"
    using d(1) unfolding reads_def parsebacks_def by (intro exI [of _ N] exI [of _ "(BACK ^^ k) d"] exI [of _ v]) (simp del: parseback.simps)
qed

lemma reads_back_back: "reads_back c \<Longrightarrow> reads_back (SBack c)"
  unfolding reads_back_def
proof (intro allI impI)
  fix b s k ts
  assume c: "\<forall>b s k ts. ahead b s (pr c 2 @ replicate k [0x26] @ ts) \<longrightarrow> follow [0x29, 0x3B] ts \<longrightarrow> reads parsebacks b s ((SBack ^^ k) c) ts"
    and a: "ahead b s (pr (SBack c) 2 @ replicate k [0x26] @ ts)" "follow [0x29, 0x3B] ts"
  have "ahead b s (pr c 2 @ replicate (Suc k) [0x26] @ ts)" using a(1) by (simp add: paren_def)
  then have "reads parsebacks b s ((SBack ^^ Suc k) c) ts" using c a(2) by blast
  then show "reads parsebacks b s ((SBack ^^ k) (SBack c)) ts" by (simp add: funpow_swap1)
qed

lemma parseline_backs:
  "parseline (Suc n) b s = kbind (parsebacks n b s) (\<lambda>(c, s). case peek b s [0x3B] of (p, s) \<Rightarrow>
     if \<not> p then Ok (c, s) else let (_, _, _, s) = gettoken b s in kbind (parseline n b s) (\<lambda>(r, s). Ok (LIST c r, s)))"
  by (simp only: parseline.simps parsebacks_def kbind_assoc Let_def split_def)

lemma reads_line_stop:
  assumes "reads_back c" "pr c 3 = pr c 2"
  shows "reads_line c"
  unfolding reads_line_def
proof (intro allI impI)
  fix b s ts assume a: "ahead b s (pr c 3 @ ts)" "follow [0x29] ts"
  have "reads parsebacks b s c ts"
    using assms a by (intro reads_backD) (auto intro: follow_mono)
  moreover have "ts = [] \<or> hd (hd ts) \<notin> set [0x3B]" using a(2) by (auto simp: follow_def)
  ultimately show "reads parseline b s c ts"
    by (intro reads_stop [where cs = "[0x3B]" and f = parsebacks and g = parseline and
      h = "\<lambda>n c s. let (_, _, _, s) = gettoken b s in kbind (parseline n b s) (\<lambda>(r, s). Ok (LIST c r, s))"] parseline_backs) auto
qed

lemma reads_line_list:
  assumes "reads_back l" "reads_line r"
  shows "reads_line (SList l r)"
  unfolding reads_line_def
proof (intro allI impI)
  fix b s ts assume a: "ahead b s (pr (SList l r) 3 @ ts)" "follow [0x29] ts"
  have "reads parsebacks b s l ([0x3B] # pr r 3 @ ts)"
    using a(1) by (intro reads_backD [OF assms(1)]) (auto simp: paren_def follow_def)
  then show "reads parseline b s (SList l r) ts"
    by (intro reads_sep [where cs = "[0x3B]" and f = parsebacks and g = parseline and h = parseline and w = LIST and w' = SList]
        parseline_backs) (use a(2) assms(2) in \<open>auto simp: reads_line_def\<close>)
qed

lemma parseblock_reads:
  assumes "reads_line c" "ahead b s ([[0x28]] @ pr c 3 @ [[0x29]] @ rtoks rs @ ts)" "\<forall>r\<in>set rs. redir_ok r"
    "follow [0x7C, 0x29, 0x26, 0x3B] ts"
  shows "reads parseexec b s (wraps rs c) ts"
proof -
  obtain t where t: "peek b s [0x28] = (True, t)" "ahead b t ([0x28] # pr c 3 @ [[0x29]] @ rtoks rs @ ts)"
    using peek_ahead [OF assms(2), of "[0x28]"] by auto
  obtain t' where t': "peek b t [0x28] = (True, t')" "ahead b t' ([0x28] # pr c 3 @ [[0x29]] @ rtoks rs @ ts)"
    using peek_ahead [OF t(2), of "[0x28]"] by auto
  obtain x q e v where g: "gettoken b t' = (x, q, e, v)" "ahead b v (pr c 3 @ [[0x29]] @ rtoks rs @ ts)"
    using gettoken_ahead [OF t'(2)] by auto
  have "reads parseline b v c ([0x29] # rtoks rs @ ts)" using assms(1) g(2) by (auto simp: reads_line_def follow_def)
  then obtain N d u where d: "\<forall>n\<ge>N. parseline n b v = Ok (d, u)" "ast_of (rdb b) d = c" "ahead b u ([0x29] # rtoks rs @ ts)"
    unfolding reads_def by blast
  obtain u' where u': "peek b u [0x29] = (True, u')" "ahead b u' ([0x29] # rtoks rs @ ts)" using peek_ahead [OF d(3), of "[0x29]"] by auto
  obtain x' q' e' v' where g': "gettoken b u' = (x', q', e', v')" "ahead b v' (rtoks rs @ ts)" using gettoken_ahead [OF u'(2)] by auto
  obtain ps w where ps: "parseredirs (Suc (length b)) b d v' = Ok (wrap_cmd ps d, w)" "map (redir_of b) ps = rs" "ahead b w ts"
    using parseredirs_ahead [of b v' rs ts "Suc (length b)" d] g'(2) assms(3,4) redirs_fuel [of b v' "[]" rs ts] by (auto simp: follow_def)
  have "parseexec n b s = Ok (wrap_cmd ps d, w)" if "Suc (Suc N) \<le> n" for n
  proof -
    obtain m where "n = Suc (Suc m)" "N \<le> m" using \<open>Suc (Suc N) \<le> n\<close> by (metis Suc_le_D Suc_le_mono)
    then show ?thesis using t(1) t'(1) g(1) d(1) u'(1) g'(1) ps(1) by (simp del: parseredirs.simps parseargs.simps)
  qed
  moreover have "ast_of (rdb b) (wrap_cmd ps d) = wraps rs c" using d(2) ps(2) by (simp add: ast_of_wrap_cmd)
  ultimately show ?thesis unfolding reads_def using ps(3) by blast
qed

lemma reads_exec_block:
  assumes "reads_line c" "pr c 0 = [[0x28]] @ pr c 3 @ [[0x29]]"
  shows "reads_exec c"
  unfolding reads_exec_def using parseblock_reads [OF assms(1)] assms(2) by (metis append.assoc)

lemma reads_all: "wf_ast c \<Longrightarrow> reads_exec c \<and> reads_pipe c \<and> reads_back c \<and> reads_line c"
proof (induction c)
  case (SExec as)
  have e: "reads_exec (SExec as)"
    unfolding reads_exec_def
  proof (intro allI impI)
    fix b s rs ts assume "ahead b s (pr (SExec as) 0 @ rtoks rs @ ts)" "\<forall>r\<in>set rs. redir_ok r" "follow [0x7C, 0x29, 0x26, 0x3B] ts"
    then obtain c u where "\<forall>n. parseexec (Suc n) b s = Ok (c, u)" "ast_of (rdb b) c = wraps rs (SExec as)" "ahead b u ts"
      using parseexec_words [of b s as rs ts] SExec by (auto simp: follow_def)
    moreover from this have "\<forall>n\<ge>1. parseexec n b s = Ok (c, u)" by (metis One_nat_def Suc_le_D)
    ultimately show "reads parseexec b s (wraps rs (SExec as)) ts" unfolding reads_def by blast
  qed
  show ?case using reads_line_stop reads_back_pipe reads_pipe_stop [OF e] e by simp
next
  case (SRedir c f mode fd)
  have e: "reads_exec (SRedir c f mode fd)"
    unfolding reads_exec_def
  proof (intro allI impI)
    fix b s rs ts
    assume a: "ahead b s (pr (SRedir c f mode fd) 0 @ rtoks rs @ ts)" "\<forall>r\<in>set rs. redir_ok r" "follow [0x7C, 0x29, 0x26, 0x3B] ts"
    have "ahead b s (pr c 0 @ rtoks ((f, mode, fd) # rs) @ ts)" using a(1) by (simp add: rtoks_def)
    moreover have "\<forall>r\<in>set ((f, mode, fd) # rs). redir_ok r" using a(2) SRedir.prems by (auto simp: redir_ok_def)
    ultimately have "reads parseexec b s (wraps ((f, mode, fd) # rs) c) ts"
      using SRedir a(3) unfolding reads_exec_def wf_ast.simps by blast
    then show "reads parseexec b s (wraps rs (SRedir c f mode fd)) ts" by (simp add: wraps_def)
  qed
  show ?case using reads_line_stop reads_back_pipe reads_pipe_stop [OF e] e by simp
next
  case (SPipe l r)
  then have p: "reads_pipe (SPipe l r)" by (simp add: reads_pipe_pipe)
  have b: "reads_back (SPipe l r)" by (rule reads_back_pipe [OF p]) (simp add: paren_def)
  have l: "reads_line (SPipe l r)" by (rule reads_line_stop [OF b]) (simp add: paren_def)
  have "reads_exec (SPipe l r)" by (rule reads_exec_block [OF l]) (simp add: paren_def)
  then show ?case using p b l by simp
next
  case (SList l r)
  then have l: "reads_line (SList l r)" by (simp add: reads_line_list)
  have e: "reads_exec (SList l r)" by (rule reads_exec_block [OF l]) (simp add: paren_def)
  have p: "reads_pipe (SList l r)" by (rule reads_pipe_stop [OF e]) (simp add: paren_def)
  have "reads_back (SList l r)" by (rule reads_back_pipe [OF p]) (simp add: paren_def)
  then show ?case using p e l by simp
next
  case (SBack c)
  then have b: "reads_back (SBack c)" by (simp add: reads_back_back)
  have l: "reads_line (SBack c)" by (rule reads_line_stop [OF b]) (simp add: paren_def)
  have e: "reads_exec (SBack c)" by (rule reads_exec_block [OF l]) (simp add: paren_def)
  have "reads_pipe (SBack c)" by (rule reads_pipe_stop [OF e]) (simp add: paren_def)
  then show ?case using b e l by simp
qed

section \<open>Enough fuel\<close>

lemma kbind_fuel:
  assumes "kbind m f \<noteq> Fault e" "m \<noteq> Fault e \<Longrightarrow> m' = m" "\<And>x. f x \<noteq> Fault e \<Longrightarrow> f' x = f x"
  shows "kbind m' f' = kbind m f"
  using assms by (cases m) auto

definition sep_then :: "bytes \<Rightarrow> bytes \<Rightarrow> (cmd \<Rightarrow> cmd \<Rightarrow> cmd) \<Rightarrow> (nat \<Rightarrow> (cmd \<times> nat) res) \<Rightarrow> cmd \<times> nat \<Rightarrow> (cmd \<times> nat) res" where
  "sep_then b cs w h = (\<lambda>(c, s). case peek b s cs of (p, s) \<Rightarrow>
     if \<not> p then Ok (c, s) else let (_, _, _, s) = gettoken b s in kbind (h s) (\<lambda>(r, s). Ok (w c r, s)))"

lemma sep_then_fuel:
  assumes "\<And>u. h u \<noteq> Fault e \<Longrightarrow> h' u = h u" "sep_then b cs w h x \<noteq> Fault e"
  shows "sep_then b cs w h' x = sep_then b cs w h x"
proof -
  obtain c s where x: "x = (c, s)" by fastforce
  obtain p t where p: "peek b s cs = (p, t)" by fastforce
  obtain k q r u where g: "gettoken b t = (k, q, r, u)" by (metis surj_pair)
  have "kbind (h' u) (\<lambda>(r, s). Ok (w c r, s)) = kbind (h u) (\<lambda>(r, s). Ok (w c r, s))" if "\<not> \<not> p"
    by (rule kbind_fuel [where e = e]) (use assms that x p g in \<open>auto simp: sep_then_def\<close>)
  then show ?thesis using x p g by (simp add: sep_then_def)
qed

lemma parseline_sep: "parseline (Suc n) b s = kbind (parsebacks n b s) (sep_then b [0x3B] LIST (parseline n b))"
  unfolding parseline_backs sep_then_def ..

lemma parsepipe_sep: "parsepipe (Suc n) b s = kbind (parseexec n b s) (sep_then b [0x7C] PIPE (parsepipe n b))"
  by (simp add: sep_then_def split_def Let_def)

lemma parse_fuel:
  "parseline n b s \<noteq> Fault ''fuel'' \<Longrightarrow> parseline (Suc n) b s = parseline n b s"
  "parsepipe n b s \<noteq> Fault ''fuel'' \<Longrightarrow> parsepipe (Suc n) b s = parsepipe n b s"
  "parseexec n b s \<noteq> Fault ''fuel'' \<Longrightarrow> parseexec (Suc n) b s = parseexec n b s"
  "parseblock n b s \<noteq> Fault ''fuel'' \<Longrightarrow> parseblock (Suc n) b s = parseblock n b s"
proof (induction n arbitrary: s)
  case (Suc n)
  have backs: "parsebacks n b s \<noteq> Fault ''fuel'' \<Longrightarrow> parsebacks (Suc n) b s = parsebacks n b s" for s
    unfolding parsebacks_def by (rule kbind_fuel [where e = "''fuel''"]) (simp_all del: parsepipe.simps add: Suc.IH)
  {
    case 1
    show ?case unfolding parseline_sep [of "Suc n" b s] parseline_sep [of n b s]
      by (rule kbind_fuel [where e = "''fuel''"])
        (use 1 backs in \<open>auto simp: parseline_sep simp del: parseline.simps intro!: sep_then_fuel [where e = "''fuel''"] Suc.IH\<close>)
  next
    case 2
    show ?case unfolding parsepipe_sep [of "Suc n" b s] parsepipe_sep [of n b s]
      by (rule kbind_fuel [where e = "''fuel''"])
        (use 2 in \<open>auto simp: parsepipe_sep simp del: parsepipe.simps parseexec.simps intro!: sep_then_fuel [where e = "''fuel''"] Suc.IH\<close>)
  next
    case 3
    obtain p t where p: "peek b s [0x28] = (p, t)" by fastforce
    then show ?case using 3 Suc.IH(4) [of t] by (auto simp del: parseredirs.simps parseargs.simps parseblock.simps)
  next
    case 4
    obtain p t where p: "peek b s [0x28] = (p, t)" by fastforce
    obtain k q r u where g: "gettoken b t = (k, q, r, u)" by (metis surj_pair)
    have "kbind (parseline (Suc n) b u) f = kbind (parseline n b u) f" if "kbind (parseline n b u) f \<noteq> Fault ''fuel''"
      for f :: "cmd \<times> nat \<Rightarrow> (cmd \<times> nat) res"
      by (rule kbind_fuel [OF that]) (simp_all del: parseline.simps add: Suc.IH)
    then show ?case using 4 p g by (cases p) (auto simp del: parseredirs.simps parseline.simps)
  }
qed simp_all

lemma parse_fuel_le:
  "n \<le> m \<Longrightarrow> parseline n b s \<noteq> Fault ''fuel'' \<Longrightarrow> parseline m b s = parseline n b s"
  by (induction m rule: nat_induct_at_least) (simp_all del: parseline.simps add: parse_fuel)

section \<open>The round trip\<close>

lemma pr_tokens: "wf_ast c \<Longrightarrow> \<forall>t\<in>set (pr c lv). token t"
proof -
  have "token [0x28]" "token [0x29]" "token [0x7C]" "token [0x3B]" "token [0x26]" "token [0x3C]" "token [0x3E]"
    by (simp_all add: token_def symbols_def)
  moreover have "word t \<Longrightarrow> token t" for t by (simp add: token_def)
  ultimately show "wf_ast c \<Longrightarrow> ?thesis" by (induction c arbitrary: lv) (auto simp: paren_def redir_toks_def)
qed

lemma text_of_no_nul: "\<forall>t\<in>set ts. token t \<Longrightarrow> 0 \<notin> set (text_of ts)"
proof (induction ts)
  case (Cons t ts)
  then have "0 \<notin> set t" by (auto simp: token_def word_def is_word_def symbol_facts)
  then show ?case using Cons by (simp add: text_of_def)
qed simp

lemma ast_of_cong: "\<forall>w\<in>set (words d). rd w = rd' w \<Longrightarrow> ast_of rd d = ast_of rd' d"
  by (induction d) auto

text \<open>C36: The shell understands what is written for it: for every command tree of proper words and fewer than ten
  arguments, \<^verbatim>\<open>parsecmd\<close> of its printed text succeeds, and the strings that the NUL-terminated command points to
  give the tree back.\<close>

theorem parsecmd_show:
  assumes "wf_ast c"
  shows "\<exists>d buf. parsecmd (show_cmd c) = Ok (d, buf) \<and> ast_of (\<lambda>(q, e). cstring buf q) d = c"
proof -
  define b where "b = show_cmd c"
  have toks: "\<forall>t\<in>set (pr c 3). token t" by (rule pr_tokens [OF assms])
  then have nz: "0 \<notin> set b" by (simp add: b_def show_cmd_def text_of_no_nul)
  have "ahead b 0 (pr c 3 @ [])" using toks nz by (simp add: ahead_def b_def show_cmd_def)
  then have "reads parseline b 0 c []" using reads_all [OF assms] unfolding reads_line_def follow_def by blast
  then obtain N d u where d: "\<forall>n\<ge>N. parseline n b 0 = Ok (d, u)" "ast_of (rdb b) d = c" "ahead b u []"
    unfolding reads_def by blast
  define n where "n = 4 * length b + 4"
  have good: "good b 0 (parseline n b 0)" unfolding n_def by (rule parsecmd_returns [OF nz])
  then have "parseline n b 0 \<noteq> Fault ''fuel''" by (auto simp: good_def)
  then have "parseline (max N n) b 0 = parseline n b 0" by (intro parse_fuel_le) simp_all
  then have p: "parseline n b 0 = Ok (d, u)" using d(1) by simp
  then have ws: "\<forall>w\<in>set (words d). word_ok b w" using good by simp
  have "skip_ws b u = length b" using ahead_skip(2,3) [OF d(3)] by simp
  then have "parsecmd b = Ok (d, nulterminate d (b @ [0]))" using p
    unfolding parsecmd_def n_def [symmetric] by (simp add: peek_def Let_def)
  moreover have "ast_of (\<lambda>(q, e). cstring (nulterminate d (b @ [0])) q) d = ast_of (rdb b) d"
    by (rule ast_of_cong) (use word_cstring [OF nz ws] in auto)
  ultimately show ?thesis using d(2) b_def by auto
qed

theorem parsecmd_show_witness:
  "\<exists>d buf. parsecmd [0x20, 0x61, 0x20, 0x3C, 0x20, 0x62, 0x20, 0x7C, 0x20, 0x63, 0x20, 0x26] = Ok (d, buf) \<and>
    ast_of (\<lambda>(q, e). cstring buf q) d = SBack (SPipe (SRedir (SExec [[0x61]]) [0x62] 0 0) (SExec [[0x63]]))"
  using parsecmd_show [of "SBack (SPipe (SRedir (SExec [[0x61]]) [0x62] 0 0) (SExec [[0x63]]))"]
  by (simp add: word_def is_word_def whitespace_def symbols_def show_cmd_def text_of_def paren_def redir_toks_def)

end
