(* ===== verification/Ide.thy ===== *)
theory Ide
  imports Bio
begin

unbundle bit_operations_syntax

text \<open>
  The interrupt-driven disk driver \<^verbatim>\<open>ide.c\<close>: a queue of requests linked through \<^verbatim>\<open>qnext\<close>, and the values it
  writes to the ports of the controller. The controller is an argument \<open>dev\<close>: given the values written for a
  command, the data sent and the disk, it yields the new disk and the data to be read; \<open>st\<close> holds the values
  that polling the status port yields. The lock \<^verbatim>\<open>idelock\<close>, held during every operation, is left out. The
  theorem compares the driver with the synchronous \<open>iderw\<close> of \<^verbatim>\<open>memide.c\<close>.
\<close>

section \<open>The driver\<close>

record ide =
  idequeue :: "nat option"
  qnext :: "nat \<Rightarrow> nat option"
  havedisk1 :: bool
  ports :: "(u32 \<times> u8) list"
  sent :: bytes

abbreviation (input) "SECTOR_SIZE \<equiv> (512 :: nat)"
abbreviation (input) "IDE_BSY \<equiv> (0x80 :: u8)"
abbreviation (input) "IDE_DRDY \<equiv> (0x40 :: u8)"
abbreviation (input) "IDE_DF \<equiv> (0x20 :: u8)"
abbreviation (input) "IDE_ERR \<equiv> (0x01 :: u8)"
abbreviation (input) "IDE_CMD_READ \<equiv> (0x20 :: u8)"
abbreviation (input) "IDE_CMD_WRITE \<equiv> (0x30 :: u8)"
abbreviation (input) "IDE_CMD_RDMUL \<equiv> (0xC4 :: u8)"
abbreviation (input) "IDE_CMD_WRMUL \<equiv> (0xC5 :: u8)"

text \<open>\<open>None\<close>: the disk never gets ready.\<close>

fun idewait :: "bool \<Rightarrow> u8 list \<Rightarrow> int option" where
  "idewait checkerr [] = None"
| "idewait checkerr (r # st) =
     (if r AND (IDE_BSY OR IDE_DRDY) \<noteq> IDE_DRDY then idewait checkerr st
      else if checkerr \<and> r AND (IDE_DF OR IDE_ERR) \<noteq> 0 then Some (-1)
      else Some 0)"

text \<open>\<open>probe n\<close> is the status read in round \<open>n\<close> of the loop that looks for disk 1; the set-up of the interrupt lines is left out.\<close>

definition ide_ideinit :: "u8 list \<Rightarrow> (nat \<Rightarrow> u8) \<Rightarrow> ide \<Rightarrow> ide res" where
  "ide_ideinit st probe i =
     (case idewait False st of
        None \<Rightarrow> Fault ''idewait''
      | Some _ \<Rightarrow>
          Ok (i\<lparr>havedisk1 := havedisk1 i \<or> (\<exists>n\<in>{..<1000}. probe n \<noteq> 0),
                ports := [(0x1F6, 0xE0 OR push_bit 4 1), (0x1F6, 0xE0 OR push_bit 4 0)]\<rparr>))"

definition ide_ports :: "u32 \<Rightarrow> u32 \<Rightarrow> nat \<Rightarrow> u8 \<Rightarrow> (u32 \<times> u8) list" where
  "ide_ports bdev sector count cmd =
     [(0x3F6, 0), (0x1F2, word_of_nat count), (0x1F3, ucast (sector AND 0xFF)), (0x1F4, ucast (drop_bit 8 sector AND 0xFF)),
      (0x1F5, ucast (drop_bit 16 sector AND 0xFF)),
      (0x1F6, 0xE0 OR push_bit 4 (ucast (bdev AND 1)) OR ucast (drop_bit 24 sector AND 0x0F)), (0x1F7, cmd)]"

definition idestart :: "u8 list \<Rightarrow> nat option \<Rightarrow> ide \<times> kernel \<Rightarrow> (ide \<times> kernel) res" where
  "idestart st b = (\<lambda>(i, k).
     case b of
       None \<Rightarrow> Panic ''idestart''
     | Some b \<Rightarrow>
         let r = bufs k b in
         if unat (b_blockno r) \<ge> FSSIZE then Panic ''incorrect blockno''
         else
           let sector_per_block = BSIZE div SECTOR_SIZE;
               sector = b_blockno r * word_of_nat sector_per_block;
               read_cmd = (if sector_per_block = 1 then IDE_CMD_READ else IDE_CMD_RDMUL);
               write_cmd = (if sector_per_block = 1 then IDE_CMD_WRITE else IDE_CMD_WRMUL) in
           if sector_per_block > 7 then Panic ''idestart''
           else case idewait False st of
             None \<Rightarrow> Fault ''idewait''
           | Some _ \<Rightarrow>
               if b_dirty r
               then Ok (i\<lparr>ports := ide_ports (b_dev r) sector sector_per_block write_cmd, sent := b_data r\<rparr>, k)
               else Ok (i\<lparr>ports := ide_ports (b_dev r) sector sector_per_block read_cmd, sent := []\<rparr>, k))"

definition ideintr :: "u8 list \<Rightarrow> bytes \<Rightarrow> ide \<times> kernel \<Rightarrow> (ide \<times> kernel) res" where
  "ideintr st data = (\<lambda>(i, k).
     case idequeue i of
       None \<Rightarrow> Ok (i, k)
     | Some b \<Rightarrow>
         let i = i\<lparr>idequeue := qnext i b\<rparr> in
         kbind (if b_dirty (bufs k b) then Ok k
                else case idewait True st of
                  None \<Rightarrow> Fault ''idewait''
                | Some w \<Rightarrow> Ok (if w \<ge> 0 then upd_buf b (\<lambda>r. r\<lparr>b_data := data\<rparr>) k else k)) (\<lambda>k.
         let k = upd_buf b (\<lambda>r. r\<lparr>b_valid := True, b_dirty := False\<rparr>) k;
             k = wakeup (ChBuf b) k in
         if idequeue i \<noteq> None then idestart st (idequeue i) (i, k) else Ok (i, k)))"

text \<open>The pointer \<^verbatim>\<open>pp\<close> of \<open>iderw\<close>: to the head of the queue or to the \<^verbatim>\<open>qnext\<close> of a buffer.\<close>

datatype link = Head | Next nat

fun link_get :: "link \<Rightarrow> ide \<Rightarrow> nat option" where
  "link_get Head i = idequeue i"
| "link_get (Next b) i = qnext i b"

fun link_set :: "link \<Rightarrow> nat \<Rightarrow> ide \<Rightarrow> ide" where
  "link_set Head b i = i\<lparr>idequeue := Some b\<rparr>"
| "link_set (Next a) b i = i\<lparr>qnext := (qnext i)(a := Some b)\<rparr>"

partial_function (option) queue_end :: "link \<Rightarrow> ide \<Rightarrow> link option" where
  "queue_end pp i = (case link_get pp i of None \<Rightarrow> Some pp | Some b \<Rightarrow> queue_end (Next b) i)"

text \<open>\<open>iderw\<close> up to its waiting loop, and a round of the loop.\<close>

definition iderw_begin :: "u8 list \<Rightarrow> nat \<Rightarrow> ide \<times> kernel \<Rightarrow> (ide \<times> kernel) res" where
  "iderw_begin st b = (\<lambda>(i, k).
     let r = bufs k b in
     if \<not> holdingsleep (b_lock r) then Panic ''iderw: buf not locked''
     else if b_valid r \<and> \<not> b_dirty r then Panic ''iderw: nothing to do''
     else if b_dev r \<noteq> 0 \<and> \<not> havedisk1 i then Panic ''iderw: ide disk 1 not present''
     else
       let i = i\<lparr>qnext := (qnext i)(b := None)\<rparr> in
       case queue_end Head i of
         None \<Rightarrow> Fault ''iderw: cyclic queue''
       | Some pp \<Rightarrow>
           let i = link_set pp b i in
           if idequeue i = Some b then idestart st (Some b) (i, k) else Ok (i, k))"

definition iderw_wait :: "nat \<Rightarrow> ide \<times> kernel \<Rightarrow> (ide \<times> kernel) res" where
  "iderw_wait b = (\<lambda>(i, k).
     if b_valid (bufs k b) \<and> \<not> b_dirty (bufs k b) then Ok (i, k) else Block (ChBuf b))"

definition ide_iderw :: "u8 list \<Rightarrow> nat \<Rightarrow> ide \<times> kernel \<Rightarrow> (ide \<times> kernel) res" where
  "ide_iderw st b s = kbind (iderw_begin st b s) (iderw_wait b)"

section \<open>The controller\<close>

type_synonym ata = "(u32 \<times> u8) list \<Rightarrow> bytes \<Rightarrow> (u32 \<Rightarrow> bytes) \<Rightarrow> (u32 \<Rightarrow> bytes) \<times> bytes"

text \<open>What the driver relies on: the commands for one sector of disk 1, addressed by 28 bits.\<close>

definition ata_spec :: "ata \<Rightarrow> bool" where
  "ata_spec dev \<longleftrightarrow> (\<forall>sector data d. unat sector < 2 ^ 28 \<longrightarrow>
     dev (ide_ports 1 sector 1 IDE_CMD_WRITE) data d = (d(sector := data), []) \<and>
     dev (ide_ports 1 sector 1 IDE_CMD_READ) data d = (d, d sector))"

text \<open>An interrupt: the controller carries out the current command, then the handler runs.\<close>

definition ide_irq :: "ata \<Rightarrow> u8 list \<Rightarrow> ide \<times> kernel \<Rightarrow> (ide \<times> kernel) res" where
  "ide_irq dev st = (\<lambda>(i, k).
     if idequeue i = None then ideintr st [] (i, k)
     else let (d, data) = dev (ports i) (sent i) (disk k) in ideintr st data (i, k\<lparr>disk := d\<rparr>))"

datatype ide_event = Submit nat | Irq

primrec ide_run :: "ata \<Rightarrow> u8 list \<Rightarrow> ide_event list \<Rightarrow> ide \<times> kernel \<Rightarrow> (ide \<times> kernel) res" where
  "ide_run dev st [] s = Ok s"
| "ide_run dev st (e # es) s =
     kbind (case e of Submit b \<Rightarrow> iderw_begin st b s | Irq \<Rightarrow> ide_irq dev st s) (ide_run dev st es)"

fun submitted :: "ide_event list \<Rightarrow> nat list" where
  "submitted [] = []"
| "submitted (Submit b # es) = b # submitted es"
| "submitted (Irq # es) = submitted es"

section \<open>The queue\<close>

fun qchain :: "(nat \<Rightarrow> nat option) \<Rightarrow> nat option \<Rightarrow> nat list \<Rightarrow> bool" where
  "qchain nx h [] \<longleftrightarrow> h = None"
| "qchain nx h (b # q) \<longleftrightarrow> h = Some b \<and> qchain nx (nx b) q"

lemma qchain_cong: "\<forall>b\<in>set q. nx b = nx' b \<Longrightarrow> qchain nx h q = qchain nx' h q"
  by (induction q arbitrary: h) auto

lemma queue_end_chain:
  "qchain (qnext i) (link_get pp i) q \<Longrightarrow> queue_end pp i = Some (if q = [] then pp else Next (last q))"
proof (induction q arbitrary: pp)
  case Nil
  then show ?case by (subst queue_end.simps) simp
next
  case (Cons b q)
  then have "queue_end (Next b) i = Some (if q = [] then Next b else Next (last q))" using Cons.IH [of "Next b"] by simp
  moreover have "link_get pp i = Some b" using Cons.prems by simp
  ultimately show ?case by (subst queue_end.simps) simp
qed

lemma qchain_append:
  "qchain nx h q \<Longrightarrow> b \<notin> set q \<Longrightarrow> distinct q \<Longrightarrow> q \<noteq> [] \<Longrightarrow> qchain (nx(last q := Some b, b := None)) h (q @ [b])"
proof (induction q arbitrary: h)
  case (Cons a q)
  then show ?case by (cases "q = []") auto
qed simp

section \<open>Requests in order\<close>

text \<open>What a completed request does to the buffers and the disk.\<close>

definition done_req :: "nat \<Rightarrow> (nat \<Rightarrow> buf) \<times> (u32 \<Rightarrow> bytes) \<Rightarrow> (nat \<Rightarrow> buf) \<times> (u32 \<Rightarrow> bytes)" where
  "done_req b = (\<lambda>(B, D).
     if b_dirty (B b) then (B(b := (B b)\<lparr>b_valid := True, b_dirty := False\<rparr>), D(b_blockno (B b) := b_data (B b)))
     else (B(b := (B b)\<lparr>b_data := D (b_blockno (B b)), b_valid := True, b_dirty := False\<rparr>), D))"

definition req_ok :: "buf \<Rightarrow> bool" where
  "req_ok r \<longleftrightarrow> holdingsleep (b_lock r) \<and> \<not> (b_valid r \<and> \<not> b_dirty r) \<and> b_dev r = 1 \<and> unat (b_blockno r) < FSSIZE"

lemma done_req_other: "a \<noteq> b \<Longrightarrow> fst (done_req b (B, D)) a = B a"
  by (simp add: done_req_def)

lemma iderw_done:
  assumes "req_ok (bufs k b)" "disksize k = FSSIZE"
  shows "\<exists>t. iderw b k = Ok t \<and> (bufs t, disk t) = done_req b (bufs k, disk k) \<and> disksize t = FSSIZE"
  using assms by (auto simp: iderw_def done_req_def req_ok_def Let_def fun_eq_iff)

lemma iderw_all_done:
  "distinct bs \<Longrightarrow> \<forall>b\<in>set bs. req_ok (bufs k b) \<Longrightarrow> disksize k = FSSIZE \<Longrightarrow>
    \<exists>t. for_each iderw bs k = Ok t \<and> (bufs t, disk t) = fold done_req bs (bufs k, disk k)"
proof (induction bs arbitrary: k)
  case (Cons b bs)
  then obtain u where u: "iderw b k = Ok u" "(bufs u, disk u) = done_req b (bufs k, disk k)" "disksize u = FSSIZE"
    using iderw_done [of k b] by auto
  have "bufs u a = bufs k a" if "a \<in> set bs" for a
    using done_req_other [of a b "bufs k" "disk k"] u(2) Cons.prems(1) that by (metis distinct.simps(2) fst_conv)
  then obtain t where "for_each iderw bs u = Ok t" "(bufs t, disk t) = fold done_req bs (bufs u, disk u)"
    using Cons.IH [of u] Cons.prems u(3) by auto
  then show ?case using u by auto
qed simp

definition ide_inv :: "nat list \<Rightarrow> ide \<times> kernel \<Rightarrow> bool" where
  "ide_inv q = (\<lambda>(i, k). qchain (qnext i) (idequeue i) q \<and> distinct q \<and> (\<forall>b\<in>set q. req_ok (bufs k b)) \<and> havedisk1 i \<and>
     (\<forall>b q'. q = b # q' \<longrightarrow> (let r = bufs k b in
        ports i = ide_ports 1 (b_blockno r) 1 (if b_dirty r then IDE_CMD_WRITE else IDE_CMD_READ) \<and>
        (b_dirty r \<longrightarrow> sent i = b_data r))))"

lemma idestart_ok:
  assumes "req_ok (bufs k b)" "idewait True st = Some 0"
  shows "\<exists>p d. idestart st (Some b) (i, k) = Ok (i\<lparr>ports := p, sent := d\<rparr>, k) \<and>
    p = ide_ports 1 (b_blockno (bufs k b)) 1 (if b_dirty (bufs k b) then IDE_CMD_WRITE else IDE_CMD_READ) \<and>
    (b_dirty (bufs k b) \<longrightarrow> d = b_data (bufs k b))"
proof -
  have "idewait False st \<noteq> None" using assms(2) by (induction st) (auto split: if_splits)
  then show ?thesis using assms(1) by (auto simp: idestart_def req_ok_def Let_def)
qed

lemma submit_inv:
  assumes "ide_inv q (i, k)" "b \<notin> set q" "req_ok (bufs k b)" "idewait True st = Some 0"
  shows "\<exists>i'. iderw_begin st b (i, k) = Ok (i', k) \<and> ide_inv (q @ [b]) (i', k)"
proof -
  define i1 where "i1 = i\<lparr>qnext := (qnext i)(b := None)\<rparr>"
  have q: "qchain (qnext i) (idequeue i) q" "distinct q" "\<forall>b\<in>set q. req_ok (bufs k b)" "havedisk1 i" using assms(1) by (auto simp: ide_inv_def)
  have "qchain (qnext i1) (idequeue i) q" using q(1) assms(2) qchain_cong [of q "qnext i" "qnext i1"] by (auto simp: i1_def)
  then have e: "queue_end Head i1 = Some (if q = [] then Head else Next (last q))"
    using queue_end_chain [of i1 Head q] by (simp add: i1_def)
  define i2 where "i2 = link_set (if q = [] then Head else Next (last q)) b i1"
  have ch: "qchain (qnext i2) (idequeue i2) (q @ [b])"
  proof (cases "q = []")
    case False
    then have "last q \<noteq> b" using assms(2) last_in_set by metis
    then show ?thesis using qchain_append [OF q(1) assms(2) q(2) False] False by (simp add: i2_def i1_def fun_upd_twist)
  qed (simp add: i2_def i1_def)
  have b: "iderw_begin st b (i, k) = (if idequeue i2 = Some b then idestart st (Some b) (i2, k) else Ok (i2, k))"
    using assms(3) q(4) e by (auto simp: iderw_begin_def Let_def i2_def i1_def req_ok_def)
  show ?thesis
  proof (cases q)
    case Nil
    then have "idequeue i2 = Some b" by (simp add: i2_def)
    moreover have "havedisk1 i2" using q(4) Nil by (simp add: i2_def i1_def)
    ultimately show ?thesis using b idestart_ok [OF assms(3,4), of i2] ch assms(3) Nil by (auto simp: ide_inv_def Let_def)
  next
    case (Cons a q')
    then have "idequeue i2 = Some a" using ch by simp
    moreover have "a \<noteq> b" using Cons assms(2) by simp
    moreover have "ports i2 = ports i" "sent i2 = sent i" "havedisk1 i2" using Cons q(4) by (simp_all add: i2_def i1_def)
    ultimately show ?thesis using b ch q assms Cons by (auto simp: ide_inv_def Let_def)
  qed
qed

lemma req_ok_done: "req_ok (B a) \<Longrightarrow> a \<noteq> b \<Longrightarrow> req_ok (fst (done_req b (B, D)) a)"
  by (simp add: done_req_other)

lemma irq_inv:
  assumes "ide_inv (b # q) (i, k)" "idewait True st = Some 0" "ata_spec dev"
  shows "\<exists>i' k'. ide_irq dev st (i, k) = Ok (i', k') \<and> ide_inv q (i', k') \<and> (bufs k', disk k') = done_req b (bufs k, disk k)"
proof -
  let ?r = "bufs k b"
  have q: "idequeue i = Some b" "qchain (qnext i) (qnext i b) q" "distinct q" "b \<notin> set q" "\<forall>a\<in>set q. req_ok (bufs k a)" "req_ok ?r" "havedisk1 i"
    and p: "ports i = ide_ports 1 (b_blockno ?r) 1 (if b_dirty ?r then IDE_CMD_WRITE else IDE_CMD_READ)" "b_dirty ?r \<Longrightarrow> sent i = b_data ?r"
    using assms(1) by (auto simp: ide_inv_def Let_def)
  have blk: "unat (b_blockno ?r) < 2 ^ 28" using q(6) by (simp add: req_ok_def)
  define i1 where "i1 = i\<lparr>idequeue := qnext i b\<rparr>"
  define B D where "B = fst (done_req b (bufs k, disk k))" and "D = snd (done_req b (bufs k, disk k))"
  obtain k' where k': "ide_irq dev st (i, k) = (if qnext i b \<noteq> None then idestart st (qnext i b) (i1, k') else Ok (i1, k'))"
      "bufs k' = B" "disk k' = D"
  proof (cases "b_dirty ?r")
    case True
    then have "dev (ports i) (sent i) (disk k) = ((disk k)(b_blockno ?r := b_data ?r), [])"
      using assms(3) blk p by (simp add: ata_spec_def)
    then show ?thesis using q(1) True
      by (intro that [of "wakeup (ChBuf b) (upd_buf b (\<lambda>r. r\<lparr>b_valid := True, b_dirty := False\<rparr>)
          (k\<lparr>disk := (disk k)(b_blockno ?r := b_data ?r)\<rparr>))"])
        (simp_all add: ide_irq_def ideintr_def Let_def i1_def B_def D_def done_req_def)
  next
    case False
    then have "dev (ports i) (sent i) (disk k) = (disk k, disk k (b_blockno ?r))"
      using assms(3) blk p by (simp add: ata_spec_def)
    then show ?thesis using q(1) False assms(2)
      by (intro that [of "wakeup (ChBuf b) (upd_buf b (\<lambda>r. r\<lparr>b_valid := True, b_dirty := False\<rparr>)
          (upd_buf b (\<lambda>r. r\<lparr>b_data := disk k (b_blockno ?r)\<rparr>) (k\<lparr>disk := disk k\<rparr>)))"])
        (simp_all add: ide_irq_def ideintr_def Let_def i1_def B_def D_def done_req_def)
  qed
  have keep: "bufs k' a = bufs k a" if "a \<noteq> b" for a using that k'(2) B_def by (simp add: done_req_other)
  show ?thesis
  proof (cases q)
    case Nil
    then have "ide_irq dev st (i, k) = Ok (i1, k')" "ide_inv [] (i1, k')" using k'(1) q by (auto simp: ide_inv_def i1_def)
    then show ?thesis using Nil k'(2,3) by (simp add: B_def D_def)
  next
    case (Cons a q')
    then have a: "qnext i b = Some a" "req_ok (bufs k' a)" using q keep [of a] by auto
    obtain p d where s: "idestart st (Some a) (i1, k') = Ok (i1\<lparr>ports := p, sent := d\<rparr>, k')"
        "p = ide_ports 1 (b_blockno (bufs k' a)) 1 (if b_dirty (bufs k' a) then IDE_CMD_WRITE else IDE_CMD_READ)"
        "b_dirty (bufs k' a) \<longrightarrow> d = b_data (bufs k' a)"
      using idestart_ok [OF a(2) assms(2), of i1] by auto
    have "\<forall>c\<in>set q. req_ok (bufs k' c)" using q keep by metis
    then have "ide_inv q (i1\<lparr>ports := p, sent := d\<rparr>, k')" using q a(1) s(2,3) Cons by (simp add: ide_inv_def i1_def Let_def)
    then show ?thesis using k' a(1) s(1) by (simp add: B_def D_def)
  qed
qed

lemma spurious_irq: "ide_inv [] (i, k) \<Longrightarrow> ide_irq dev st (i, k) = Ok (i, k) \<and> idequeue i = None"
  by (simp add: ide_inv_def ide_irq_def ideintr_def)

lemma ide_run_sim:
  assumes "idewait True st = Some 0" "ata_spec dev"
  shows "ide_inv q (i, k) \<Longrightarrow> distinct (q @ submitted es) \<Longrightarrow> \<forall>b\<in>set (submitted es). req_ok (bufs k b) \<Longrightarrow>
    \<exists>i' k' q'. ide_run dev st es (i, k) = Ok (i', k') \<and> ide_inv q' (i', k') \<and> length q' \<le> length (q @ submitted es) \<and>
      fold done_req q' (bufs k', disk k') = fold done_req (q @ submitted es) (bufs k, disk k)"
proof (induction es arbitrary: q i k)
  case (Cons e es)
  show ?case
  proof (cases e)
    case (Submit b)
    then obtain i' where i': "iderw_begin st b (i, k) = Ok (i', k)" "ide_inv (q @ [b]) (i', k)"
      using submit_inv [OF Cons.prems(1) _ _ assms(1), of b] Cons.prems(2,3) by auto
    then show ?thesis using Cons.IH [OF i'(2)] Cons.prems(2,3) Submit by simp
  next
    case Irq
    show ?thesis
    proof (cases q)
      case Nil
      then show ?thesis using spurious_irq [of i k dev st] Cons.IH [of "[]" i k] Cons.prems Irq by simp
    next
      case (Cons b q')
      obtain i' k' where s: "ide_irq dev st (i, k) = Ok (i', k')" "ide_inv q' (i', k')" "(bufs k', disk k') = done_req b (bufs k, disk k)"
        using irq_inv [OF _ assms, of b q' i k] Cons.prems(1) Cons by blast
      have "req_ok (bufs k' a)" if "a \<in> set (submitted es)" for a
      proof -
        have "a \<noteq> b" "req_ok (bufs k a)" using Cons.prems(2,3) Cons Irq that by auto
        then show ?thesis using req_ok_done [of "bufs k" a b "disk k"] s(3) by (metis fst_conv)
      qed
      then show ?thesis using Cons.IH [OF s(2)] Cons.prems(2) Cons Irq s by fastforce
    qed
  qed
qed auto

lemma ide_drain:
  assumes "idewait True st = Some 0" "ata_spec dev"
  shows "ide_inv q (i, k) \<Longrightarrow> length q \<le> n \<Longrightarrow>
    \<exists>i' k'. ide_run dev st (replicate n Irq) (i, k) = Ok (i', k') \<and> idequeue i' = None \<and>
      (bufs k', disk k') = fold done_req q (bufs k, disk k)"
proof (induction n arbitrary: q i k)
  case 0
  then show ?case using spurious_irq by auto
next
  case (Suc n)
  show ?case
  proof (cases q)
    case Nil
    then show ?thesis using spurious_irq [of i k dev st] Suc.IH [of "[]" i k] Suc.prems by simp
  next
    case (Cons b q')
    then obtain i' k' where "ide_irq dev st (i, k) = Ok (i', k')" "ide_inv q' (i', k')" "(bufs k', disk k') = done_req b (bufs k, disk k)"
      using irq_inv [OF _ assms, of b q' i k] Suc.prems(1) by blast
    then show ?thesis using Suc.IH [of q' i' k'] Suc.prems(2) Cons by auto
  qed
qed

lemma ide_run_append: "ide_run dev st (xs @ ys) s = kbind (ide_run dev st xs s) (ide_run dev st ys)"
  by (induction xs arbitrary: s) (auto simp: kbind_assoc intro: kbind_cong)

lemma all_done: "distinct bs \<Longrightarrow> b \<in> set bs \<Longrightarrow> b_valid (fst (fold done_req bs (B, D)) b) \<and> \<not> b_dirty (fst (fold done_req bs (B, D)) b)"
proof (induction bs arbitrary: B D)
  case (Cons a bs)
  have keep: "fst (fold done_req bs (B, D)) c = B c" if "c \<notin> set bs" for c B D
    using that
  proof (induction bs arbitrary: B D)
    case (Cons x xs)
    then show ?case using done_req_other [of c x B D] by (cases "done_req x (B, D)") auto
  qed simp
  obtain B' D' where d: "done_req a (B, D) = (B', D')" by fastforce
  have "b_valid (B' a) \<and> \<not> b_dirty (B' a)" using d by (auto simp: done_req_def split: if_splits)
  then show ?case using Cons d keep [of b B' D'] by (cases "b = a") auto
qed simp


text \<open>A controller that decodes the sector address from the ports.\<close>

definition demo_ata :: ata where
  "demo_ata ps data d =
     (let v = (\<lambda>n. ucast (snd (ps ! n)) :: u32);
          sector = v 2 OR push_bit 8 (v 3) OR push_bit 16 (v 4) OR push_bit 24 (take_bit 4 (v 5)) in
      if snd (ps ! 6) = IDE_CMD_WRITE then (d(sector := data), []) else (d, d sector))"

lemma low_byte: "ucast (ucast (x AND 0xFF) :: u8) = take_bit 8 x" for x :: u32
proof (rule bit_word_eqI)
  have m: "(0xFF :: u32) = mask 8" by (simp add: mask_eq_exp_minus_1)
  show "bit (ucast (ucast (x AND 0xFF) :: u8) :: u32) n = bit (take_bit 8 x) n" if "n < LENGTH(32)" for n
    unfolding m using that by (auto simp: bit_simps)
qed

lemma low_nibble: "take_bit 4 (ucast (0xF0 OR ucast (x AND 0x0F) :: u8)) = take_bit 4 x" for x :: u32
proof (rule bit_word_eqI)
  fix n
  have m: "(0x0F :: u32) = mask 4" by (simp add: mask_eq_exp_minus_1)
  have e: "bit (0xF0 OR y :: u8) n = bit y n" if "n < 4" for y
  proof -
    have "n = 0 \<or> n = 1 \<or> n = 2 \<or> n = 3" using that by linarith
    then show ?thesis by (auto simp: bit_or_iff)
  qed
  show "bit (take_bit 4 (ucast (0xF0 OR ucast (x AND 0x0F) :: u8) :: u32)) n = bit (take_bit 4 x) n" if "n < LENGTH(32)"
  proof (cases "n < 4")
    case True
    then show ?thesis unfolding m bit_take_bit_iff bit_unsigned_iff e [OF True] by (auto simp: bit_simps)
  qed (simp add: bit_take_bit_iff)
qed

lemma lba_bytes:
  fixes s :: u32
  assumes "unat s < 2 ^ 28"
  shows "take_bit 8 s OR push_bit 8 (take_bit 8 (drop_bit 8 s)) OR push_bit 16 (take_bit 8 (drop_bit 16 s)) OR
    push_bit 24 (take_bit 4 (drop_bit 24 s)) = s"
proof (rule bit_word_eqI)
  fix n assume n: "n < LENGTH(32)"
  have "take_bit 28 s = s" using assms by (simp add: word_unat_eq_iff unsigned_take_bit_eq take_bit_nat_eq_self)
  then have high: "bit s n \<Longrightarrow> n < 28" by (metis bit_take_bit_iff)
  show "bit (take_bit 8 s OR push_bit 8 (take_bit 8 (drop_bit 8 s)) OR push_bit 16 (take_bit 8 (drop_bit 16 s)) OR
    push_bit 24 (take_bit 4 (drop_bit 24 s))) n = bit s n"
    using n high by (cases "n < 8"; cases "n < 16"; cases "n < 24")
      (auto simp: bit_or_iff bit_push_bit_iff bit_take_bit_iff bit_drop_bit_eq)
qed

lemma demo_ata_spec: "ata_spec demo_ata"
proof -
  have "0xE0 OR 0x10 OR x = 0xF0 OR x" for x :: u8 unfolding or.assoc [symmetric] by simp
  then have p: "snd (ide_ports 1 s c cmd ! 2) = ucast (s AND 0xFF)" "snd (ide_ports 1 s c cmd ! 3) = ucast (drop_bit 8 s AND 0xFF)"
      "snd (ide_ports 1 s c cmd ! 4) = ucast (drop_bit 16 s AND 0xFF)" "snd (ide_ports 1 s c cmd ! 5) = 0xF0 OR ucast (drop_bit 24 s AND 0x0F)"
      "snd (ide_ports 1 s c cmd ! 6) = cmd" for s c cmd
    unfolding ide_ports_def by simp_all
  show ?thesis unfolding ata_spec_def demo_ata_def Let_def p low_byte low_nibble using lba_bytes by simp
qed

definition demo_ide :: "ide \<times> kernel" where
  "demo_ide = (\<lparr>idequeue = None, qnext = (\<lambda>_. None), havedisk1 = True, ports = [], sent = []\<rparr>,
     demo_kernel\<lparr>bufs := (\<lambda>b. zero_buf\<lparr>b_dev := 1, b_blockno := word_of_nat (b mod 1000), b_dirty := (b = 1),
       b_lock := zero_sleeplock\<lparr>sl_locked := True\<rparr>\<rparr>)\<rparr>)"


end
