(* ===== verification/Umalloc.thy ===== *)
theory Umalloc
  imports Frame Proc
begin

text \<open>
  The memory allocator of user programs, \<^verbatim>\<open>umalloc.c\<close>: a circular list of free blocks, sorted by address, that
  starts in the static header \<^verbatim>\<open>base\<close>. A header is the pair of a pointer and a size stored at its address;
  sizes count headers of 8 bytes, so \<^verbatim>\<open>p + n\<close> is \<open>p + 8 * n\<close>. The address of \<^verbatim>\<open>base\<close> and the system call \<^verbatim>\<open>sbrk\<close>
  are arguments; the locale \<open>sbrk_contract\<close> says what the allocator relies on, and the kernel's \<open>growproc\<close>
  keeps that contract.
\<close>

section \<open>The allocator\<close>

record uheap =
  hptr :: "u32 \<Rightarrow> u32"
  hsize :: "u32 \<Rightarrow> u32"
  freep :: u32

definition set_ptr :: "u32 \<Rightarrow> u32 \<Rightarrow> uheap \<Rightarrow> uheap" where
  "set_ptr p v h = h\<lparr>hptr := (hptr h)(p := v)\<rparr>"

definition set_size :: "u32 \<Rightarrow> u32 \<Rightarrow> uheap \<Rightarrow> uheap" where
  "set_size p v h = h\<lparr>hsize := (hsize h)(p := v)\<rparr>"

text \<open>The loop of \<open>free\<close> that looks for the place of the block.\<close>

partial_function (option) free_find :: "u32 \<Rightarrow> u32 \<Rightarrow> uheap \<Rightarrow> u32 option" where
  "free_find bp p h =
     (if bp > p \<and> bp < hptr h p then Some p
      else if p \<ge> hptr h p \<and> (bp > p \<or> bp < hptr h p) then Some p
      else free_find bp (hptr h p) h)"

definition join_next :: "u32 \<Rightarrow> u32 \<Rightarrow> uheap \<Rightarrow> uheap" where
  "join_next bp p h =
     (if bp + 8 * hsize h bp = hptr h p
      then let h = set_size bp (hsize h bp + hsize h (hptr h p)) h in set_ptr bp (hptr h (hptr h p)) h
      else set_ptr bp (hptr h p) h)"

definition join_prev :: "u32 \<Rightarrow> u32 \<Rightarrow> uheap \<Rightarrow> uheap" where
  "join_prev bp p h =
     (if p + 8 * hsize h p = bp
      then let h = set_size p (hsize h p + hsize h bp) h in set_ptr p (hptr h bp) h
      else set_ptr p bp h)"

definition free :: "u32 \<Rightarrow> uheap \<Rightarrow> uheap option" where
  "free ap h =
     (let bp = ap - 8 in
      case free_find bp (freep h) h of
        None \<Rightarrow> None
      | Some p \<Rightarrow> Some ((join_prev bp p (join_next bp p h))\<lparr>freep := p\<rparr>))"

definition morecore :: "(u32 \<Rightarrow> 'k \<Rightarrow> u32 \<times> 'k) \<Rightarrow> u32 \<Rightarrow> uheap \<times> 'k \<Rightarrow> (u32 \<times> uheap \<times> 'k) option" where
  "morecore sbrk nu = (\<lambda>(h, k).
     let nu = (if nu < 4096 then 4096 else nu);
         (p, k) = sbrk (nu * 8) k in
     if p = -1 then Some (0, h, k)
     else case free (p + 8) (set_size p nu h) of
            None \<Rightarrow> None
          | Some h \<Rightarrow> Some (freep h, h, k))"

text \<open>The block \<open>p\<close> is taken, or its upper part is.\<close>

definition take_block :: "u32 \<Rightarrow> u32 \<Rightarrow> u32 \<Rightarrow> uheap \<Rightarrow> u32 \<times> uheap" where
  "take_block nunits prevp p h =
     (let (p, h) =
        (if hsize h p = nunits then (p, set_ptr prevp (hptr h p) h)
         else let h = set_size p (hsize h p - nunits) h; p = p + 8 * hsize h p in (p, set_size p nunits h)) in
      (p + 8, h\<lparr>freep := prevp\<rparr>))"

partial_function (option) malloc_loop ::
  "(u32 \<Rightarrow> 'k \<Rightarrow> u32 \<times> 'k) \<Rightarrow> u32 \<Rightarrow> u32 \<Rightarrow> u32 \<Rightarrow> uheap \<times> 'k \<Rightarrow> (u32 \<times> uheap \<times> 'k) option" where
  "malloc_loop sbrk nunits prevp p s =
     (if hsize (fst s) p \<ge> nunits then let (r, h) = take_block nunits prevp p (fst s) in Some (r, h, snd s)
      else if p = freep (fst s) then
        case morecore sbrk nunits s of
          None \<Rightarrow> None
        | Some (p, h, k) \<Rightarrow> if p = 0 then Some (0, h, k) else malloc_loop sbrk nunits p (hptr h p) (h, k)
      else malloc_loop sbrk nunits p (hptr (fst s) p) s)"

definition units :: "u32 \<Rightarrow> u32" where
  "units nbytes = (nbytes + 8 - 1) div 8 + 1"

definition malloc :: "u32 \<Rightarrow> (u32 \<Rightarrow> 'k \<Rightarrow> u32 \<times> 'k) \<Rightarrow> u32 \<Rightarrow> uheap \<times> 'k \<Rightarrow> (u32 \<times> uheap \<times> 'k) option" where
  "malloc base sbrk nbytes = (\<lambda>(h, k).
     let h = (if freep h = 0 then set_size base 0 (set_ptr base base (h\<lparr>freep := base\<rparr>)) else h);
         prevp = freep h in
     malloc_loop sbrk (units nbytes) prevp (hptr h prevp) (h, k))"

text \<open>
  A program that calls the allocator: it keeps the pointers it has and the sizes it asked for, and it releases
  only blocks it has.
\<close>

datatype mop = Malloc u32 | Free nat

fun mrun :: "u32 \<Rightarrow> (u32 \<Rightarrow> 'k \<Rightarrow> u32 \<times> 'k) \<Rightarrow> mop list \<Rightarrow> (u32 \<times> u32) list \<times> uheap \<times> 'k \<Rightarrow>
    ((u32 \<times> u32) list \<times> uheap \<times> 'k) option" where
  "mrun base sbrk [] s = Some s"
| "mrun base sbrk (Malloc n # ops) (live, h, k) =
     (case malloc base sbrk n (h, k) of
        None \<Rightarrow> None
      | Some (r, h, k) \<Rightarrow> mrun base sbrk ops (if r = 0 then live else live @ [(r, n)], h, k))"
| "mrun base sbrk (Free i # ops) (live, h, k) =
     (if i < length live then
        case free (fst (live ! i)) h of
          None \<Rightarrow> None
        | Some h \<Rightarrow> mrun base sbrk ops (take i live @ drop (Suc i) live, h, k)
      else mrun base sbrk ops (live, h, k))"

lemma set_simps [simp]:
  "hptr (set_ptr p v h) = (hptr h)(p := v)" "hsize (set_ptr p v h) = hsize h" "freep (set_ptr p v h) = freep h"
  "hptr (set_size p v h) = hptr h" "hsize (set_size p v h) = (hsize h)(p := v)" "freep (set_size p v h) = freep h"
  by (simp_all add: set_ptr_def set_size_def)

section \<open>The list of free blocks\<close>

fun links :: "uheap \<Rightarrow> u32 list \<Rightarrow> bool" where
  "links h (x # y # zs) \<longleftrightarrow> hptr h x = y \<and> links h (y # zs)"
| "links h zs \<longleftrightarrow> True"

lemma links_split: "links h (xs @ y # ys) \<longleftrightarrow> links h (xs @ [y]) \<and> links h (y # ys)"
proof (induction xs)
  case (Cons x xs)
  then show ?case by (cases xs) auto
qed simp

lemma links_cong:
  "(\<And>x. x \<in> set xs \<Longrightarrow> hptr h' x = hptr h x) \<Longrightarrow> links h' (xs @ [y]) \<longleftrightarrow> links h (xs @ [y])"
proof (induction xs)
  case (Cons x xs)
  then show ?case by (cases xs) auto
qed simp

lemma links_next: "links h (xs @ [z]) \<Longrightarrow> x \<in> set xs \<Longrightarrow> hptr h x \<in> set (tl (xs @ [z]))"
proof (induction xs)
  case (Cons a xs)
  then show ?case by (cases xs) auto
qed simp

lemma links_Cons: "links h (x # xs @ [z]) \<longleftrightarrow> hptr h x = hd (xs @ [z]) \<and> links h (xs @ [z])"
  by (cases xs) auto

lemma links_upd: "hptr h' = (hptr h)(x := v) \<Longrightarrow> x \<notin> set xs \<Longrightarrow> links h' (xs @ [z]) \<longleftrightarrow> links h (xs @ [z])"
  by (rule links_cong) auto

lemma links_rotate:
  assumes "links h (b # as @ [b])" "x \<in> set (b # as)"
  shows "\<exists>ys. links h (x # ys @ [x]) \<and> set (x # ys) = set (b # as) \<and> (distinct (b # as) \<longrightarrow> distinct (x # ys))"
proof (cases "x = b")
  case False
  then obtain us vs where as: "as = us @ x # vs" using assms(2) by (auto dest: split_list)
  have "links h ((b # us) @ [x])" "links h (x # vs @ [b])"
    using assms(1) links_split [of h "b # us" x "vs @ [b]"] by (auto simp: as)
  then have "links h ((x # vs) @ b # us @ [x])" using links_split [of h "x # vs" b "us @ [x]"] by simp
  then show ?thesis by (intro exI [of _ "vs @ b # us"]) (auto simp: as)
qed (use assms in auto)

lemma links_inj:
  assumes "links h (b # us @ p # vs @ [b])" "distinct (b # us @ p # vs)" "q \<in> set (b # us @ p # vs)" "hptr h q = p"
  shows "q = last (b # us)"
proof (rule ccontr)
  assume n: "q \<noteq> last (b # us)"
  have l: "links h ((b # us) @ [p])" "links h ((p # vs) @ [b])"
    using assms(1) links_split [of h "b # us" p "vs @ [b]"] by auto
  obtain ws z where w: "b # us = ws @ [z]" by (metis rev_exhaust list.distinct(1))
  have "q \<notin> set (p # vs)" using links_next [OF l(2), of q] assms(2,4) by auto
  then have "q \<in> set (b # us)" using assms(3) by auto
  then have "q \<in> set ws" using n unfolding w by simp
  moreover have "links h (ws @ [z])" using l(1) links_split [of h ws z "[p]"] unfolding w by simp
  ultimately have "p \<in> set (tl (ws @ [z]))" using links_next assms(4) by blast
  then show False using assms(2) unfolding w [symmetric] by auto
qed

section \<open>Blocks\<close>

definition fin :: "uheap \<Rightarrow> u32 \<Rightarrow> nat" where
  "fin h a = unat a + 8 * unat (hsize h a)"

definition blocks :: "uheap \<Rightarrow> nat \<Rightarrow> nat \<Rightarrow> u32 set \<Rightarrow> bool" where
  "blocks h lo hi S \<longleftrightarrow> hi \<le> 2 ^ 31 \<and> (\<forall>a\<in>S. lo \<le> unat a \<and> 0 < hsize h a \<and> fin h a \<le> hi) \<and>
     (\<forall>a\<in>S. \<forall>b\<in>S. a < b \<longrightarrow> fin h a \<le> unat b)"

lemma unat_add_units:
  fixes a n :: u32
  assumes "unat a + 8 * unat n \<le> 2 ^ 31"
  shows "unat (a + 8 * n) = unat a + 8 * unat n"
proof -
  have "a + 8 * n = word_of_nat (unat a + 8 * unat n)" by simp
  then show ?thesis using assms by (simp add: unsigned_of_nat take_bit_nat_eq_self del: of_nat_add of_nat_mult of_nat_numeral)
qed

lemma blocks_fin: "blocks h lo hi S \<Longrightarrow> a \<in> S \<Longrightarrow> unat (a + 8 * hsize h a) = fin h a"
  using unat_add_units [of a "hsize h a"] unfolding blocks_def fin_def by fastforce

lemma blocks_before: "blocks h lo hi S \<Longrightarrow> a \<in> S \<Longrightarrow> unat a < fin h a"
  by (auto simp: blocks_def fin_def word_less_nat_alt)

lemma blocks_in: "blocks h lo hi S \<Longrightarrow> a \<in> S \<Longrightarrow> lo \<le> unat a \<and> 0 < hsize h a \<and> fin h a \<le> hi"
  by (auto simp: blocks_def)

lemma blocks_sep: "blocks h lo hi S \<Longrightarrow> a \<in> S \<Longrightarrow> c \<in> S \<Longrightarrow> a < c \<Longrightarrow> fin h a \<le> unat c"
  by (auto simp: blocks_def)

lemma blocks_subset: "blocks h lo hi S \<Longrightarrow> T \<subseteq> S \<Longrightarrow> blocks h lo hi T"
  unfolding blocks_def by blast

lemma blocks_cong: "blocks h lo hi S \<Longrightarrow> (\<And>a. a \<in> S \<Longrightarrow> hsize h' a = hsize h a) \<Longrightarrow> blocks h' lo hi S"
  by (auto simp: blocks_def fin_def)

lemma merge_blocks:
  assumes b: "blocks h lo hi S" and S: "x \<in> S" "y \<in> S" "x + 8 * hsize h x = y"
  defines "h' \<equiv> set_size x (hsize h x + hsize h y) h"
  shows "blocks h' lo hi (S - {y})" "x \<noteq> y" "hsize h x \<le> hsize h' x" "hsize h y \<le> hsize h' x"
proof -
  have fx: "fin h x = unat y" using blocks_fin [OF b S(1)] S(3) by simp
  then have xy: "x < y" using blocks_before [OF b S(1)] by (simp add: word_less_nat_alt)
  then show "x \<noteq> y" by simp
  have "fin h y \<le> 2 ^ 31" using b S(2) by (auto simp: blocks_def)
  then have u: "unat (hsize h x + hsize h y) = unat (hsize h x) + unat (hsize h y)"
    using fx by (intro unat_add_lem [THEN iffD1]) (simp add: fin_def)
  then have x: "fin h' x = fin h y" and others: "a \<noteq> x \<Longrightarrow> fin h' a = fin h a" for a
    using fx by (auto simp: h'_def fin_def)
  show "hsize h x \<le> hsize h' x" "hsize h y \<le> hsize h' x" using u by (simp_all add: h'_def word_le_nat_alt)
  have "0 < hsize h' a" if "a \<in> S" for a
    using b that u by (auto simp: h'_def blocks_def word_less_nat_alt)
  moreover have "fin h' a \<le> unat c" if "a \<in> S" "c \<in> S - {y}" "a < c" for a c
  proof (cases "a = x")
    case True
    then have "unat y \<le> unat c" using b S(1) that fx by (auto simp: blocks_def)
    then have "y < c" using that(2) by (auto simp: word_le_nat_alt order_less_le)
    then show ?thesis using b S(2) that(2) True x by (auto simp: blocks_def)
  next
    case False
    then show ?thesis using b that others by (auto simp: blocks_def)
  qed
  moreover have "fin h' a \<le> hi" if "a \<in> S" for a
    using b that x others S(2) by (cases "a = x") (auto simp: blocks_def)
  ultimately show "blocks h' lo hi (S - {y})" using b by (auto simp: blocks_def)
qed

lemma split_blocks:
  assumes b: "blocks h lo hi S" and S: "x \<in> S" "0 < n" "n < hsize h x"
  defines "q \<equiv> x + 8 * (hsize h x - n)"
  defines "h' \<equiv> set_size q n (set_size x (hsize h x - n) h)"
  shows "blocks h' lo hi (insert q S)" "q \<notin> S" "x < q"
proof -
  have d: "unat (hsize h x - n) = unat (hsize h x) - unat n" "unat n < unat (hsize h x)" "0 < unat n"
    using S by (auto simp: unat_sub_if' word_less_nat_alt)
  have hi: "fin h x \<le> hi" "hi \<le> 2 ^ 31" using b S(1) by (auto simp: blocks_def)
  then have q: "unat q = unat x + 8 * (unat (hsize h x) - unat n)"
    using d unat_add_units [of x "hsize h x - n"] by (simp add: q_def fin_def)
  then show xq: "x < q" using d by (simp add: word_less_nat_alt)
  then have f: "fin h' x = unat q" "fin h' q = fin h x" and others: "a \<noteq> x \<Longrightarrow> a \<noteq> q \<Longrightarrow> fin h' a = fin h a" for a
    using q d by (auto simp: h'_def fin_def)
  have qf: "unat q < fin h x" using q d by (simp add: fin_def)
  show qS: "q \<notin> S" using blocks_sep [OF b S(1) _ xq] qf by linarith
  have pos: "0 < hsize h' a" if "a \<in> insert q S" for a
    using b that d S by (auto simp: h'_def blocks_def word_less_nat_alt)
  have ord: "fin h' a \<le> unat c" if m: "a \<in> insert q S" "c \<in> insert q S" "a < c" for a c
  proof -
    consider "a = q" "c \<in> S" | "a = x" "c = q" | "a = x" "c \<in> S" | "a \<in> S" "a \<noteq> x" "c = q" | "a \<in> S" "a \<noteq> x" "c \<in> S"
      using m by (cases "a = q"; cases "c = q"; cases "a = x") auto
    then show ?thesis
    proof cases
      case 1
      then have "x < c" using xq m(3) by simp
      then show ?thesis using blocks_sep [OF b S(1)] 1 f by simp
    next
      case 3
      then have "fin h x \<le> unat c" using blocks_sep [OF b S(1)] m(3) by simp
      then show ?thesis using 3 f qf by simp
    next
      case 4
      have "a < x"
      proof (rule ccontr)
        assume "\<not> a < x"
        then have "fin h x \<le> unat a" using blocks_sep [OF b S(1)] 4 by simp
        then show False using qf m(3) 4 by (simp add: word_less_nat_alt)
      qed
      then have "fin h a \<le> unat x" using blocks_sep [OF b _ S(1)] 4 by simp
      moreover have "fin h' a = fin h a" using 4 qS others by metis
      ultimately show ?thesis using 4 xq by (simp add: word_less_nat_alt)
    next
      case 5
      then have "fin h' a = fin h a" using qS others by metis
      then show ?thesis using blocks_sep [OF b] 5 m(3) by simp
    qed (use f in auto)
  qed
  have "lo \<le> unat a \<and> fin h' a \<le> hi" if "a \<in> insert q S" for a
  proof (cases "a = q \<or> a = x")
    case True
    then show ?thesis using b f S(1) xq qf hi by (auto simp: blocks_def word_less_nat_alt)
  next
    case False
    then show ?thesis using b that others by (auto simp: blocks_def)
  qed
  then show "blocks h' lo hi (insert q S)" using pos ord hi(2) unfolding blocks_def by blast
qed

section \<open>Releasing a block\<close>

text \<open>\<open>A\<close>: the headers of the allocated blocks, \<open>as\<close>: the free blocks, between the addresses \<open>lo\<close> and \<open>hi\<close>.\<close>

definition heap_inv :: "u32 \<Rightarrow> nat \<Rightarrow> nat \<Rightarrow> u32 set \<Rightarrow> u32 list \<Rightarrow> uheap \<Rightarrow> bool" where
  "heap_inv base lo hi A as h \<longleftrightarrow> blocks h lo hi (set as \<union> A) \<and> set as \<inter> A = {} \<and> sorted_wrt (<) as \<and>
     links h (base # as @ [base]) \<and> hsize h base = 0 \<and> unat base + 8 \<le> lo \<and> lo \<le> hi \<and> base \<noteq> 0 \<and> freep h \<in> set (base # as)"

lemma heap_inv_base: "heap_inv base lo hi A as h \<Longrightarrow> a \<in> set as \<union> A \<Longrightarrow> base < a"
proof -
  assume "heap_inv base lo hi A as h" "a \<in> set as \<union> A"
  then have "unat base + 8 \<le> lo" "lo \<le> unat a" unfolding heap_inv_def blocks_def by blast+
  then show "base < a" by (simp add: word_less_nat_alt)
qed

lemma heap_inv_ptr:
  assumes "heap_inv base lo hi (insert a A) as h"
  shows "a + 8 \<noteq> 0"
proof
  assume "a + 8 = 0"
  then have "a = -8" by (simp add: eq_neg_iff_add_eq_0)
  moreover have "unat a \<le> 2 ^ 31" using assms by (auto simp: heap_inv_def blocks_def fin_def)
  ultimately show False by (simp add: unsigned_minus_1_eq_mask)
qed

lemma free_find_path:
  assumes "links h (xs @ [z])" "sorted_wrt (<) (xs @ [z])" "(\<forall>a\<in>set (xs @ [z]). a < bp) \<or> (\<forall>a\<in>set (xs @ [z]). bp < a)"
    "x \<in> set (xs @ [z])"
  shows "free_find bp x h = free_find bp z h"
  using assms
proof (induction xs arbitrary: x)
  case (Cons a xs)
  define y where "y = hd (xs @ [z])"
  have y: "hptr h a = y" "y \<in> set (xs @ [z])" "links h (xs @ [z])" using Cons.prems(1) by (cases xs; simp add: y_def)+
  then have "a < y" "sorted_wrt (<) (xs @ [z])" using Cons.prems(2) by auto
  moreover have "\<not> (bp > a \<and> bp < y)" using Cons.prems(3) y(2) by (auto dest!: bspec [of _ _ y])
  ultimately have step: "free_find bp a h = free_find bp y h" by (subst free_find.simps) (auto simp: y)
  have IH: "w \<in> set (xs @ [z]) \<Longrightarrow> free_find bp w h = free_find bp z h" for w
    using Cons.IH [OF y(3)] Cons.prems(2,3) by auto
  show ?case
  proof (cases "x = a")
    case True
    then show ?thesis using step IH [OF y(2)] by (simp only:)
  next
    case False
    then have "x \<in> set (xs @ [z])" using Cons.prems(4) by simp
    then show ?thesis by (rule IH)
  qed
qed simp

lemma free_find_place:
  assumes "links h (base # us @ vs @ [base])" "sorted_wrt (<) (base # us @ vs)" "\<forall>a\<in>set (base # us). a < bp" "\<forall>a\<in>set vs. bp < a"
    and "p \<in> set (base # us @ vs)"
  shows "free_find bp p h = Some (last (base # us))"
proof -
  obtain ws P where w: "base # us = ws @ [P]" by (metis rev_exhaust list.distinct(1))
  have l: "links h (ws @ [P])" "links h (P # vs @ [base])"
    using assms(1) links_split [of h ws P "vs @ [base]"] w by (metis append.assoc append_Cons append_Nil)+
  have so: "sorted_wrt (<) (ws @ [P])" "\<forall>a\<in>set (ws @ [P]). a < bp"
    using assms(2,3) sorted_wrt_append [of "(<)" "base # us" vs] unfolding w [symmetric] by simp_all
  have pb: "base \<le> P" "P < bp"  using so w by (cases ws; auto simp: less_imp_le)+
  have stop: "free_find bp P h = Some P"
    using l(2) pb assms(4) by (subst free_find.simps) (cases vs; auto)
  have front: "free_find bp q h = Some P" if "q \<in> set (base # us)" for q
    using free_find_path [OF l(1) so(1), of bp q] so(2) that stop w by metis
  have "free_find bp q h = Some P" if q: "q \<in> set vs" for q
  proof -
    obtain vs' z where v: "vs = vs' @ [z]" using q by (cases vs rule: rev_cases) auto
    have lz: "links h (vs' @ [z])" "hptr h z = base"
      using l(2) links_split [of h "P # vs'" z "[base]"] links_split [of h "[P]" "hd (vs' @ [z])" "tl (vs' @ [z])"]
      by (cases vs'; auto simp: v)+
    have "sorted_wrt (<) (vs' @ [z])" using assms(2) v by (simp add: sorted_wrt_append)
    then have "free_find bp q h = free_find bp z h"
      using free_find_path [OF lz(1), of bp q] assms(4) q v by blast
    also have "\<dots> = free_find bp base h"
    proof -
      have "bp < z" "base < bp" using assms(3,4) v by auto
      then show ?thesis using lz(2) by (subst free_find.simps) auto
    qed
    finally show ?thesis using front [of base] by simp
  qed
  moreover have "p \<in> set (base # us) \<or> p \<in> set vs" using assms(5) by auto
  moreover have "last (base # us) = P" using w by simp
  ultimately show ?thesis using front by metis
qed

lemma join_next_ok:
  assumes b: "blocks h lo hi S" and S: "bp \<in> S" "set vs \<subseteq> S" "bp \<notin> set vs" "base \<notin> S" and l: "links h (P # vs @ [base])"
    and base: "unat base + 8 \<le> lo" and so: "sorted_wrt (<) vs"
  shows "\<exists>vs'. links (join_next bp P h) (bp # vs' @ [base]) \<and> sorted_wrt (<) vs' \<and> set vs' \<subseteq> set vs \<and>
    blocks (join_next bp P h) lo hi (S - (set vs - set vs')) \<and> hsize h bp \<le> hsize (join_next bp P h) bp"
proof (cases "bp + 8 * hsize h bp = hptr h P")
  case True
  show ?thesis
  proof (cases vs)
    case Nil
    then have "fin h bp = unat base" using True l blocks_fin [OF b S(1)] by simp
    then show ?thesis using b S(1) base unfolding blocks_def fin_def by fastforce
  next
    case (Cons v vs')
    have v: "v \<in> S" "bp + 8 * hsize h bp = v" "hptr h P = v" using S(2) l True by (auto simp: Cons)
    have "v \<notin> set vs'" using so by (auto simp: Cons)
    have p: "hptr (join_next bp P h) = (hptr h)(bp := hptr h v)" using v by (simp add: join_next_def Let_def)
    have "links (join_next bp P h) (bp # vs' @ [base])"
      using l S(3) links_upd [OF p, of vs' base] by (simp add: links_Cons Cons p)
    moreover have "hsize h bp \<le> hsize (join_next bp P h) bp" "blocks (join_next bp P h) lo hi (S - {v})"
      using merge_blocks [OF b S(1) v(1,2)] l True blocks_cong [of "set_size bp (hsize h bp + hsize h v) h" lo hi "S - {v}" "join_next bp P h"]
      by (auto simp: join_next_def Let_def Cons)
    moreover have "set vs - set vs' = {v}" using \<open>v \<notin> set vs'\<close> by (auto simp: Cons)
    ultimately show ?thesis using so by (intro exI [of _ vs']) (auto simp: Cons)
  qed
next
  case False
  have p: "hptr (join_next bp P h) = (hptr h)(bp := hptr h P)" using False by (simp add: join_next_def)
  have "links (join_next bp P h) (bp # vs @ [base])"
    using l S(3) links_upd [OF p, of vs base] by (simp add: links_Cons p)
  moreover have "blocks (join_next bp P h) lo hi S" using False by (intro blocks_cong [OF b]) (auto simp: join_next_def)
  ultimately show ?thesis using so False by (intro exI [of _ vs]) (auto simp: join_next_def)
qed

lemma join_prev_ok:
  assumes b: "blocks h lo hi S" and S: "bp \<in> S" "set us \<subseteq> S" "base \<notin> S" "hsize h base = 0"
    and w: "base # us = ws @ [P]" and l: "links h (ws @ [P])" "links h (bp # vs @ [base])"
    and so: "sorted_wrt (<) (base # us @ bp # vs)"
  shows "\<exists>as. links (join_prev bp P h) (base # as @ [base]) \<and> sorted_wrt (<) as \<and> P \<in> set (base # as) \<and>
    set us \<union> set vs \<subseteq> set as \<and> set as \<subseteq> set us \<union> insert bp (set vs) \<and>
    blocks (join_prev bp P h) lo hi (S - (insert bp (set us \<union> set vs) - set as)) \<and> (\<exists>a\<in>set as. hsize h bp \<le> hsize (join_prev bp P h) a)"
proof -
  define h' where "h' = join_prev bp P h"
  have d: "distinct (base # us @ bp # vs)" using so strict_sorted_iff by blast
  then have "distinct ((ws @ [P]) @ bp # vs)" unfolding w [symmetric] by simp
  then have P: "P \<in> set (base # us)" "P \<notin> set vs" "P \<noteq> bp" "P \<notin> set ws" unfolding w by auto
  have ring: "links h' (base # us @ xs @ [base])" if "links h' (ws @ [P])" "links h' (P # xs @ [base])" for xs
    using that links_split [of h' ws P "xs @ [base]"] w by (metis append.assoc append_Cons append_Nil)
  show ?thesis
  proof (cases "P + 8 * hsize h P = bp")
    case True
    then have "P \<noteq> base" using S(4) P(3) by auto
    then have PS: "P \<in> set us" "P \<in> S" using P(1) S(2) by auto
    have p: "hptr h' = (hptr h)(P := hptr h bp)" using True P(3) by (simp add: h'_def join_prev_def Let_def)
    have "links h' (P # vs @ [base])" using l(2) P(2) links_upd [OF p, of vs base] by (simp add: links_Cons p)
    then have "links h' (base # (us @ vs) @ [base])" using ring [of vs] l(1) links_upd [OF p P(4), of P] by simp
    moreover have "hsize h bp \<le> hsize h' P" "blocks h' lo hi (S - {bp})"
      using merge_blocks [OF b PS(2) S(1) True] True blocks_cong [of "set_size P (hsize h P + hsize h bp) h" lo hi "S - {bp}" h']
      by (auto simp: h'_def join_prev_def Let_def)
    moreover have "insert bp (set us \<union> set vs) - set (us @ vs) = {bp}" using d by auto
    ultimately show ?thesis using so PS(1) unfolding h'_def [symmetric]
      by (intro exI [of _ "us @ vs"]) (auto simp: sorted_wrt_append)
  next
    case False
    have p: "hptr h' = (hptr h)(P := bp)" using False by (simp add: h'_def join_prev_def)
    have "links h' (P # (bp # vs) @ [base])"
      using l(2) P(2,3) links_upd [OF p, of "bp # vs" base] by (simp add: p)
    then have "links h' (base # (us @ bp # vs) @ [base])" using ring [of "bp # vs"] l(1) links_upd [OF p P(4), of P] by simp
    moreover have "hsize h' = hsize h" using False by (simp add: h'_def join_prev_def)
    moreover have "insert bp (set us \<union> set vs) - set (us @ bp # vs) = {}" by auto
    ultimately show ?thesis using so P(1) b unfolding h'_def [symmetric]
      by (intro exI [of _ "us @ bp # vs"]) (auto intro: blocks_cong)
  qed
qed

lemma sorted_place:
  fixes bp :: u32
  shows
  "sorted_wrt (<) as \<Longrightarrow> bp \<notin> set as \<Longrightarrow> \<exists>us vs. as = us @ vs \<and> (\<forall>a\<in>set us. a < bp) \<and> (\<forall>a\<in>set vs. bp < a)"

proof (induction as)
  case (Cons a as)
  show ?case
  proof (cases "a < bp")
    case True
    obtain us vs where "as = us @ vs" "\<forall>a\<in>set us. a < bp" "\<forall>a\<in>set vs. bp < a" using Cons by auto
    then show ?thesis using True by (intro exI [of _ "a # us"] exI [of _ vs]) simp
  next
    case False
    then have "bp < a" using Cons.prems(2) by auto
    then show ?thesis using Cons.prems(1) by (intro exI [of _ "[]"] exI [of _ "a # as"]) auto
  qed
qed simp

lemma free_ok:
  assumes inv: "heap_inv base lo hi A as h" and A: "bp \<in> A"
  shows "\<exists>h' as'. free (bp + 8) h = Some h' \<and> heap_inv base lo hi (A - {bp}) as' h' \<and>
    (\<forall>a\<in>A - {bp}. hsize h' a = hsize h a) \<and> (\<exists>a\<in>set as'. hsize h bp \<le> hsize h' a)"
proof -
  let ?S = "set as \<union> A"
  have i: "blocks h lo hi ?S" "set as \<inter> A = {}" "sorted_wrt (<) as" "links h (base # as @ [base])" "hsize h base = 0"
      "unat base + 8 \<le> lo" "lo \<le> hi" "base \<noteq> 0" "freep h \<in> set (base # as)"
    using inv by (auto simp: heap_inv_def)
  note lt = heap_inv_base [OF inv]
  have nb: "base \<notin> ?S" using lt by blast
  obtain us vs where as: "as = us @ vs" "\<forall>a\<in>set us. a < bp" "\<forall>a\<in>set vs. bp < a"
    using sorted_place [OF i(3)] i(2) A by blast
  obtain ws P where w: "base # us = ws @ [P]" by (metis rev_exhaust list.distinct(1))
  have so: "sorted_wrt (<) (base # us @ vs)" "sorted_wrt (<) vs" using i(3) lt by (auto simp: as(1) sorted_wrt_append)
  have "free_find bp (freep h) h = Some (last (base # us))"
    using free_find_place [of h base us vs bp] i(4,9) so as lt A by simp
  then have f: "free (bp + 8) h = Some ((join_prev bp P (join_next bp P h))\<lparr>freep := P\<rparr>)" unfolding w by (simp add: free_def)
  have l: "links h (ws @ [P])" "links h (P # vs @ [base])"
    using i(4) links_split [of h ws P "vs @ [base]"] w unfolding as(1) by (metis append.assoc append_Cons append_Nil)+
  define h1 where "h1 = join_next bp P h"
  obtain vs' where v: "links h1 (bp # vs' @ [base])" "sorted_wrt (<) vs'" "set vs' \<subseteq> set vs"
      "blocks h1 lo hi (?S - (set vs - set vs'))" "hsize h bp \<le> hsize h1 bp"
    using join_next_ok [OF i(1) _ _ _ nb l(2) i(6) so(2), of bp] A as by (auto simp: h1_def)
  have same: "x \<noteq> bp \<Longrightarrow> hptr h1 x = hptr h x" "x \<noteq> bp \<Longrightarrow> hsize h1 x = hsize h x" for x
    by (auto simp: h1_def join_next_def Let_def)
  have "bp \<notin> set (base # us)" using as(2) lt A by auto
  then have "bp \<notin> set ws" unfolding w by simp
  then have l1: "links h1 (ws @ [P])" using l(1) links_cong [of ws h1 h P] same by metis
  have so1: "sorted_wrt (<) (base # us @ bp # vs')" using so as v(2,3) lt A by (auto simp: sorted_wrt_append)
  let ?T = "?S - (set vs - set vs')"
  have uv: "set us \<inter> set vs = {}" "bp \<notin> set vs" using as by fastforce+
  then have T: "bp \<in> ?T" "set us \<subseteq> ?T" "base \<notin> ?T" "hsize h1 base = 0" using A nb i(5) same(2) [of base] by (auto simp: as(1))
  obtain as' where a: "links (join_prev bp P h1) (base # as' @ [base])" "sorted_wrt (<) as'" "P \<in> set (base # as')"
      "set us \<union> set vs' \<subseteq> set as'" "set as' \<subseteq> set us \<union> insert bp (set vs')"
      "blocks (join_prev bp P h1) lo hi (?T - (insert bp (set us \<union> set vs') - set as'))"
      "\<exists>a\<in>set as'. hsize h1 bp \<le> hsize (join_prev bp P h1) a"
    using join_prev_ok [OF v(4) T w l1 v(1) so1] by blast
  have PA: "P \<notin> A" "P \<noteq> bp" using w nb i(2) \<open>bp \<notin> set (base # us)\<close> unfolding as(1) by (metis Un_iff disjoint_iff last_in_set last_snoc list.distinct(1) set_ConsD set_append)+
  define h2 where "h2 = (join_prev bp P h1)\<lparr>freep := P\<rparr>"
  have h2: "hptr h2 = hptr (join_prev bp P h1)" "hsize h2 = hsize (join_prev bp P h1)" "freep h2 = P" by (simp_all add: h2_def)
  have size: "hsize h2 x = hsize h x" if "x \<noteq> bp" "x \<noteq> P" for x
    using that same by (auto simp: h2 join_prev_def Let_def)
  have "set as' \<union> (A - {bp}) \<subseteq> ?T - (insert bp (set us \<union> set vs') - set as')" using a(5) A i(2) v(3) uv by (auto simp: as(1))
  then have "blocks h2 lo hi (set as' \<union> (A - {bp}))"
    using blocks_cong [OF blocks_subset [OF a(6)], of _ h2] h2(2) by simp
  moreover have "links h2 (base # as' @ [base])" using a(1) links_cong [of "base # as'" h2 "join_prev bp P h1" base] h2(1) by simp
  moreover have "hsize h2 base = 0"
    using T(3,4) PA(2) A size [of base] nb by (cases "P = base") (auto simp: h2(2) join_prev_def)
  ultimately have "heap_inv base lo hi (A - {bp}) as' h2"
    using a(2,3,5) i v(3) h2(3) by (auto simp: heap_inv_def as(1))
  moreover have "\<exists>x\<in>set as'. hsize h bp \<le> hsize h2 x" using a(7) v(5) h2(2) order_trans by metis
  moreover have "\<forall>a\<in>A - {bp}. hsize h2 a = hsize h a" using size PA(1) by (metis DiffE singletonI)
  moreover have "free (bp + 8) h = Some h2" using f by (simp add: h1_def h2_def)
  ultimately show ?thesis by blast
qed

section \<open>Taking a block\<close>

lemma take_block_ok:
  assumes inv: "heap_inv base lo hi A as h" and q: "q \<in> set (base # as)" and n: "0 < n" "n \<le> hsize h (hptr h q)"
  shows "\<exists>a as' h'. take_block n q (hptr h q) h = (a + 8, h') \<and> a \<notin> A \<and> heap_inv base lo hi (insert a A) as' h' \<and> hsize h' a = n \<and>
    (\<forall>x\<in>A. hsize h' x = hsize h x)"
proof -
  define p where "p = hptr h q"
  have i: "blocks h lo hi (set as \<union> A)" "set as \<inter> A = {}" "sorted_wrt (<) as" "links h (base # as @ [base])" "hsize h base = 0"
      "unat base + 8 \<le> lo" "lo \<le> hi" "base \<noteq> 0"
    using inv by (auto simp: heap_inv_def)
  have nb: "base \<notin> set as \<union> A" using heap_inv_base [OF inv] by blast
  have "p \<in> set (as @ [base])" using links_next [of h "base # as" base q] i(4) q by (simp add: p_def)
  moreover have "p \<noteq> base" using n i(5) by (auto simp: p_def word_le_nat_alt word_less_nat_alt)
  ultimately obtain us vs where as: "as = us @ p # vs" by (auto dest: split_list)
  have p: "p \<in> set as" by (simp add: as)
  have d: "distinct (base # us @ p # vs)" using i(3) nb strict_sorted_iff [of as] by (auto simp: as)
  show ?thesis
  proof (cases "hsize h p = n")
    case True
    define h' where "h' = (set_ptr q (hptr h p) h)\<lparr>freep := q\<rparr>"
    have h': "hptr h' = (hptr h)(q := hptr h p)" "hsize h' = hsize h" "freep h' = q" by (simp_all add: h'_def)
    obtain ws where w: "base # us = ws @ [q]"
      using links_inj [of h base us p vs q] i(4) d q by (metis append_Cons append.assoc append_butlast_last_id as list.distinct(1) p_def)
    have e: "base # us @ xs = ws @ q # xs" for xs using arg_cong [OF w, of "\<lambda>z. z @ xs"] by simp
    have l: "links h (ws @ [q])" "links h (p # vs @ [base])"
      using i(4) e [of "p # vs @ [base]"] links_split [of h ws q "p # vs @ [base]"] by (auto simp: as)
    have "distinct (ws @ q # p # vs)" using d e [of "p # vs"] by simp
    then have "links h' (ws @ [q])" "links h' (q # vs @ [base])"
      using l links_upd [OF h'(1), of ws q] links_upd [OF h'(1), of vs base] by (auto simp: links_Cons h'(1))
    then have "links h' (base # (us @ vs) @ [base])" using links_split [of h' ws q "vs @ [base]"] unfolding append.assoc e by blast
    moreover have "blocks h' lo hi (set (us @ vs) \<union> insert p A)"
      by (rule blocks_cong [OF blocks_subset [OF i(1)]]) (auto simp: as h'(2))
    moreover have "q \<in> set (base # us)" by (simp add: w)
    ultimately have "heap_inv base lo hi (insert p A) (us @ vs) h'"
      using i d by (auto simp: heap_inv_def as h' sorted_wrt_append)
    moreover have "take_block n q p h = (p + 8, h')" using True by (simp add: take_block_def h'_def)
    ultimately show ?thesis using True i(2) p h'(2) unfolding p_def [symmetric]
      by (intro exI [of _ p] exI [of _ "us @ vs"] exI [of _ h']) auto
  next
    case False
    then have n': "n < hsize h p" using n(2) by (simp add: p_def)
    define a where "a = p + 8 * (hsize h p - n)"
    define h' where "h' = (set_size a n (set_size p (hsize h p - n) h))\<lparr>freep := q\<rparr>"
    have b: "blocks (set_size a n (set_size p (hsize h p - n) h)) lo hi (insert a (set as \<union> A))" "a \<notin> set as \<union> A" "p < a"
      using split_blocks [OF i(1) _ n(1) n'] p by (auto simp: a_def)
    have h': "hptr h' = hptr h" "freep h' = q" "hsize h' = (hsize h)(p := hsize h p - n, a := n)"
      by (simp_all add: h'_def)
    have "blocks h' lo hi (set as \<union> insert a A)" by (rule blocks_cong) (use b(1) in \<open>auto simp: h'_def\<close>)
    moreover have "base < a" using b(3) heap_inv_base [OF inv, of p] p by auto
    moreover have "links h' (base # as @ [base])" using i(4) links_cong [of "base # as" h' h base] h'(1) by simp
    ultimately have "heap_inv base lo hi (insert a A) as h'" using i b(2,3) q p nb by (auto simp: heap_inv_def h')
    moreover have "take_block n q p h = (a + 8, h')"
      using False by (simp add: take_block_def Let_def h'_def a_def)
    ultimately show ?thesis using b(2,3) i(2) p h'(3) unfolding p_def [symmetric] by (intro exI [of _ a] exI [of _ as] exI [of _ h']) auto
  qed
qed

lemma malloc_found:
  assumes "links h (x # ys @ [freep h])" "freep h \<notin> set ys" "\<exists>y\<in>set (ys @ [freep h]). n \<le> hsize h y"
  shows "\<exists>q\<in>set (x # ys). n \<le> hsize h (hptr h q) \<and>
    malloc_loop sbrk n x (hptr h x) (h, k) = (let (r, h') = take_block n q (hptr h q) h in Some (r, h', k))"
  using assms
proof (induction ys arbitrary: x)
  case Nil
  then show ?case by (subst malloc_loop.simps) simp
next
  case (Cons y ys)
  have y: "hptr h x = y" "links h (y # ys @ [freep h])" using Cons.prems(1) by auto
  show ?case
  proof (cases "n \<le> hsize h y")
    case True
    then show ?thesis using y(1) by (intro bexI [of _ x]) (auto simp: malloc_loop.simps [of sbrk n x y])
  next
    case False
    then have "malloc_loop sbrk n x y (h, k) = malloc_loop sbrk n y (hptr h y) (h, k)"
      using Cons.prems(2) by (subst malloc_loop.simps) auto
    then show ?thesis using Cons.IH [OF y(2)] Cons.prems(2,3) False y(1) by auto
  qed
qed

lemma malloc_walk:
  assumes "links h (x # ys @ [freep h])" "freep h \<notin> set ys" "\<forall>y\<in>set ys. hsize h y < n"
  shows "\<exists>q. malloc_loop sbrk n x (hptr h x) (h, k) = malloc_loop sbrk n q (freep h) (h, k)"
  using assms
proof (induction ys arbitrary: x)
  case (Cons y ys)
  have y: "hptr h x = y" "links h (y # ys @ [freep h])" using Cons.prems(1) by auto
  have "malloc_loop sbrk n x y (h, k) = malloc_loop sbrk n y (hptr h y) (h, k)"
    using Cons.prems(2,3) by (subst malloc_loop.simps) auto
  then show ?case using Cons.IH [OF y(2)] Cons.prems(2,3) y(1) by auto
qed auto

lemma grow_heap:
  assumes inv: "heap_inv base lo (unat p) A as h" and n: "0 < n" "unat p + 8 * unat n \<le> 2 ^ 31"
  shows "heap_inv base lo (unat p + 8 * unat n) (insert p A) as (set_size p n h)" "p \<notin> set as \<union> A"
proof -
  have i: "blocks h lo (unat p) (set as \<union> A)" "lo \<le> unat p" "unat base + 8 \<le> lo" using inv by (auto simp: heap_inv_def)
  have f: "fin h a \<le> unat p" "a < p" if "a \<in> set as \<union> A" for a
    using blocks_in [OF i(1) that] blocks_before [OF i(1) that] by (auto simp: word_less_nat_alt)
  then show np: "p \<notin> set as \<union> A" by blast
  have same: "fin (set_size p n h) a = fin h a" if "a \<noteq> p" for a using that by (simp add: fin_def)
  have "lo \<le> unat a \<and> 0 < hsize (set_size p n h) a \<and> fin (set_size p n h) a \<le> unat p + 8 * unat n" if "a \<in> insert p (set as \<union> A)" for a
  proof (cases "a = p")
    case False
    then show ?thesis using blocks_in [OF i(1), of a] that f [of a] same [of a] by fastforce
  qed (use i(2) n in \<open>simp add: fin_def\<close>)
  moreover have "fin (set_size p n h) a \<le> unat c" if "a \<in> insert p (set as \<union> A)" "c \<in> insert p (set as \<union> A)" "a < c" for a c
    using that f [of a] f [of c] same [of a] blocks_sep [OF i(1), of a c] by (cases "a = p"; cases "c = p") auto
  ultimately have "blocks (set_size p n h) lo (unat p + 8 * unat n) (set as \<union> insert p A)" using n(2) by (auto simp: blocks_def)
  moreover have "links (set_size p n h) (base # as @ [base])"
    using inv links_cong [of "base # as" "set_size p n h" h base] by (simp add: heap_inv_def)
  moreover have "base \<noteq> p" using i by auto
  ultimately show "heap_inv base lo (unat p + 8 * unat n) (insert p A) as (set_size p n h)"
    using inv np by (auto simp: heap_inv_def)
qed

section \<open>The allocator and the kernel\<close>

text \<open>\<open>top k\<close> is the size of the process: memory is added at its end, below the kernel, or the call fails.\<close>

text \<open>The memory a program was given: each block inside \<open>[lo, hi)\<close>, no two sharing a byte.\<close>

definition disjoint_blocks :: "nat \<Rightarrow> nat \<Rightarrow> (u32 \<times> u32) list \<Rightarrow> bool" where
  "disjoint_blocks lo hi live \<longleftrightarrow> distinct (map fst live) \<and> (\<forall>(r, n)\<in>set live. lo \<le> unat r \<and> unat r + unat n \<le> hi) \<and>
     (\<forall>(r, n)\<in>set live. \<forall>(q, m)\<in>set live. r < q \<longrightarrow> unat r + unat n \<le> unat q)"

lemma units_bounds:
  assumes "unat n \<le> 0x7FFFFFF0"
  shows "0 < units n \<and> 8 * unat (units n) < 2 ^ 31 \<and> unat n + 8 \<le> 8 * unat (units n)"
proof -
  have "unat (n + 7) = unat n + 7" using assms by (subst unat_add_lem [THEN iffD1]) auto
  then have d: "unat ((n + 7) div 8) = (unat n + 7) div 8" by (simp add: unat_div)
  then have "unat ((n + 7) div 8 + 1) = (unat n + 7) div 8 + 1"
    using assms by (subst unat_add_lem [THEN iffD1]) auto
  then have "unat (units n) = (unat n + 7) div 8 + 1" by (simp add: units_def add.commute)
  then show ?thesis using assms by (simp add: word_less_nat_alt) linarith
qed

locale sbrk_contract =
  fixes sbrk :: "u32 \<Rightarrow> 'k \<Rightarrow> u32 \<times> 'k" and top :: "'k \<Rightarrow> u32"
  assumes sbrk_grows: "0 < n \<Longrightarrow> unat n < 2 ^ 31 \<Longrightarrow> unat (top k) \<le> 2 ^ 31 \<Longrightarrow> sbrk n k = (r, k') \<Longrightarrow>
    r = -1 \<and> top k' = top k \<or> r = top k \<and> unat (top k') = unat (top k) + unat n \<and> unat (top k') \<le> 2 ^ 31"
begin

lemma morecore_ok:
  assumes inv: "heap_inv base lo (unat (top k)) A as h" and n: "0 < n" "8 * unat n < 2 ^ 31"
  shows "\<exists>r h' k' as'. morecore sbrk n (h, k) = Some (r, h', k') \<and> heap_inv base lo (unat (top k')) A as' h' \<and>
    (\<forall>a\<in>A. hsize h' a = hsize h a) \<and> (r = 0 \<or> r \<noteq> 0 \<and> r = freep h' \<and> (\<exists>a\<in>set as'. n \<le> hsize h' a))"
proof -
  define m where "m = (if n < 4096 then 4096 else n)"
  have m: "0 < m" "n \<le> m" "8 * unat m < 2 ^ 31" using n by (auto simp: m_def)
  have u: "unat (m * 8) = 8 * unat m" using m(3) unat_add_units [of 0 m] by (simp add: mult.commute)
  have top: "unat (top k) \<le> 2 ^ 31" using inv by (auto simp: heap_inv_def blocks_def)
  obtain r k' where r: "sbrk (m * 8) k = (r, k')" by fastforce
  have "0 < m * 8" using u m(1) by (simp add: word_less_nat_alt)
  then consider "r = -1" "top k' = top k" | "r = top k" "unat (top k') = unat (top k) + 8 * unat m" "unat (top k') \<le> 2 ^ 31"
    using sbrk_grows [OF _ _ top r] u m(3) by auto
  then show ?thesis
  proof cases
    case 1
    then show ?thesis using inv r by (auto simp: morecore_def m_def [symmetric])
  next
    case 2
    define p where "p = top k"
    have g: "heap_inv base lo (unat (top k')) (insert p A) as (set_size p m h)" "p \<notin> set as \<union> A"
      using grow_heap [of base lo p A as h m] inv m 2 by (auto simp: p_def)
    obtain h' as' where f: "free (p + 8) (set_size p m h) = Some h'" "heap_inv base lo (unat (top k')) A as' h'"
        "\<forall>a\<in>A. hsize h' a = hsize h a" "\<exists>a\<in>set as'. m \<le> hsize h' a"
      using free_ok [OF g(1), of p] g(2) by (auto simp: Diff_insert_absorb)
    have "p \<noteq> -1" using top by (auto simp: p_def unsigned_minus_1_eq_mask mask_eq_exp_minus_1)
    moreover have "freep h' \<noteq> 0" using f(2) heap_inv_base [OF f(2), of 0] by (auto simp: heap_inv_def)
    ultimately show ?thesis using f r m(2) 2(1) order_trans by (fastforce simp: morecore_def m_def [symmetric] p_def)
  qed
qed


lemma malloc_loop_ok:
  assumes inv: "heap_inv base lo (unat (top k)) A as h" and n: "0 < n" "8 * unat n < 2 ^ 31"
  shows "\<exists>r h' k' as'. malloc_loop sbrk n (freep h) (hptr h (freep h)) (h, k) = Some (r, h', k') \<and>
    (\<forall>a\<in>A. hsize h' a = hsize h a) \<and> (r = 0 \<and> heap_inv base lo (unat (top k')) A as' h' \<or>
    (\<exists>a. r = a + 8 \<and> a \<notin> A \<and> hsize h' a = n \<and> heap_inv base lo (unat (top k')) (insert a A) as' h'))"
proof -
  have ring: "\<exists>ys. links g (freep g # ys @ [freep g]) \<and> freep g \<notin> set ys \<and> set (freep g # ys) = set (base # bs)"
    if g: "heap_inv base lo hi A bs g" for g hi bs
    using links_rotate [of g base bs "freep g"] g heap_inv_base [OF g] strict_sorted_iff [of bs] by (auto simp: heap_inv_def)
  have found: ?thesis
    if g: "heap_inv base lo (unat (top k1)) A bs g" "\<exists>a\<in>set (base # bs). n \<le> hsize g a" "\<forall>a\<in>A. hsize g a = hsize h a"
      and e: "malloc_loop sbrk n (freep h) (hptr h (freep h)) (h, k) = malloc_loop sbrk n (freep g) (hptr g (freep g)) (g, k1)" for g k1 bs
  proof -
    obtain ys where ys: "links g (freep g # ys @ [freep g])" "freep g \<notin> set ys" "set (freep g # ys) = set (base # bs)"
      using ring [OF g(1)] by blast
    obtain q where q: "q \<in> set (base # bs)" "n \<le> hsize g (hptr g q)"
        "malloc_loop sbrk n (freep g) (hptr g (freep g)) (g, k1) = (let (r, h') = take_block n q (hptr g q) g in Some (r, h', k1))"
      using malloc_found [OF ys(1,2), of n sbrk k1] g(2) unfolding ys(3) [symmetric] by auto
    show ?thesis using take_block_ok [OF g(1) q(1) n(1) q(2)] q(3) e g(3) by fastforce
  qed
  show ?thesis
  proof (cases "\<exists>a\<in>set (base # as). n \<le> hsize h a")
    case True
    show ?thesis by (rule found [OF inv True]) auto
  next
    case False
    obtain ys where ys: "links h (freep h # ys @ [freep h])" "freep h \<notin> set ys" "set (freep h # ys) = set (base # as)"
      using ring [OF inv] by blast
    then have small: "\<forall>y\<in>set (freep h # ys). hsize h y < n" using False by (metis not_le)
    then obtain q where q: "malloc_loop sbrk n (freep h) (hptr h (freep h)) (h, k) = malloc_loop sbrk n q (freep h) (h, k)"
      using malloc_walk [OF ys(1,2), of n sbrk k] by auto
    obtain r h' k' as' where m: "morecore sbrk n (h, k) = Some (r, h', k')" "heap_inv base lo (unat (top k')) A as' h'"
        "\<forall>a\<in>A. hsize h' a = hsize h a" "r = 0 \<or> r \<noteq> 0 \<and> r = freep h' \<and> (\<exists>a\<in>set as'. n \<le> hsize h' a)"
      using morecore_ok [OF inv n] by blast
    have e: "malloc_loop sbrk n q (freep h) (h, k) = (if r = 0 then Some (0, h', k') else malloc_loop sbrk n r (hptr h' r) (h', k'))"
      using small m(1) by (subst malloc_loop.simps) (auto simp: not_le)
    show ?thesis
    proof (cases "r = 0")
      case True
      then show ?thesis using q e m by auto
    next
      case False
      then show ?thesis using q e m(4) by (intro found [OF m(2) _ m(3)]) auto
    qed
  qed
qed


definition live_inv :: "u32 \<Rightarrow> nat \<Rightarrow> (u32 \<times> u32) list \<times> uheap \<times> 'k \<Rightarrow> bool" where
  "live_inv base lo = (\<lambda>(live, h, k). distinct (map fst live) \<and>
     (\<exists>as. heap_inv base lo (unat (top k)) ((\<lambda>x. fst x - 8) ` set live) as h) \<and>
     (\<forall>(r, n)\<in>set live. unat n + 8 \<le> 8 * unat (hsize h (r - 8))))"

definition fresh :: "u32 \<Rightarrow> nat \<Rightarrow> (u32 \<times> u32) list \<times> uheap \<times> 'k \<Rightarrow> bool" where
  "fresh base lo = (\<lambda>(live, h, k). live = [] \<and> freep h = 0 \<and> base \<noteq> 0 \<and> unat base + 8 \<le> lo \<and> lo \<le> unat (top k) \<and> unat (top k) \<le> 2 ^ 31)"

lemma malloc_live:
  assumes s: "live_inv base lo (live, h, k) \<or> fresh base lo (live, h, k)" and n: "unat n \<le> 0x7FFFFFF0"
  shows "\<exists>r h' k'. malloc base sbrk n (h, k) = Some (r, h', k') \<and> live_inv base lo (if r = 0 then live else live @ [(r, n)], h', k')"
proof -
  let ?A = "(\<lambda>x. fst x - 8) ` set live"
  define g where "g = (if freep h = 0 then set_size base 0 (set_ptr base base (h\<lparr>freep := base\<rparr>)) else h)"
  have "live_inv base lo (live, g, k)"
  proof (cases "fresh base lo (live, h, k)")
    case True
    then show ?thesis by (auto simp: fresh_def live_inv_def heap_inv_def blocks_def g_def intro!: exI [of _ "[]"])
  next
    case False
    then obtain as where "heap_inv base lo (unat (top k)) ?A as h" using s by (auto simp: live_inv_def)
    then have "freep h \<noteq> 0" using heap_inv_base [of base lo "unat (top k)" ?A as h 0] by (auto simp: heap_inv_def)
    then show ?thesis using s False by (simp add: g_def)
  qed
  then obtain as where g: "heap_inv base lo (unat (top k)) ?A as g" "distinct (map fst live)"
      "\<forall>(r, n)\<in>set live. unat n + 8 \<le> 8 * unat (hsize g (r - 8))" by (auto simp: live_inv_def)
  have u: "0 < units n" "8 * unat (units n) < 2 ^ 31" "unat n + 8 \<le> 8 * unat (units n)" using units_bounds [OF n] by auto
  obtain r h' k' as' where m: "malloc_loop sbrk (units n) (freep g) (hptr g (freep g)) (g, k) = Some (r, h', k')"
      "\<forall>a\<in>?A. hsize h' a = hsize g a" "r = 0 \<and> heap_inv base lo (unat (top k')) ?A as' h' \<or>
      (\<exists>a. r = a + 8 \<and> a \<notin> ?A \<and> hsize h' a = units n \<and> heap_inv base lo (unat (top k')) (insert a ?A) as' h')"
    using malloc_loop_ok [OF g(1) u(1,2)] by blast
  have old: "\<forall>(r, n)\<in>set live. unat n + 8 \<le> 8 * unat (hsize h' (r - 8))" using g(3) m(2) by fastforce
  have "live_inv base lo (if r = 0 then live else live @ [(r, n)], h', k')"
  proof (cases "r = 0")
    case True
    then have "heap_inv base lo (unat (top k')) ?A as' h'" using m(3) by (metis heap_inv_ptr)
    then show ?thesis using True g(2) old by (auto simp: live_inv_def)
  next
    case False
    then obtain a where a: "r = a + 8" "a \<notin> ?A" "hsize h' a = units n" "heap_inv base lo (unat (top k')) (insert a ?A) as' h'"
      using m(3) by blast
    then have "r \<notin> fst ` set live" by force
    then show ?thesis using a False g(2) old u(3) by (auto simp: live_inv_def)
  qed
  then show ?thesis using m(1) by (auto simp: malloc_def g_def Let_def)
qed


lemma free_live:
  assumes s: "live_inv base lo (live, h, k)" and i: "i < length live"
  shows "\<exists>h'. free (fst (live ! i)) h = Some h' \<and> live_inv base lo (take i live @ drop (Suc i) live, h', k)"
proof -
  let ?A = "(\<lambda>x. fst x - 8) ` set live"
  define r where "r = fst (live ! i)"
  define rest' where "rest' = take i live @ drop (Suc i) live"
  obtain as where inv: "heap_inv base lo (unat (top k)) ?A as h" and d: "distinct (map fst live)"
      and n: "\<forall>(r, n)\<in>set live. unat n + 8 \<le> 8 * unat (hsize h (r - 8))"
    using s by (auto simp: live_inv_def)
  have e: "live = take i live @ live ! i # drop (Suc i) live" using i by (rule id_take_nth_drop)
  then have "distinct (map fst (take i live @ live ! i # drop (Suc i) live))" using d by metis
  then have dr: "distinct (map fst rest')" "r \<notin> fst ` set rest'" by (auto simp: rest'_def r_def)
  have set: "set live = insert (live ! i) (set rest')" using arg_cong [OF e, of set] by (simp add: rest'_def)
  have "?A = insert (r - 8) ((\<lambda>x. fst x - 8) ` set rest')" by (simp add: set r_def)
  moreover have "r - 8 \<notin> (\<lambda>x. fst x - 8) ` set rest'" using dr(2) by force
  ultimately have A: "?A - {r - 8} = (\<lambda>x. fst x - 8) ` set rest'" "r - 8 \<in> ?A" by simp_all
  obtain h' as' where f: "free (r - 8 + 8) h = Some h'" "heap_inv base lo (unat (top k)) (?A - {r - 8}) as' h'"
      "\<forall>a\<in>?A - {r - 8}. hsize h' a = hsize h a"
    using free_ok [OF inv A(2)] by blast
  have "\<forall>(q, n)\<in>set rest'. unat n + 8 \<le> 8 * unat (hsize h' (q - 8))" using n f(3) set unfolding A(1) by force
  then have "live_inv base lo (rest', h', k)" using dr(1) f(2) unfolding A(1) by (auto simp: live_inv_def)
  then show ?thesis using f(1) by (simp add: r_def rest'_def)
qed

lemma mrun_live:
  assumes "live_inv base lo s \<or> fresh base lo s" "\<forall>n. Malloc n \<in> set ops \<longrightarrow> unat n \<le> 0x7FFFFFF0"
  shows "\<exists>s'. mrun base sbrk ops s = Some s' \<and> (live_inv base lo s' \<or> fresh base lo s')"
  using assms
proof (induction ops arbitrary: s)
  case (Cons op ops)
  obtain live h k where s: "s = (live, h, k)" by (cases s) auto
  have IH: "live_inv base lo t \<or> fresh base lo t \<Longrightarrow> \<exists>s'. mrun base sbrk ops t = Some s' \<and> (live_inv base lo s' \<or> fresh base lo s')" for t
    using Cons.IH Cons.prems(2) by simp
  show ?case
  proof (cases op)
    case (Malloc n)
    obtain r h' k' where "malloc base sbrk n (h, k) = Some (r, h', k')" "live_inv base lo (if r = 0 then live else live @ [(r, n)], h', k')"
      using malloc_live [of base lo live h k n] Cons.prems Malloc s by auto
    then show ?thesis using IH by (simp add: Malloc s)
  next
    case (Free i)
    show ?thesis
    proof (cases "i < length live")
      case True
      then have "live_inv base lo (live, h, k)" using Cons.prems(1) by (auto simp: s fresh_def)
      then show ?thesis using free_live [OF _ True] IH True by (fastforce simp: Free s)
    next
      case False
      then show ?thesis using IH Cons.prems(1) by (simp add: Free s)
    qed
  qed
qed auto


lemma live_blocks:
  assumes "live_inv base lo (live, h, k) \<or> fresh base lo (live, h, k)"
  shows "disjoint_blocks lo (unat (top k)) live"
proof (cases "live = []")
  case False
  let ?A = "(\<lambda>x. fst x - 8) ` set live"
  obtain as where inv: "blocks h lo (unat (top k)) (set as \<union> ?A)" and d: "distinct (map fst live)"
      and n: "\<forall>(r, n)\<in>set live. unat n + 8 \<le> 8 * unat (hsize h (r - 8))"
    using assms False by (auto simp: live_inv_def fresh_def heap_inv_def)
  have b: "unat r = unat (r - 8) + 8 \<and> lo \<le> unat r \<and> unat r + unat n \<le> fin h (r - 8) \<and> fin h (r - 8) \<le> unat (top k) \<and> r - 8 \<in> set as \<union> ?A"
    if "(r, n) \<in> set live" for r n
  proof -
    have r: "r - 8 \<in> set as \<union> ?A" using that by force
    have u: "unat n + 8 \<le> 8 * unat (hsize h (r - 8))" using n that by auto
    have f: "lo \<le> unat (r - 8)" "fin h (r - 8) \<le> unat (top k)" "unat (top k) \<le> 2 ^ 31"
      using blocks_in [OF inv r] inv by (auto simp: blocks_def)
    have "unat ((r - 8) + 8 * 1) = unat (r - 8) + 8 * unat (1 :: u32)" using f u by (intro unat_add_units) (simp add: fin_def)
    then show ?thesis using f u r by (simp add: fin_def)
  qed
  have "unat r + unat n \<le> unat q" if "(r, n) \<in> set live" "(q, m) \<in> set live" "r < q" for r n q m
  proof -
    have "r - 8 < q - 8" using b [OF that(1)] b [OF that(2)] that(3) by (simp add: word_less_nat_alt)
    then have "fin h (r - 8) \<le> unat (q - 8)" using b [OF that(1)] b [OF that(2)] by (intro blocks_sep [OF inv]) auto
    then show ?thesis using b [OF that(1)] b [OF that(2)] by linarith
  qed
  moreover have "lo \<le> unat r \<and> unat r + unat n \<le> unat (top k)" if "(r, n) \<in> set live" for r n
    using b [OF that] by linarith
  ultimately show ?thesis using d unfolding disjoint_blocks_def by blast
qed (simp add: disjoint_blocks_def)

end

section \<open>The kernel as the provider of memory\<close>

definition proc_size :: "kernel \<Rightarrow> u32" where
  "proc_size k = (case cur k of None \<Rightarrow> 0 | Some p \<Rightarrow> sz (procs k p))"

text \<open>
  The system call as the program sees it, the argument taken from its stack; a kernel that panics answers no
  more, which the program could not tell from a refusal.
\<close>

definition usbrk :: "u32 \<Rightarrow> kernel \<Rightarrow> u32 \<times> kernel" where
  "usbrk n k =
     (case growproc (sint n) k of
        Ok (r, k') \<Rightarrow> (if r < 0 then -1 else proc_size k, k')
      | _ \<Rightarrow> (-1, k))"

definition sizes :: "kernel \<Rightarrow> kernel \<Rightarrow> bool" where
  "sizes k k' \<longleftrightarrow> cur k' = cur k \<and> (\<forall>p. sz (procs k' p) = sz (procs k p))"

interpretation zf: pipe_frame "sizes k" for k
  by unfold_locales
    (auto simp: sizes_def wakeup_def wakeup1_def upd_buf_def upd_log_def upd_inode_def upd_input_def upd_pipe_def)

lemma allocuvm_result:
  "okp (allocuvm d oldsz newsz s) (\<lambda>(r, t). r = 0 \<or> r = newsz \<and> newsz < KERNBASE \<or> r = oldsz \<and> newsz < oldsz)"
proof -
  have "okp (allocuvm_loop n d oldsz newsz a s) (\<lambda>(r, t). r = 0 \<or> r = newsz)" for n a s
    by (induction n arbitrary: a s) (auto simp: Let_def okp_kbind okp_def split: prod.splits)
  from this [of "unat newsz div 4096 + 2" "PGROUNDUP oldsz" s] show ?thesis
    by (auto simp: allocuvm_def okp_def simp del: allocuvm_loop.simps)
qed

lemma switchuvm_sizes: "sizes k s \<Longrightarrow> okp (switchuvm p s) (sizes k)"
  by (auto simp: switchuvm_def Let_def okp_kbind okp_def sizes_def)

lemma growproc_size:
  assumes p: "cur k = Some p" and n: "0 < n"
  shows "okp (growproc n k) (\<lambda>(r, k'). r = -1 \<and> proc_size k' = proc_size k \<or>
    r = 0 \<and> cur k' = Some p \<and> (let new = sz (procs k p) + word_of_int n in
      sz (procs k' p) = new \<and> new < KERNBASE \<or> sz (procs k' p) = sz (procs k p) \<and> new < sz (procs k p)))"
proof -
  define new where "new = sz (procs k p) + word_of_int n"
  have a: "okp (allocuvm (pgdir (procs k p)) (sz (procs k p)) new k) (\<lambda>(r, t). sizes k t \<and>
      (r = 0 \<or> r = new \<and> new < KERNBASE \<or> r = sz (procs k p) \<and> new < sz (procs k p)))"
    using zf.allocuvm_I [of k k "pgdir (procs k p)" "sz (procs k p)" new]
      allocuvm_result [of "pgdir (procs k p)" "sz (procs k p)" new k] by (auto simp: okp_def sizes_def)
  have f: "okp (switchuvm p (upd_proc p (\<lambda>r. r\<lparr>sz := x\<rparr>) t)) (\<lambda>t. cur t = Some p \<and> sz (procs t p) = x)" if "sizes k t" for x t
    using that p switchuvm_sizes [of "upd_proc p (\<lambda>r. r\<lparr>sz := x\<rparr>) t" "upd_proc p (\<lambda>r. r\<lparr>sz := x\<rparr>) t" p]
    by (auto simp: okp_def sizes_def upd_proc_def)
  have "okp (kbind (allocuvm (pgdir (procs k p)) (sz (procs k p)) new k) (\<lambda>(nsz, s). if nsz = 0 then Ok (-1, s)
      else kbind (switchuvm p (upd_proc p (\<lambda>r. r\<lparr>sz := nsz\<rparr>) s)) (\<lambda>s. Ok (0, s))))
    (\<lambda>(r, k'). r = -1 \<and> proc_size k' = proc_size k \<or> r = 0 \<and> cur k' = Some p \<and>
      (sz (procs k' p) = new \<and> new < KERNBASE \<or> sz (procs k' p) = sz (procs k p) \<and> new < sz (procs k p)))"
    unfolding okp_kbind by (rule okp_mono [OF a]) (auto simp: okp_kbind proc_size_def sizes_def p intro!: okp_mono [OF f])
  then show ?thesis using n p by (simp add: growproc_def with_proc_def Let_def new_def)
qed

interpretation um: sbrk_contract usbrk proc_size
proof
  fix n k r k'
  assume n: "0 < n" "unat n < 2 ^ 31" and top: "unat (proc_size k) \<le> 2 ^ 31" and u: "usbrk n k = (r, k')"
  show "r = -1 \<and> proc_size k' = proc_size k \<or>
    r = proc_size k \<and> unat (proc_size k') = unat (proc_size k) + unat n \<and> unat (proc_size k') \<le> 2 ^ 31"
  proof (cases "cur k")
    case None
    then have "growproc (sint n) k = Fault ''null proc''" unfolding growproc_def with_proc_def by simp
    then show ?thesis using u by (simp add: usbrk_def)
  next
    case (Some p)
    have i: "uint n = int (unat n)" by (rule uint_nat)
    have "uint n < 2 ^ 31" using iffD2 [OF of_nat_less_iff n(2), where 'a1 = int] unfolding i by simp
    then have "signed_take_bit 31 (uint n) = uint n"
      using uint_ge_0 [of n] by (intro signed_take_bit_int_eq_self) linarith+
    then have "sint n = uint n" by (simp add: sint_uint)
    then have s: "0 < sint n" using n(1) by (simp add: word_less_def)
    then have w: "word_of_int (sint n) = n" by simp
    have add: "unat (proc_size k + n) = unat (proc_size k) + unat n" using n(2) top by (intro unat_add_lem [THEN iffD1]) simp
    then have "\<not> proc_size k + n < proc_size k" by (simp add: word_less_nat_alt)
    then show ?thesis using growproc_size [OF Some s] u add w Some
      by (auto simp: usbrk_def okp_def proc_size_def word_less_nat_alt Let_def split: res.splits)
  qed
qed

section \<open>Properties\<close>

text \<open>C13: However a program calls \<open>malloc\<close>, for sizes up to 2 GB, and \<open>free\<close>, on blocks it holds, every call returns, and
  the blocks it holds are pairwise disjoint, of the sizes asked for, and inside the memory that the kernel has
  added to the process.\<close>

theorem malloc_disjoint:
  assumes "freep h = 0" "base \<noteq> 0" "unat base + 8 \<le> unat (proc_size k)" "unat (proc_size k) \<le> 2 ^ 31"
    and "\<forall>n. Malloc n \<in> set ops \<longrightarrow> unat n \<le> 0x7FFFFFF0"
  shows "\<exists>live h' k'. mrun base usbrk ops ([], h, k) = Some (live, h', k') \<and>
    disjoint_blocks (unat (proc_size k)) (unat (proc_size k')) live"
proof -
  have "um.fresh base (unat (proc_size k)) ([], h, k)" using assms by (simp add: um.fresh_def)
  then obtain live h' k' where "mrun base usbrk ops ([], h, k) = Some (live, h', k')"
      "um.live_inv base (unat (proc_size k)) (live, h', k') \<or> um.fresh base (unat (proc_size k)) (live, h', k')"
    using um.mrun_live [of base "unat (proc_size k)" "([], h, k)" ops] assms(5) by auto
  then show ?thesis using um.live_blocks by blast
qed

theorem malloc_disjoint_witness:
  "\<exists>live h' k'. mrun 0x1000 usbrk [Malloc 100, Malloc 8, Free 0, Malloc 4000]
      ([], \<lparr>hptr = (\<lambda>_. 0), hsize = (\<lambda>_. 0), freep = 0\<rparr>, demo_kernel\<lparr>cur := Some 0, procs := (\<lambda>_. zero_proc\<lparr>sz := 0x4000\<rparr>)\<rparr>) =
    Some (live, h', k') \<and> disjoint_blocks 0x4000 (unat (proc_size k')) live"
  using malloc_disjoint [where h = "\<lparr>hptr = (\<lambda>_. 0), hsize = (\<lambda>_. 0), freep = 0\<rparr>" and base = "0x1000" and
      k = "demo_kernel\<lparr>cur := Some 0, procs := (\<lambda>_. zero_proc\<lparr>sz := 0x4000\<rparr>)\<rparr>" and ops = "[Malloc 100, Malloc 8, Free 0, Malloc 4000]"]
  by (auto simp: proc_size_def)

text \<open>Sizes near the end of the address space wrap around: a request for 4 GB - 1 is served with a bare header.\<close>

lemma units_wraps: "units 0xFFFFFFFF = 1" "units 0xFFFFFFF8 * 8 = 0"
  by (simp_all add: units_def)

end
