(* ===== verification/Spec2Isabelle.thy ===== *)
theory Spec2Isabelle
  imports Uthread Shapes Trap Grep Sh_Run Ide Umalloc
begin

text \<open>
  \<^bold>\<open>The program.\<close> xv6 is a small Unix-like operating system for the x86: a kernel with processes, virtual memory,
  a logging file system, pipes and a console, and a set of user programs. This version adds signals and
  alarms to the kernel (\<^verbatim>\<open>proc.c\<close>, \<^verbatim>\<open>trap.c\<close>, \<^verbatim>\<open>trapasm.S\<close>) and a library of user-level threads that are switched
  by the alarm signal (\<^verbatim>\<open>uthread.c\<close>). A user program enters the kernel by a trap; \<^verbatim>\<open>trap.c\<close> dispatches system
  calls and device interrupts; the system calls work on the process table, page tables and files; files end
  in pipes, the console or inodes; inodes are kept in blocks that the log writes through the buffer cache to
  the disk driver. On the way back to the program pending signals are delivered.

  \<^bold>\<open>Conventions.\<close> The global variables of the kernel are one record, \<open>kernel\<close>; an operation takes it and returns it
  updated. An operation that can fail has the result type \<open>'a res\<close>: \<open>Ok\<close>, \<open>Panic\<close> for a call of \<^verbatim>\<open>panic\<close>, \<open>Block\<close> when
  the process would go to sleep on a channel, and \<open>Fault\<close> where C has no defined
  behaviour (a null pointer, an index outside an array) or a bounded loop runs out of rounds. Machine integers
  are words of their width, pointers into tables are indices, pointers into memory are 32-bit addresses of a
  byte-addressed memory, and a transfer between the kernel and a user buffer is a list of bytes that is
  loaded and stored through the page table.

  \<^bold>\<open>Theories of the kernel.\<close>
  \<^item> \<open>Prelude\<close>, \<open>CString\<close>, \<open>Ring\<close>: machine types, results, memory, and what components share; \<^verbatim>\<open>string.c\<close>; circular
    buffers and the interface of a bounded queue.
  \<^item> \<open>Spinlock\<close> (\<^verbatim>\<open>spinlock.c\<close>): \<open>pushcli\<close> and \<open>popcli\<close>, and \<open>acquire\<close> and \<open>release\<close> as atomic steps of several
    processors: mutual exclusion, and nesting of interrupt disabling.
  \<^item> \<open>Kernel_State\<close> (\<^verbatim>\<open>param.h\<close>, \<^verbatim>\<open>mmu.h\<close>, \<^verbatim>\<open>memlayout.h\<close>, \<^verbatim>\<open>proc.h\<close>, \<^verbatim>\<open>file.h\<close>, \<^verbatim>\<open>fs.h\<close>, \<^verbatim>\<open>buf.h\<close>): constants, structures and
    the kernel record.
  \<^item> \<open>Kalloc\<close>, \<open>Vm\<close>, \<open>Vm_Loops\<close>, \<open>User_Mem\<close> (\<^verbatim>\<open>kalloc.c\<close>, \<^verbatim>\<open>vm.c\<close>): the page allocator as a stack of pages linked through
    themselves, page tables in memory with \<open>mappages\<close> as an update of the address map, termination of the
    loops over page tables, and accesses to user memory.
  \<^item> \<open>Cprintf\<close>, \<open>Console\<close>, \<open>Kbd\<close> (\<^verbatim>\<open>console.c\<close>, \<^verbatim>\<open>printf.c\<close>, \<^verbatim>\<open>kbd.c\<close>, \<^verbatim>\<open>uart.c\<close>): formatted output, the line discipline as a
    refinement of an edited line and a queue of finished ones, screen bounds, and decoding of keys.
  \<^item> \<open>Bio\<close>, \<open>Ide\<close> (\<^verbatim>\<open>sleeplock.c\<close>, \<^verbatim>\<open>bio.c\<close>, \<^verbatim>\<open>memide.c\<close>, \<^verbatim>\<open>ide.c\<close>): the buffer cache as a refinement of the map from block
    numbers to contents, and the interrupt-driven driver, equivalent to the synchronous one.
  \<^item> \<open>Layout\<close>, \<open>Log\<close>, \<open>Inode\<close>, \<open>Fs\<close>, \<open>Pipe\<close>, \<open>File\<close> (\<^verbatim>\<open>fs.h\<close>, \<^verbatim>\<open>log.c\<close>, \<^verbatim>\<open>fs.c\<close>, \<^verbatim>\<open>pipe.c\<close>, \<^verbatim>\<open>file.c\<close>): on-disk records and their round
    trips; the log, with commit and recovery after a crash at any disk write; inodes, directories and paths;
    pipes as first-in first-out queues; the file table.
  \<^item> \<open>Frame\<close>: what the file system and the page tables leave alone, as locales that later invariants instantiate.
  \<^item> \<open>Signals\<close>, \<open>Sched\<close>, \<open>Proc\<close>, \<open>Exit_Wait\<close> (\<^verbatim>\<open>proc.c\<close>, \<^verbatim>\<open>swtch.S\<close>, \<^verbatim>\<open>trapasm.S\<close>): signals and the unwinding of handlers;
    the scheduler as a transition system with its invariant; creation and end of processes; \<open>exit\<close> ends the
    \<open>wait\<close> of the parent.
  \<^item> \<open>Syscall\<close>, \<open>Exec\<close>, \<open>Sysfile\<close>, \<open>Refs\<close>, \<open>Shapes\<close>, \<open>Trap\<close> (\<^verbatim>\<open>syscall.c\<close>, \<^verbatim>\<open>sysproc.c\<close>, \<^verbatim>\<open>exec.c\<close>, \<^verbatim>\<open>sysfile.c\<close>, \<^verbatim>\<open>trap.c\<close>): all system calls,
    the checks of user pointers, the reference counts of open files and the sizes of the kernel's arrays across every call, and traps.

  \<^bold>\<open>Theories of user programs.\<close>
  \<^item> \<open>Uthread\<close> (\<^verbatim>\<open>uthread.c\<close>): the thread pool, the lottery and the switches, with the invariant of every reachable pool.
  \<^item> \<open>Ulib\<close>, \<open>Umalloc\<close> (\<^verbatim>\<open>ulib.c\<close>, \<^verbatim>\<open>umalloc.c\<close>): strings and numbers; the allocator, over the kernel's \<open>growproc\<close>.
  \<^item> \<open>Grep\<close> (\<^verbatim>\<open>grep.c\<close>): the matcher against the language of a pattern, and the selection of lines.
  \<^item> \<open>Sh\<close>, \<open>Sh_Parse\<close>, \<open>Sh_Print\<close>, \<open>Sh_Run\<close> (\<^verbatim>\<open>sh.c\<close>): the parser, its totality and the round trip with printing, and
    execution as trees of system calls with the descriptors each program gets.

  \<^bold>\<open>What the theorems show.\<close> Invariants and safety: mutual exclusion, one running process, a scheduler that never
  panics, reference counts, checked user pointers, a safe thread pool, disjoint blocks of memory. Crash safety:
  after a crash a transaction is on the disk entirely or not at all. Functional behaviour and refinement: signal
  handlers nest and unwind, the buffer cache and the queues implement their abstract counterparts, the shell
  runs commands with the right descriptors. Liveness: \<open>wait\<close>, \<open>sleep\<close> and \<open>sys_sleep\<close> return once what they wait for
  has happened. Errors: the theorems on \<open>sigreturn\<close>, \<open>uthread_init\<close>, \<open>uthred_join\<close> and the reservation of log blocks
  show where the code does not do what it is meant to.

  \<^bold>\<open>Bounds and fuel.\<close> Searches of the ring of buffers take \<open>NBUF + 1\<close> rounds, enough because the ring has \<open>NBUF\<close>
  buffers and the head (\<open>Bio\<close>). The loops over page tables take a round per page of the range and two more;
  \<open>Vm_Loops\<close> proves that they never run out. The parser takes a unit for each round and call; \<open>Sh_Parse\<close> proves that
  the fuel given by \<open>parsecmd\<close> always suffices. The loops of \<open>readi\<close>, \<open>writei\<close>, \<open>namex\<close> and \<open>copyout\<close> end by a measure. The
  searches of the allocator and of the disk queue are partial functions, shown to return on every reachable
  state.

  \<^bold>\<open>Not modelled.\<close>
  \<^item> Hardware set-up: \<^verbatim>\<open>bootasm.S\<close>, \<^verbatim>\<open>bootmain.c\<close>, \<^verbatim>\<open>entry.S\<close>, \<^verbatim>\<open>entryother.S\<close>, \<^verbatim>\<open>main.c\<close>, \<^verbatim>\<open>lapic.c\<close>, \<^verbatim>\<open>ioapic.c\<close>, \<^verbatim>\<open>picirq.c\<close>, \<^verbatim>\<open>timer.c\<close>, \<^verbatim>\<open>mp.c\<close>,
    \<open>seginit\<close>, \<open>tvinit\<close>: they write registers and tables whose meaning is that of the processor.
  \<^item> Spin locks inside one operation of a single kernel: an operation is atomic, as it is with its lock held; the
    interleaving of processes is in \<open>Sched\<close> and that of processors in \<open>Spinlock\<close>.
  \<^item> \<open>procdump\<close>, \<open>getcallerpcs\<close> and debugging output, which only print.
  \<^item> \<^verbatim>\<open>mkfs.c\<close>, a program of the build host; \<^verbatim>\<open>init.c\<close>, \<^verbatim>\<open>initcode.S\<close>, \<^verbatim>\<open>usys.S\<close> and small programs such as \<^verbatim>\<open>cat.c\<close> and \<^verbatim>\<open>ls.c\<close>,
    which only compose system calls; the test programs \<^verbatim>\<open>usertests.c\<close>, \<^verbatim>\<open>forktest.c\<close>, \<^verbatim>\<open>stressfs.c\<close>, \<^verbatim>\<open>ulttest.c\<close>, \<^verbatim>\<open>alarmTest.c\<close>
    and \<^verbatim>\<open>testEx1.c\<close>, which have no contract of their own.
\<close>

end
